(* ===== verification/Prelude.thy ===== *)
theory Prelude
  imports Main "HOL-Library.Word"
begin

text \<open>
  Shared vocabulary of the development: the machine types of the C++ sources as words, the
  big-endian byte layouts that the codec, the write-ahead log, the hash function and the
  packet parsers all use, the conversion between \<^verbatim>\<open>std::string\<close> and bytes, and the
  generic facts on lists, maps and words that the component theories rest on.

  Conventions. \<^verbatim>\<open>uint8_t\<close>, \<^verbatim>\<open>uint16_t\<close>, \<^verbatim>\<open>uint32_t\<close> and \<^verbatim>\<open>uint64_t\<close> are words of their
  width, so \<open>+\<close>, \<open>-\<close> and \<open>*\<close> wrap as they do in C++. A buffer length or an
  offset into a buffer (\<^verbatim>\<open>size_t\<close>) is a \<^typ>\<open>nat\<close>: it counts bytes of an object in memory
  and no sum of such offsets the sources form reaches \<^verbatim>\<open>2^64\<close>. Where the sources narrow a
  \<^verbatim>\<open>size_t\<close> to \<^verbatim>\<open>uint32_t\<close> the narrowing is written out with \<^const>\<open>word_of_nat\<close>.
  A \<^verbatim>\<open>std::vector<uint8_t>\<close> is a list of bytes, a \<^verbatim>\<open>std::string\<close> a HOL \<^typ>\<open>string\<close>.
\<close>

unbundle bit_operations_syntax

type_synonym u8 = "8 word"
type_synonym u16 = "16 word"
type_synonym u32 = "32 word"
type_synonym u64 = "64 word"
type_synonym bytes = "u8 list"

named_theorems codec_simps \<open>round-trip and length equations of the byte codecs\<close>
named_theorems frame_simps \<open>which fields an operation leaves alone\<close>

section \<open>Bytes of a word\<close>

text \<open>\<open>byte_at n w\<close> is \<^verbatim>\<open>static_cast<uint8_t>((w >> n) & 0xFF)\<close>.\<close>

definition byte_at :: "nat \<Rightarrow> 'a::len word \<Rightarrow> u8" where
  "byte_at n w = ucast (drop_bit n w AND 0xFF)"

definition be16 :: "u16 \<Rightarrow> bytes" where
  "be16 w = [byte_at 8 w, byte_at 0 w]"

definition be32 :: "u32 \<Rightarrow> bytes" where
  "be32 w = [byte_at 24 w, byte_at 16 w, byte_at 8 w, byte_at 0 w]"

definition be64 :: "u64 \<Rightarrow> bytes" where
  "be64 w = map (\<lambda>i. byte_at (8 * i) w) [7, 6, 5, 4, 3, 2, 1, 0]"

definition word16_be :: "u8 \<Rightarrow> u8 \<Rightarrow> u16" where
  "word16_be b0 b1 = push_bit 8 (ucast b0) OR ucast b1"

definition word32_be :: "u8 \<Rightarrow> u8 \<Rightarrow> u8 \<Rightarrow> u8 \<Rightarrow> u32" where
  "word32_be b0 b1 b2 b3 =
     push_bit 24 (ucast b0) OR push_bit 16 (ucast b1) OR push_bit 8 (ucast b2) OR ucast b3"

text \<open>\<open>word64_be\<close> is the loop \<^verbatim>\<open>out = (out << 8) | data[offset + i]\<close> from \<^verbatim>\<open>out = 0\<close>.\<close>

definition word64_be :: "bytes \<Rightarrow> u64" where
  "word64_be bs = foldl (\<lambda>acc b. push_bit 8 acc OR ucast b) 0 bs"

definition byte_of_char :: "char \<Rightarrow> u8" where
  "byte_of_char c = word_of_nat (of_char c)"

definition char_of_byte :: "u8 \<Rightarrow> char" where
  "char_of_byte b = char_of (unat b)"

abbreviation bytes_of_string :: "string \<Rightarrow> bytes" where
  "bytes_of_string s \<equiv> map byte_of_char s"

abbreviation string_of_bytes :: "bytes \<Rightarrow> string" where
  "string_of_bytes bs \<equiv> map char_of_byte bs"

lemma length_be [simp, codec_simps]:
  "length (be16 w16) = 2" "length (be32 w32) = 4" "length (be64 w64) = 8"
  by (simp_all add: be16_def be32_def be64_def)

lemma be_not_Nil [simp]: "be16 w16 \<noteq> []" "be32 w32 \<noteq> []" "be64 w64 \<noteq> []"
  by (simp_all add: be16_def be32_def be64_def)

lemma bit_byte_mask: "bit (0xFF :: 'a::len word) i \<longleftrightarrow> i < 8 \<and> i < LENGTH('a)"
proof -
  have "(0xFF :: 'a word) = mask 8"
    by (simp add: mask_eq_exp_minus_1)
  then show ?thesis
    by (simp only: bit_mask_iff) auto
qed

lemma bit_byte_at: "bit (byte_at n w) i \<longleftrightarrow> i < 8 \<and> bit w (n + i)"
  using bit_imp_le_length [of w "n + i"] bit_byte_mask [of i, where 'a = 'a]
  by (auto simp: byte_at_def bit_ucast_iff bit_and_iff bit_drop_bit_eq)

lemma word16_be_bytes [simp, codec_simps]: "word16_be (byte_at 8 w) (byte_at 0 w) = w"
  by (rule bit_word_eqI) (auto simp: word16_be_def bit_simps bit_byte_at)

lemma bit_word32_be:
  "bit (word32_be b0 b1 b2 b3) n \<longleftrightarrow>
     n < 32 \<and> (24 \<le> n \<and> bit b0 (n - 24) \<or> 16 \<le> n \<and> bit b1 (n - 16) \<or>
               8 \<le> n \<and> bit b2 (n - 8) \<or> bit b3 n)"
proof (cases "n < 32")
  case True
  then show ?thesis
    by (simp add: word32_be_def bit_or_iff bit_push_bit_iff bit_ucast_iff less_imp_diff_less)
next
  case False
  then show ?thesis
    using bit_imp_le_length [of "word32_be b0 b1 b2 b3" n] by auto
qed

lemma word32_be_bytes [simp, codec_simps]:
  "word32_be (byte_at 24 w) (byte_at 16 w) (byte_at 8 w) (byte_at 0 w) = w"
proof (rule bit_word_eqI)
  fix n assume "n < LENGTH(32)"
  then consider "n < 8" | "8 \<le> n" "n < 16" | "16 \<le> n" "n < 24" | "24 \<le> n" "n < 32"
    by simp linarith
  then show "bit (word32_be (byte_at 24 w) (byte_at 16 w) (byte_at 8 w) (byte_at 0 w)) n = bit w n"
    by cases (simp_all add: bit_word32_be bit_byte_at less_diff_conv2)
qed

lemma word64_be_append:
  "bit (foldl (\<lambda>acc b. push_bit 8 acc OR ucast b) (a::u64) (bs::bytes)) n \<longleftrightarrow>
     n < 64 \<and> (if n div 8 < length bs then bit (rev bs ! (n div 8)) (n mod 8)
               else bit a (n - 8 * length bs))"
proof (induction bs arbitrary: a n rule: rev_induct)
  case Nil
  then show ?case
    by (auto dest: bit_imp_le_length)
next
  case (snoc b bs)
  show ?case
  proof (cases "n < 8")
    case True
    then show ?thesis
      by (auto simp: bit_or_iff bit_push_bit_iff bit_ucast_iff)
  next
    case False
    then have "(n - 8) div 8 = n div 8 - 1" "(n - 8) mod 8 = n mod 8" "n div 8 = Suc (n div 8 - 1)"
      by (simp_all add: le_div_geq le_mod_geq)
    moreover have "\<not> bit b n"
      using False bit_imp_le_length [of b n] by auto
    ultimately show ?thesis
      using False
      by (auto simp: bit_or_iff bit_push_bit_iff bit_ucast_iff snoc.IH less_imp_diff_less)
  qed
qed

lemma nth_be64: "k < 8 \<Longrightarrow> rev (be64 w) ! k = byte_at (8 * k) w"
proof -
  assume "k < 8"
  then consider "k = 0" | "k = 1" | "k = 2" | "k = 3" | "k = 4" | "k = 5" | "k = 6" | "k = 7"
    by arith
  then show ?thesis
    by cases (simp_all add: be64_def)
qed

lemma word64_be_bytes [simp, codec_simps]: "word64_be (be64 w) = w"
proof (rule bit_word_eqI)
  fix n assume "n < LENGTH(64)"
  then have n: "n < 64" "n div 8 < 8"
    by simp_all
  then have "rev (be64 w) ! (n div 8) = byte_at (8 * (n div 8)) w"
    by (simp add: nth_be64)
  then show "bit (word64_be (be64 w)) n = bit w n"
    using n by (simp add: word64_be_def word64_be_append bit_byte_at)
qed

lemma not_bit_byte: "8 \<le> n \<Longrightarrow> \<not> bit (b::u8) n"
  using bit_imp_le_length [of b n] by auto

lemma byte_at_word32_be [simp]:
  "byte_at 24 (word32_be b0 b1 b2 b3) = b0" "byte_at 16 (word32_be b0 b1 b2 b3) = b1"
  "byte_at 8 (word32_be b0 b1 b2 b3) = b2" "byte_at 0 (word32_be b0 b1 b2 b3) = b3"
  by (auto intro!: bit_word_eqI simp: bit_byte_at bit_word32_be not_bit_byte)

lemma be32_word32_be [simp, codec_simps]: "be32 (word32_be b0 b1 b2 b3) = [b0, b1, b2, b3]"
  by (simp add: be32_def)

lemma be64_word64_be [simp, codec_simps]:
  assumes "length bs = 8"
  shows "be64 (word64_be bs) = bs"
proof -
  have "rev (be64 (word64_be bs)) = rev bs"
  proof (rule nth_equalityI)
    fix k assume "k < length (rev (be64 (word64_be bs)))"
    then have k: "k < 8" by simp
    have "byte_at (8 * k) (word64_be bs) = rev bs ! k"
    proof (rule bit_word_eqI)
      fix i assume "i < LENGTH(8)"
      then have i: "i < 8" by simp
      then have "(8 * k + i) div 8 = k" "(8 * k + i) mod 8 = i" "8 * k + i < 64"
        using k by simp_all
      then show "bit (byte_at (8 * k) (word64_be bs)) i = bit (rev bs ! k) i"
        using i k assms by (simp add: bit_byte_at word64_be_def word64_be_append)
    qed
    with k show "rev (be64 (word64_be bs)) ! k = rev bs ! k"
      by (simp add: nth_be64)
  qed (simp add: assms)
  then show ?thesis by simp
qed

lemma char_of_byte_of_char [simp]: "char_of_byte (byte_of_char c) = c"
  by (simp add: char_of_byte_def byte_of_char_def unat_word_ariths take_bit_eq_mod
      unsigned_of_nat)

lemma byte_of_char_of_byte [simp]: "byte_of_char (char_of_byte b) = b"
proof -
  have "unat b < 256"
    using unsigned_less [of b, where 'a = nat] by simp
  then show ?thesis
    by (simp add: char_of_byte_def byte_of_char_def)
qed

lemma string_of_bytes_of_string [simp]: "string_of_bytes (bytes_of_string s) = s"
  by (simp add: o_def)

lemma bytes_of_string_of_bytes [simp]: "bytes_of_string (string_of_bytes bs) = bs"
  by (simp add: o_def)

section \<open>Narrowing of sizes\<close>

lemma unat_word_of_nat_32 [simp]: "n < 2 ^ 32 \<Longrightarrow> unat (word_of_nat n :: u32) = n"
  by (simp add: unsigned_of_nat take_bit_nat_eq_self)

lemma unat_word_of_nat_64 [simp]: "n < 2 ^ 64 \<Longrightarrow> unat (word_of_nat n :: u64) = n"
  by (simp add: unsigned_of_nat take_bit_nat_eq_self)

section \<open>Decimal text\<close>

text \<open>\<^verbatim>\<open>std::to_string\<close> of an unsigned number; different numbers print differently.\<close>

fun to_string :: "nat \<Rightarrow> string" where
  "to_string n = (if n < 10 then [char_of (48 + n)] else to_string (n div 10) @ [char_of (48 + n mod 10)])"

declare to_string.simps [simp del]

definition decimal_value :: "string \<Rightarrow> nat" where
  "decimal_value s = foldl (\<lambda>acc c. 10 * acc + (of_char c - 48)) 0 s"

lemma decimal_value_to_string: "decimal_value (to_string n) = n"
proof (induction n rule: to_string.induct)
  case (1 n)
  show ?case
  proof (cases "n < 10")
    case True
    then show ?thesis
      by (subst to_string.simps) (simp add: decimal_value_def of_char_of)
  next
    case False
    then have "decimal_value (to_string n) = 10 * decimal_value (to_string (n div 10)) + n mod 10"
      by (subst to_string.simps) (simp add: decimal_value_def of_char_of)
    with 1 False show ?thesis
      by simp
  qed
qed

lemma to_string_inj [simp]: "to_string m = to_string n \<longleftrightarrow> m = n"
  by (metis decimal_value_to_string)

lemma length_to_string: "n < 10 ^ Suc k \<Longrightarrow> length (to_string n) \<le> Suc k"
proof (induction k arbitrary: n)
  case 0
  then show ?case
    by (subst to_string.simps) simp
next
  case (Suc k)
  then have "n div 10 < 10 ^ Suc k"
    by (simp add: less_mult_imp_div_less)
  from Suc.IH [OF this] show ?case
    by (subst to_string.simps) simp
qed

end
