(* ===== verification/Sha256.thy ===== *)
theory Sha256
  imports Prelude
begin

text \<open>
  The streaming hash \<^verbatim>\<open>crypto::Sha256\<close> of \<^verbatim>\<open>10-cryptography/hashing/sha256.cpp\<close>: its state
  record, \<^verbatim>\<open>reset\<close>, \<^verbatim>\<open>processBlock\<close>, \<^verbatim>\<open>update\<close>, \<^verbatim>\<open>finish\<close> and the one-shot \<^verbatim>\<open>sha256\<close>.

  The reference definition is the one of FIPS 180-4: pad the message, cut it into 64-byte
  blocks and fold the compression function over them (\<open>sha_pad\<close>, \<open>absorb\<close>, \<open>sha256_spec\<close>).
  The lemmas show that the buffered implementation computes it for every way of cutting the
  input into \<^verbatim>\<open>update\<close> calls and for every content of the uninitialised buffer.
\<close>

section \<open>Constants and word helpers\<close>

text \<open>The round constants are the table \<^verbatim>\<open>K\<close> of \<^verbatim>\<open>sha256.cpp\<close>, row by row, written in decimal.\<close>

definition SHA256_DIGEST_SIZE :: nat where "SHA256_DIGEST_SIZE = 32"
definition SHA256_BLOCK_SIZE :: nat where "SHA256_BLOCK_SIZE = 64"

definition sha_K :: "u32 list" where
  "sha_K = [
    1116352408, 1899447441, 3049323471, 3921009573, 961987163, 1508970993,
    2453635748, 2870763221, 3624381080, 310598401, 607225278, 1426881987,
    1925078388, 2162078206, 2614888103, 3248222580, 3835390401, 4022224774,
    264347078, 604807628, 770255983, 1249150122, 1555081692, 1996064986,
    2554220882, 2821834349, 2952996808, 3210313671, 3336571891, 3584528711,
    113926993, 338241895, 666307205, 773529912, 1294757372, 1396182291,
    1695183700, 1986661051, 2177026350, 2456956037, 2730485921, 2820302411,
    3259730800, 3345764771, 3516065817, 3600352804, 4094571909, 275423344,
    430227734, 506948616, 659060556, 883997877, 958139571, 1322822218,
    1537002063, 1747873779, 1955562222, 2024104815, 2227730452, 2361852424,
    2428436474, 2756734187, 3204031479, 3329325298]"

definition rotr :: "u32 \<Rightarrow> nat \<Rightarrow> u32" where
  "rotr x n = drop_bit n x OR push_bit (32 - n) x"

definition readU32BE :: "bytes \<Rightarrow> nat \<Rightarrow> u32" where
  "readU32BE p off = word32_be (p ! off) (p ! (off + 1)) (p ! (off + 2)) (p ! (off + 3))"

section \<open>State\<close>

record sha256_state =
  sha_h :: "u32 list"
  sha_buffer :: bytes
  sha_bufferLength :: nat
  sha_totalLength :: u64

definition sha_H0 :: "u32 list" where
  "sha_H0 = [0x6a09e667, 0xbb67ae85, 0x3c6ef372, 0xa54ff53a,
             0x510e527f, 0x9b05688c, 0x1f83d9ab, 0x5be0cd19]"

text \<open>\<^verbatim>\<open>reset()\<close> does not touch the 64 bytes of the buffer.\<close>

definition sha_reset :: "sha256_state \<Rightarrow> sha256_state" where
  "sha_reset s = s\<lparr>sha_h := sha_H0, sha_bufferLength := 0, sha_totalLength := 0\<rparr>"

text \<open>
  The constructor calls \<^verbatim>\<open>reset()\<close> on an object whose buffer holds whatever the memory held;
  \<open>junk\<close> stands for these bytes.
\<close>

definition sha_new :: "bytes \<Rightarrow> sha256_state" where
  "sha_new junk =
     sha_reset \<lparr>sha_h = [], sha_buffer = junk, sha_bufferLength = 0, sha_totalLength = 0\<rparr>"

section \<open>Compression\<close>

definition sched_init :: "bytes \<Rightarrow> u32 list" where
  "sched_init block = map (\<lambda>i. readU32BE block (i * 4)) [0..<16]"

text \<open>One iteration of the second schedule loop: \<open>i\<close> is the current length of \<open>w\<close>.\<close>

definition sched_step :: "u32 list \<Rightarrow> u32 list" where
  "sched_step w =
     (let i = length w;
          s0 = rotr (w ! (i - 15)) 7 XOR rotr (w ! (i - 15)) 18 XOR drop_bit 3 (w ! (i - 15));
          s1 = rotr (w ! (i - 2)) 17 XOR rotr (w ! (i - 2)) 19 XOR drop_bit 10 (w ! (i - 2))
      in w @ [w ! (i - 16) + s0 + w ! (i - 7) + s1])"

definition sha_schedule :: "bytes \<Rightarrow> u32 list" where
  "sha_schedule block = (sched_step ^^ 48) (sched_init block)"

type_synonym sha_vars = "u32 \<times> u32 \<times> u32 \<times> u32 \<times> u32 \<times> u32 \<times> u32 \<times> u32"

fun sha_round :: "u32 \<Rightarrow> u32 \<Rightarrow> sha_vars \<Rightarrow> sha_vars" where
  "sha_round k w (a, b, c, d, e, f, g, h) =
     (let S1 = rotr e 6 XOR rotr e 11 XOR rotr e 25;
          ch = (e AND f) XOR ((NOT e) AND g);
          temp1 = h + S1 + ch + k + w;
          S0 = rotr a 2 XOR rotr a 13 XOR rotr a 22;
          maj = (a AND b) XOR (a AND c) XOR (b AND c);
          temp2 = S0 + maj
      in (temp1 + temp2, a, b, c, d + temp1, e, f, g))"

fun sha_rounds :: "(u32 \<times> u32) list \<Rightarrow> sha_vars \<Rightarrow> sha_vars" where
  "sha_rounds [] v = v"
| "sha_rounds ((k, w) # kws) v = sha_rounds kws (sha_round k w v)"

definition sha_add_vars :: "u32 list \<Rightarrow> sha_vars \<Rightarrow> u32 list" where
  "sha_add_vars hs v =
     (case v of (a, b, c, d, e, f, g, h) \<Rightarrow>
        [hs ! 0 + a, hs ! 1 + b, hs ! 2 + c, hs ! 3 + d, hs ! 4 + e, hs ! 5 + f, hs ! 6 + g, hs ! 7 + h])"

definition compress :: "u32 list \<Rightarrow> bytes \<Rightarrow> u32 list" where
  "compress hs block =
     sha_add_vars hs
       (sha_rounds (zip sha_K (sha_schedule block))
          (hs ! 0, hs ! 1, hs ! 2, hs ! 3, hs ! 4, hs ! 5, hs ! 6, hs ! 7))"

definition processBlock :: "sha256_state \<Rightarrow> bytes \<Rightarrow> sha256_state" where
  "processBlock s block = s\<lparr>sha_h := compress (sha_h s) block\<rparr>"

section \<open>Streaming input\<close>

definition sha_copy :: "sha256_state \<Rightarrow> bytes \<Rightarrow> nat \<Rightarrow> sha256_state" where
  "sha_copy s bs n = s\<lparr>
     sha_buffer := take (sha_bufferLength s) (sha_buffer s) @ take n bs @
                   drop (sha_bufferLength s + n) (sha_buffer s),
     sha_bufferLength := sha_bufferLength s + n\<rparr>"

definition sha_flush :: "sha256_state \<Rightarrow> sha256_state" where
  "sha_flush s = (if sha_bufferLength s = SHA256_BLOCK_SIZE
                  then (processBlock s (sha_buffer s))\<lparr>sha_bufferLength := 0\<rparr> else s)"

text \<open>
  The loop of \<^verbatim>\<open>update\<close>. Between iterations \<^verbatim>\<open>bufferLength\<close> is below the block size (the class
  invariant \<open>sha_ok\<close> below, kept by every operation); on a state that breaks it the C++ loop
  would copy nothing for ever, and the guard stops the model there.
\<close>

function sha_update_loop :: "sha256_state \<Rightarrow> bytes \<Rightarrow> sha256_state" where
  "sha_update_loop s bs =
     (if bs = [] \<or> \<not> sha_bufferLength s < SHA256_BLOCK_SIZE then s
      else let toCopy = min (SHA256_BLOCK_SIZE - sha_bufferLength s) (length bs)
           in sha_update_loop (sha_flush (sha_copy s bs toCopy)) (drop toCopy bs))"
  by pat_completeness auto
termination
  by (relation "measure (\<lambda>(s, bs). length bs)") auto

declare sha_update_loop.simps [simp del]

definition sha_update :: "sha256_state \<Rightarrow> bytes \<Rightarrow> sha256_state" where
  "sha_update s bs =
     sha_update_loop (s\<lparr>sha_totalLength := sha_totalLength s + word_of_nat (length bs)\<rparr>) bs"

lemma sha_update_loop_Nil [simp]: "sha_update_loop s [] = s"
  by (simp add: sha_update_loop.simps)

lemma sha_update_loop_one:
  assumes "sha_bufferLength s < 64"
  shows "sha_update_loop s [b] = sha_flush (sha_copy s [b] 1)"
proof -
  have "min (64 - sha_bufferLength s) 1 = 1"
    using assms by simp
  with assms show ?thesis
    by (simp add: sha_update_loop.simps [of s "[b]"] SHA256_BLOCK_SIZE_def)
qed

lemma sha_update_one:
  assumes "sha_bufferLength s < 64"
  shows "sha_bufferLength (sha_update s [b]) = (sha_bufferLength s + 1) mod 64"
proof -
  have "sha_bufferLength s = 63 \<or> (sha_bufferLength s + 1) mod 64 = sha_bufferLength s + 1"
    using assms by (cases "sha_bufferLength s = 63") simp_all
  with assms show ?thesis
    by (auto simp: sha_update_def sha_update_loop_one sha_flush_def sha_copy_def processBlock_def
        SHA256_BLOCK_SIZE_def)
qed

text \<open>The zero-padding loop of \<^verbatim>\<open>finish\<close>, with the same guard.\<close>

function sha_pad_loop :: "sha256_state \<Rightarrow> sha256_state" where
  "sha_pad_loop s =
     (if sha_bufferLength s = SHA256_BLOCK_SIZE - 8 \<or> \<not> sha_bufferLength s < SHA256_BLOCK_SIZE then s
      else sha_pad_loop (sha_update s [0]))"
  by pat_completeness auto
termination
proof (relation "measure (\<lambda>s. if sha_bufferLength s \<le> 56 then 56 - sha_bufferLength s
                               else 120 - sha_bufferLength s)")
  fix s :: sha256_state
  assume "\<not> (sha_bufferLength s = SHA256_BLOCK_SIZE - 8 \<or> \<not> sha_bufferLength s < SHA256_BLOCK_SIZE)"
  then have s: "sha_bufferLength s < 64" "sha_bufferLength s \<noteq> 56"
    by (simp_all add: SHA256_BLOCK_SIZE_def)
  then show "(sha_update s [0], s) \<in> measure (\<lambda>s. if sha_bufferLength s \<le> 56
      then 56 - sha_bufferLength s else 120 - sha_bufferLength s)"
    by (cases "sha_bufferLength s = 63") (auto simp: sha_update_one)
qed simp

declare sha_pad_loop.simps [simp del]

definition writeU32BE :: "u32 \<Rightarrow> bytes" where
  "writeU32BE value = [byte_at 24 value, byte_at 16 value, byte_at 8 value, byte_at 0 value]"

definition writeU64BE :: "u64 \<Rightarrow> bytes" where
  "writeU64BE value = map (\<lambda>i. byte_at (56 - 8 * i) value) [0, 1, 2, 3, 4, 5, 6, 7]"

text \<open>
  \<^verbatim>\<open>finish\<close> returns the digest and the object it leaves behind. The bit length is captured
  before the padding is fed through \<^verbatim>\<open>update\<close>; the eight length bytes go straight into the
  buffer.
\<close>

definition sha_finish :: "sha256_state \<Rightarrow> bytes \<times> sha256_state" where
  "sha_finish s =
     (let bitLength = sha_totalLength s * 8;
          s1 = sha_pad_loop (sha_update s [0x80]);
          s2 = sha_copy s1 (writeU64BE bitLength) 8;
          s3 = (processBlock s2 (sha_buffer s2))\<lparr>sha_bufferLength := 0\<rparr>
      in (concat (map (\<lambda>i. writeU32BE (sha_h s3 ! i)) [0..<8]), s3))"

definition sha256_in :: "bytes \<Rightarrow> bytes \<Rightarrow> bytes" where
  "sha256_in junk bs = fst (sha_finish (sha_update (sha_new junk) bs))"

definition sha256 :: "bytes \<Rightarrow> bytes" where
  "sha256 bs = sha256_in (replicate 64 0) bs"

section \<open>Reference definition\<close>

function absorb :: "u32 list \<Rightarrow> bytes \<Rightarrow> u32 list \<times> bytes" where
  "absorb h m = (if length m < 64 then (h, m) else absorb (compress h (take 64 m)) (drop 64 m))"
  by pat_completeness auto
termination
  by (relation "measure (\<lambda>(h, m). length m)") auto

declare absorb.simps [simp del]

definition sha_pad :: "bytes \<Rightarrow> bytes" where
  "sha_pad m = m @ [0x80] @ replicate ((119 - length m mod 64) mod 64) 0 @
               be64 (word_of_nat (8 * length m))"

definition sha256_spec :: "bytes \<Rightarrow> bytes" where
  "sha256_spec m = concat (map be32 (fst (absorb sha_H0 (sha_pad m))))"

section \<open>Class invariant\<close>

definition sha_ok :: "sha256_state \<Rightarrow> bool" where
  "sha_ok s \<longleftrightarrow> length (sha_h s) = 8 \<and> length (sha_buffer s) = 64 \<and> sha_bufferLength s < 64"

abbreviation sha_pending :: "sha256_state \<Rightarrow> bytes" where
  "sha_pending s \<equiv> take (sha_bufferLength s) (sha_buffer s)"

lemma length_compress [simp]: "length (compress hs block) = 8"
  by (simp add: compress_def sha_add_vars_def split: prod.splits)

lemma sha_ok_new: "length junk = 64 \<Longrightarrow> sha_ok (sha_new junk)"
  by (simp add: sha_ok_def sha_new_def sha_reset_def sha_H0_def)

text \<open>One iteration of the loop, seen through the pending bytes.\<close>

lemma sha_iteration:
  assumes "sha_ok s" "bs \<noteq> []"
    and t: "t = sha_flush (sha_copy s bs (min (64 - sha_bufferLength s) (length bs)))"
    and rest: "rest = drop (min (64 - sha_bufferLength s) (length bs)) bs"
  shows "sha_ok t \<and> sha_totalLength t = sha_totalLength s \<and>
    absorb (sha_h t) (sha_pending t @ rest) = absorb (sha_h s) (sha_pending s @ bs)"
proof (cases "64 - sha_bufferLength s \<le> length bs")
  case True
  then have t': "t = s\<lparr>sha_h := compress (sha_h s) (sha_pending s @ take (64 - sha_bufferLength s) bs),
      sha_buffer := sha_pending s @ take (64 - sha_bufferLength s) bs, sha_bufferLength := 0\<rparr>"
    and r: "rest = drop (64 - sha_bufferLength s) bs"
    using assms(1) t rest
    by (simp_all add: sha_flush_def sha_copy_def sha_ok_def SHA256_BLOCK_SIZE_def processBlock_def)
  have "absorb (sha_h s) (sha_pending s @ bs) =
      absorb (compress (sha_h s) (sha_pending s @ take (64 - sha_bufferLength s) bs)) rest"
  proof -
    have "\<not> sha_bufferLength s + length bs < 64" "length (sha_pending s) = sha_bufferLength s"
      using True assms(1) by (auto simp: sha_ok_def)
    then show ?thesis
      using assms(1) by (subst absorb.simps) (simp add: sha_ok_def r)
  qed
  with True assms(1) show ?thesis
    by (simp add: t' sha_ok_def)
next
  case False
  then have "sha_bufferLength s + length bs < 64" "sha_bufferLength s + length bs \<noteq> 64"
    by auto
  with False show ?thesis
    using assms
    by (simp add: sha_flush_def sha_copy_def sha_ok_def SHA256_BLOCK_SIZE_def)
qed

lemma sha_update_loop_absorb:
  "sha_ok s \<Longrightarrow>
     sha_ok (sha_update_loop s bs) \<and> sha_totalLength (sha_update_loop s bs) = sha_totalLength s \<and>
     absorb (sha_h s) (sha_pending s @ bs) =
       (sha_h (sha_update_loop s bs), sha_pending (sha_update_loop s bs))"
proof (induction s bs rule: sha_update_loop.induct)
  case (1 s bs)
  show ?case
  proof (cases "bs = []")
    case True
    with "1.prems" show ?thesis
      by (simp add: absorb.simps [of _ "take n xs" for n xs] sha_ok_def)
  next
    case False
    let ?n = "min (64 - sha_bufferLength s) (length bs)"
    let ?t = "sha_flush (sha_copy s bs ?n)"
    from sha_iteration [OF "1.prems" False, of ?t "drop ?n bs"]
    have t: "sha_ok ?t" "sha_totalLength ?t = sha_totalLength s"
      "absorb (sha_h ?t) (sha_pending ?t @ drop ?n bs) = absorb (sha_h s) (sha_pending s @ bs)"
      by simp_all
    moreover have "sha_update_loop s bs = sha_update_loop ?t (drop ?n bs)"
      using False "1.prems"
      by (subst sha_update_loop.simps) (simp add: sha_ok_def SHA256_BLOCK_SIZE_def Let_def)
    ultimately show ?thesis
      using "1.IH" [of ?n] False "1.prems" by (simp add: sha_ok_def SHA256_BLOCK_SIZE_def)
  qed
qed

lemma sha_ok_total [simp]: "sha_ok (s\<lparr>sha_totalLength := v\<rparr>) = sha_ok s"
  by (simp add: sha_ok_def)

lemma sha_update_absorb:
  assumes "sha_ok s"
  shows "sha_ok (sha_update s bs)"
    and "sha_totalLength (sha_update s bs) = sha_totalLength s + word_of_nat (length bs)"
    and "absorb (sha_h s) (sha_pending s @ bs) =
       (sha_h (sha_update s bs), sha_pending (sha_update s bs))"
  using sha_update_loop_absorb [of "s\<lparr>sha_totalLength := sha_totalLength s + word_of_nat (length bs)\<rparr>" bs]
    assms by (simp_all add: sha_update_def)

section \<open>Streaming equals the reference\<close>

lemma absorb_append:
  "absorb h (m @ x) = (case absorb h m of (h', r) \<Rightarrow> absorb h' (r @ x))"
proof (induction h m rule: absorb.induct)
  case (1 h m)
  show ?case
  proof (cases "length m < 64")
    case True
    then show ?thesis
      by (simp add: absorb.simps [of h m])
  next
    case False
    then have "absorb h (m @ x) = absorb (compress h (take 64 m)) (drop 64 m @ x)"
      by (simp add: absorb.simps [of h "m @ x"])
    with False "1.IH" show ?thesis
      by (simp add: absorb.simps [of h m])
  qed
qed

lemma length_absorb_rest: "length (snd (absorb h m)) = length m mod 64"
proof (induction h m rule: absorb.induct)
  case (1 h m)
  then show ?case
    by (cases "length m < 64") (simp_all add: absorb.simps [of h m] le_mod_geq)
qed

lemma length_absorb_state: "length h = 8 \<Longrightarrow> length (fst (absorb h m)) = 8"
proof (induction h m rule: absorb.induct)
  case (1 h m)
  then show ?case
    by (cases "length m < 64") (simp_all add: absorb.simps [of h m])
qed

text \<open>
  \<open>sha_represents s m\<close>: the object has absorbed exactly the message \<open>m\<close>. This is the
  abstraction relation of the refinement.
\<close>

definition sha_represents :: "sha256_state \<Rightarrow> bytes \<Rightarrow> bool" where
  "sha_represents s m \<longleftrightarrow> sha_ok s \<and> absorb sha_H0 m = (sha_h s, sha_pending s) \<and>
     sha_totalLength s = word_of_nat (length m)"

lemma sha_represents_new: "length junk = 64 \<Longrightarrow> sha_represents (sha_new junk) []"
  by (simp add: sha_represents_def sha_ok_new absorb.simps)
    (simp add: sha_new_def sha_reset_def)

lemma sha_represents_update:
  assumes "sha_represents s m"
  shows "sha_represents (sha_update s bs) (m @ bs)"
proof -
  from assms have s: "sha_ok s" "absorb sha_H0 m = (sha_h s, sha_pending s)"
    "sha_totalLength s = word_of_nat (length m)"
    by (simp_all add: sha_represents_def)
  from s(2) have "absorb sha_H0 (m @ bs) = absorb (sha_h s) (sha_pending s @ bs)"
    by (simp add: absorb_append [of sha_H0 m bs])
  with sha_update_absorb [OF s(1), of bs] s(3) show ?thesis
    by (simp add: sha_represents_def)
qed

lemma sha_represents_length:
  assumes "sha_represents s m"
  shows "sha_bufferLength s = length m mod 64"
  using assms length_absorb_rest [of sha_H0 m] by (simp add: sha_represents_def sha_ok_def)

lemma pad_count:
  assumes "r < (64::nat)"
  shows "(120 - r) mod 64 = (if r \<le> 56 then 56 - r else 120 - r)"
proof (cases "r \<le> 56")
  case True
  then have "120 - r = 64 + (56 - r)"
    by simp
  then have "(120 - r) mod 64 = (56 - r) mod 64"
    by (simp only: mod_add_self1)
  with True show ?thesis by simp
next
  case False
  with assms show ?thesis by simp
qed

lemma pad_count_step:
  assumes "r < (63::nat)" "r \<noteq> 56"
  shows "Suc ((120 - Suc r) mod 64) = (120 - r) mod 64"
proof -
  have "(120 - Suc r) mod 64 = (if Suc r \<le> 56 then 56 - Suc r else 120 - Suc r)"
    "(120 - r) mod 64 = (if r \<le> 56 then 56 - r else 120 - r)"
    using assms by (simp_all only: pad_count)
  with assms show ?thesis
    by auto
qed

lemma pad_count_Suc:
  assumes "n mod 64 \<noteq> 56"
  shows "Suc ((120 - Suc n mod 64) mod 64) = (120 - n mod 64) mod 64"
proof (cases "n mod 64 = 63")
  case True
  then show ?thesis
    by (simp add: mod_Suc)
next
  case False
  have "n mod 64 < 64" by simp
  with False have "n mod 64 < 63"
    by linarith
  from pad_count_step [OF this assms] False show ?thesis
    by (simp only: mod_Suc) simp
qed

lemma sha_pad_loop_stops:
  "sha_bufferLength s < 64 \<Longrightarrow> sha_bufferLength (sha_pad_loop s) = 56"
proof (induction s rule: sha_pad_loop.induct)
  case (1 s)
  then show ?case
    using sha_update_one [of s 0]
    by (cases "sha_bufferLength s = 56")
      (simp_all add: sha_pad_loop.simps [of s] SHA256_BLOCK_SIZE_def)
qed

lemma sha_pad_loop_represents:
  "sha_represents s m \<Longrightarrow>
     sha_represents (sha_pad_loop s) (m @ replicate ((120 - length m mod 64) mod 64) 0)"
proof (induction s arbitrary: m rule: sha_pad_loop.induct)
  case (1 s)
  have len: "sha_bufferLength s = length m mod 64"
    using "1.prems" by (rule sha_represents_length)
  show ?case
  proof (cases "sha_bufferLength s = 56")
    case True
    then show ?thesis
      using "1.prems" len by (simp add: sha_pad_loop.simps [of s] SHA256_BLOCK_SIZE_def)
  next
    case False
    then have step: "sha_pad_loop s = sha_pad_loop (sha_update s [0])"
      using len by (subst sha_pad_loop.simps) (simp add: SHA256_BLOCK_SIZE_def)
    have "sha_represents (sha_pad_loop (sha_update s [0]))
        ((m @ [0]) @ replicate ((120 - length (m @ [0]) mod 64) mod 64) 0)"
      using False len sha_represents_update [OF "1.prems"]
      by (intro "1.IH") (auto simp: SHA256_BLOCK_SIZE_def)
    moreover have "Suc ((120 - Suc (length m) mod 64) mod 64) = (120 - length m mod 64) mod 64"
      using False len by (intro pad_count_Suc) simp
    then have "replicate ((120 - length m mod 64) mod 64) (0::u8) =
        0 # replicate ((120 - Suc (length m) mod 64) mod 64) 0"
      by (metis replicate_Suc)
    ultimately show ?thesis
      by (simp add: step)
  qed
qed

text \<open>The length field completes a block, so the state after \<^verbatim>\<open>finish\<close> holds the last compression.\<close>

lemma writeBE_be: "writeU32BE w = be32 w" "writeU64BE v = be64 v"
  by (simp_all add: writeU32BE_def be32_def writeU64BE_def be64_def)

lemma absorb_block: "length b = 64 \<Longrightarrow> absorb h b = (compress h b, [])"
  by (simp add: absorb.simps [of h b] absorb.simps [of _ "[]"])

lemma sha_final_block:
  assumes "sha_represents s m" "sha_bufferLength s = 56" "length x = 8"
  shows "fst (absorb sha_H0 (m @ x)) = compress (sha_h s) (sha_pending s @ x)"
    and "sha_buffer (sha_copy s x 8) = sha_pending s @ x"
proof -
  have len: "length (sha_pending s @ x) = 64"
    using assms by (simp add: sha_represents_def sha_ok_def)
  have "absorb sha_H0 (m @ x) = absorb (sha_h s) (sha_pending s @ x)"
    using assms(1) by (simp add: absorb_append [of sha_H0 m x] sha_represents_def)
  also have "\<dots> = (compress (sha_h s) (sha_pending s @ x), [])"
    using len by (rule absorb_block)
  finally show "fst (absorb sha_H0 (m @ x)) = compress (sha_h s) (sha_pending s @ x)"
    by simp
  show "sha_buffer (sha_copy s x 8) = sha_pending s @ x"
    using assms by (simp add: sha_copy_def sha_represents_def sha_ok_def)
qed

lemma concat_map_upt8:
  assumes "length xs = 8"
  shows "concat (map (\<lambda>i. f (xs ! i)) [0..<8]) = concat (map f xs)"
proof -
  have "map (\<lambda>i. f (xs ! i)) [0..<length xs] = map f xs"
    by (rule nth_equalityI) simp_all
  with assms show ?thesis by simp
qed

lemma sha_finish_spec:
  assumes "sha_represents s m"
  shows "fst (sha_finish s) = sha256_spec m"
proof -
  let ?z = "replicate ((119 - length m mod 64) mod 64) (0::u8)"
  let ?len = "be64 (word_of_nat (8 * length m))"
  let ?s1 = "sha_pad_loop (sha_update s [0x80])"
  have k: "(120 - Suc (length m) mod 64) mod 64 = (119 - length m mod 64) mod 64"
    by (cases "length m mod 64 = 63") (simp_all add: mod_Suc)
  have rep: "sha_represents ?s1 (m @ [0x80] @ ?z)"
    using sha_pad_loop_represents [OF sha_represents_update [OF assms, of "[0x80]"]] by (simp add: k)
  have "sha_bufferLength ?s1 = 56"
    by (rule sha_pad_loop_stops) (use sha_represents_update [OF assms] in
        \<open>simp add: sha_represents_def sha_ok_def\<close>)
  note fin = sha_final_block [OF rep this, of ?len]
  have bits: "sha_totalLength s * 8 = word_of_nat (8 * length m)"
    using assms by (simp add: sha_represents_def mult.commute)
  have "sha_pad m = (m @ [0x80] @ ?z) @ ?len"
    by (simp add: sha_pad_def)
  then have "fst (absorb sha_H0 (sha_pad m)) = compress (sha_h ?s1) (sha_pending ?s1 @ ?len)"
    using fin(1) by simp
  moreover have "length (compress (sha_h ?s1) (sha_pending ?s1 @ ?len)) = 8"
    by simp
  ultimately show ?thesis
    using fin(2)
    by (simp add: sha_finish_def Let_def bits writeBE_be processBlock_def sha256_spec_def
        concat_map_upt8) (simp add: sha_copy_def)
qed

section \<open>Interface for the clients of the hash\<close>

text \<open>
  What the HMAC, the ledger and the block code rely on: feeding pieces one by one and then
  finishing gives the hash of their concatenation.
\<close>

locale stream_hash =
  fixes fresh :: 's
    and feed :: "'s \<Rightarrow> bytes \<Rightarrow> 's"
    and digest :: "'s \<Rightarrow> bytes"
    and hash :: "bytes \<Rightarrow> bytes"
    and rep :: "'s \<Rightarrow> bytes \<Rightarrow> bool"
  assumes rep_fresh: "rep fresh []"
    and rep_feed: "rep s m \<Longrightarrow> rep (feed s b) (m @ b)"
    and digest_rep: "rep s m \<Longrightarrow> digest s = hash m"
begin

lemma rep_foldl: "rep s m \<Longrightarrow> rep (foldl feed s bs) (m @ concat bs)"
proof (induction bs arbitrary: s m)
  case (Cons b bs)
  from Cons.IH [OF rep_feed [OF Cons.prems, of b]] show ?case
    by simp
qed simp

lemma digest_foldl: "digest (foldl feed fresh bs) = hash (concat bs)"
  using digest_rep [OF rep_foldl [OF rep_fresh]] by simp

lemma digest_two: "digest (feed (feed fresh a) b) = hash (a @ b)"
  using digest_foldl [of "[a, b]"] by simp

end

definition sha_init :: sha256_state where
  "sha_init = sha_new (replicate 64 0)"

interpretation sha: stream_hash sha_init sha_update "\<lambda>s. fst (sha_finish s)" sha256 sha_represents
proof unfold_locales
  show "sha_represents sha_init []"
    by (simp add: sha_init_def sha_represents_new)
  then have spec: "sha256 m = sha256_spec m" for m
    using sha_finish_spec [OF sha_represents_update] by (fastforce simp: sha256_def sha256_in_def sha_init_def)
  show "fst (sha_finish s) = sha256 m" if "sha_represents s m" for s m
    using that by (simp add: spec sha_finish_spec)
qed (rule sha_represents_update)

lemma length_sha256_spec: "length (sha256_spec m) = 32"
proof -
  have "length (concat (map be32 xs)) = 4 * length xs" for xs
    by (induction xs) simp_all
  then show ?thesis
    by (simp add: sha256_spec_def length_absorb_state sha_H0_def)
qed

lemma sha256_in_spec: "length junk = 64 \<Longrightarrow> sha256_in junk m = sha256_spec m"
  using sha_finish_spec [OF sha_represents_update [OF sha_represents_new, of junk m]]
  by (simp add: sha256_in_def)

lemma length_sha256 [simp]: "length (sha256 m) = 32"
  by (simp add: sha256_def sha256_in_spec length_sha256_spec)

section \<open>Properties\<close>

text \<open>
  C1. The one-shot \<^verbatim>\<open>sha256\<close> computes FIPS 180-4: the digest is the big-endian state after
  folding the compression function over the 64-byte blocks of the padded message, whatever
  bytes the uninitialised buffer of the object held.
\<close>

theorem sha256_computes_spec:
  assumes "length junk = 64"
  shows "sha256_in junk m = sha256_spec m \<and> length (sha256_in junk m) = SHA256_DIGEST_SIZE"
  using assms by (simp add: sha256_in_spec length_sha256_spec SHA256_DIGEST_SIZE_def)

theorem sha256_computes_spec_witness:
  "sha256_in (replicate 64 0xAA) [1, 2, 3] = sha256_spec [1, 2, 3] \<and>
   length (sha256_in (replicate 64 0xAA) [1, 2, 3]) = SHA256_DIGEST_SIZE"
  by (rule sha256_computes_spec) simp

text \<open>
  C2. Cutting the input does not matter: from any valid object, any two sequences of
  \<^verbatim>\<open>update\<close> calls with the same concatenation give the same digest, and the object stays
  valid after every call.
\<close>

theorem sha256_chunking_irrelevant:
  assumes "sha_represents s m" "concat xs = concat ys"
  shows "fst (sha_finish (foldl sha_update s xs)) = fst (sha_finish (foldl sha_update s ys)) \<and>
    sha_ok (foldl sha_update s xs)"
  using sha.rep_foldl [OF assms(1), of xs] sha.rep_foldl [OF assms(1), of ys] assms(2)
  by (simp add: sha_finish_spec) (simp add: sha_represents_def)

theorem sha256_chunking_irrelevant_witness:
  "fst (sha_finish (foldl sha_update sha_init [[1], [], [2, 3]])) =
     fst (sha_finish (foldl sha_update sha_init [[1, 2], [3]])) \<and>
   sha_ok (foldl sha_update sha_init [[1], [], [2, 3]])"
  by (rule sha256_chunking_irrelevant [OF sha.rep_fresh]) simp

end
