(* ===== verification/Hmac.thy ===== *)
theory Hmac
  imports Sha256
begin

text \<open>
  \<^verbatim>\<open>10-cryptography/mac/hmac_sha256.cpp\<close> (HMAC-SHA256 and the constant-time comparison) and
  the message envelope \<^verbatim>\<open>07-distributed-systems/rpc/auth.cpp\<close> built on it. The reference is the
  formula of RFC 2104; the envelope is shown to accept exactly the messages whose tag is the
  HMAC of their body.
\<close>

definition HMAC_SHA256_OUTPUT_SIZE :: nat where "HMAC_SHA256_OUTPUT_SIZE = 32"

section \<open>HMAC\<close>

text \<open>\<^verbatim>\<open>uint8_t keyBlock[64] = {0}\<close>, then the digest of a long key or the key itself is copied in.\<close>

definition hmac_keyBlock :: "bytes \<Rightarrow> bytes" where
  "hmac_keyBlock key =
     (let zero = replicate SHA256_BLOCK_SIZE 0;
          src = (if length key > SHA256_BLOCK_SIZE then sha256 key else key)
      in src @ drop (length src) zero)"

definition hmacSha256 :: "bytes \<Rightarrow> bytes \<Rightarrow> bytes" where
  "hmacSha256 key message =
     (let keyBlock = hmac_keyBlock key;
          innerPad = map (\<lambda>i. keyBlock ! i XOR 0x36) [0..<SHA256_BLOCK_SIZE];
          outerPad = map (\<lambda>i. keyBlock ! i XOR 0x5C) [0..<SHA256_BLOCK_SIZE];
          innerHasher = sha_update (sha_update sha_init innerPad) message;
          innerDigest = fst (sha_finish innerHasher);
          outerHasher = sha_update (sha_update sha_init outerPad) innerDigest
      in fst (sha_finish outerHasher))"

fun ct_diff :: "u8 \<Rightarrow> (u8 \<times> u8) list \<Rightarrow> u8" where
  "ct_diff diff [] = diff"
| "ct_diff diff ((a, b) # ps) = ct_diff (diff OR (a XOR b)) ps"

definition constantTimeEquals :: "bytes \<Rightarrow> bytes \<Rightarrow> bool" where
  "constantTimeEquals a b = (if length a \<noteq> length b then False else ct_diff 0 (zip a b) = 0)"

section \<open>Authenticated messages\<close>

definition authenticateMessage :: "bytes \<Rightarrow> bytes \<Rightarrow> bytes" where
  "authenticateMessage message key = message @ hmacSha256 key message"

definition verifyAndExtractMessage :: "bytes \<Rightarrow> bytes \<Rightarrow> bytes option" where
  "verifyAndExtractMessage authenticated key =
     (if length authenticated < HMAC_SHA256_OUTPUT_SIZE then None
      else let messageLength = length authenticated - HMAC_SHA256_OUTPUT_SIZE;
               messageBytes = take messageLength authenticated;
               claimedTag = drop messageLength authenticated;
               expectedTag = hmacSha256 key messageBytes
           in if \<not> constantTimeEquals claimedTag expectedTag then None else Some messageBytes)"

section \<open>Lemmas\<close>

lemma length_hmac_keyBlock [simp]: "length (hmac_keyBlock key) = 64"
  by (simp add: hmac_keyBlock_def SHA256_BLOCK_SIZE_def Let_def)

lemma length_hmacSha256 [simp]: "length (hmacSha256 key message) = HMAC_SHA256_OUTPUT_SIZE"
  by (simp add: hmacSha256_def Let_def sha.digest_two HMAC_SHA256_OUTPUT_SIZE_def)

lemma word_xor_eq_0: "(a::'a::len word) XOR b = 0 \<longleftrightarrow> a = b"
  by (auto simp: bit_eq_iff bit_xor_iff)

lemma ct_diff_zero: "ct_diff d ps = 0 \<longleftrightarrow> d = 0 \<and> (\<forall>(a, b) \<in> set ps. a = b)"
proof (induction d ps rule: ct_diff.induct)
  case (2 d a b ps)
  then show ?case
    by (auto simp: or_eq_0_iff word_xor_eq_0)
qed simp

lemma constantTimeEquals_iff: "constantTimeEquals a b \<longleftrightarrow> a = b"
proof (cases "length a = length b")
  case True
  then have "(\<forall>(x, y) \<in> set (zip a b). x = y) \<longleftrightarrow> a = b"
    by (induction a b rule: list_induct2) auto
  with True show ?thesis
    by (simp add: constantTimeEquals_def ct_diff_zero)
qed (auto simp: constantTimeEquals_def)

section \<open>Properties\<close>

text \<open>
  C3. \<^verbatim>\<open>hmacSha256\<close> is the HMAC of RFC 2104: with \<open>K\<close> the zero-padded key (or its digest, when
  it is longer than a block), the result is \<open>H((K xor opad) || H((K xor ipad) || message))\<close>.
\<close>

theorem hmac_is_rfc2104:
  "hmacSha256 key message =
     (let k = (if length key > 64 then sha256_spec key else key);
          K = k @ replicate (64 - length k) 0
      in sha256_spec (map (\<lambda>b. b XOR 0x5C) K @ sha256_spec (map (\<lambda>b. b XOR 0x36) K @ message)))"
proof -
  have spec: "sha256 m = sha256_spec m" for m
    by (simp add: sha256_def sha256_in_spec)
  have pads: "map (\<lambda>i. xs ! i XOR c) [0..<SHA256_BLOCK_SIZE] = map (\<lambda>b. b XOR c) xs"
    if "length xs = 64" for xs :: bytes and c
    using that by (intro nth_equalityI) (simp_all add: SHA256_BLOCK_SIZE_def)
  show ?thesis
    by (simp add: hmacSha256_def Let_def sha.digest_two pads spec)
      (simp add: hmac_keyBlock_def SHA256_BLOCK_SIZE_def spec Let_def)
qed

text \<open>
  C4. The envelope is exact: verification succeeds on a byte string and returns \<open>m\<close> precisely
  when the string is \<^verbatim>\<open>authenticateMessage(m, key)\<close>; every other string is rejected.
\<close>

theorem verify_accepts_exactly_authenticated:
  "verifyAndExtractMessage bs key = Some m \<longleftrightarrow> bs = authenticateMessage m key"
proof -
  let ?n = "length bs - HMAC_SHA256_OUTPUT_SIZE"
  have "bs = m @ t \<longleftrightarrow> take ?n bs = m \<and> drop ?n bs = t" if "HMAC_SHA256_OUTPUT_SIZE \<le> length bs"
    "length t = HMAC_SHA256_OUTPUT_SIZE" for t
    using that by auto
  then show ?thesis
    by (auto simp: verifyAndExtractMessage_def authenticateMessage_def constantTimeEquals_iff Let_def)
qed

end
