(* ===== verification/Wal.thy ===== *)
theory Wal
  imports Prelude
begin

text \<open>
  The checksum \<^verbatim>\<open>08-storage/wal/crc32.cpp\<close> and the write-ahead log \<^verbatim>\<open>08-storage/wal/wal.cpp\<close>.

  The log object keeps only a path; its state is the content of the file, a list of bytes.
  What the file system does to one \<^verbatim>\<open>append\<close> is an argument of the model (\<open>io_outcome\<close>): the file
  cannot be opened, every byte reaches the file, or only a prefix does. The last case is both
  a failed write that the stream reports and a crash in the middle of a write.
\<close>

section \<open>CRC-32\<close>

definition crc_step :: "u32 \<Rightarrow> u32" where
  "crc_step c = (if c AND 1 \<noteq> 0 then 0xEDB88320 XOR drop_bit 1 c else drop_bit 1 c)"

definition crc_entry :: "u32 \<Rightarrow> u32" where
  "crc_entry i = (crc_step ^^ 8) i"

text \<open>\<^verbatim>\<open>initTable()\<close> fills the table once; \<open>crc_table\<close> is its content from then on.\<close>

definition crc_table :: "u32 list" where
  "crc_table = map (\<lambda>i. crc_entry (word_of_nat i)) [0..<256]"

fun crc32_loop :: "u32 \<Rightarrow> bytes \<Rightarrow> u32" where
  "crc32_loop crc [] = crc"
| "crc32_loop crc (b # bs) =
     crc32_loop (crc_table ! unat ((crc XOR ucast b) AND 0xFF) XOR drop_bit 8 crc) bs"

definition crc32 :: "bytes \<Rightarrow> u32" where
  "crc32 bs = crc32_loop 0xFFFFFFFF bs XOR 0xFFFFFFFF"

section \<open>The log file\<close>

definition wal_writeU32 :: "u32 \<Rightarrow> bytes" where
  "wal_writeU32 value = [byte_at 24 value, byte_at 16 value, byte_at 8 value, byte_at 0 value]"

definition wal_readU32 :: "bytes \<Rightarrow> (u32 \<times> bytes) option" where
  "wal_readU32 bs =
     (if length (take 4 bs) \<noteq> 4 then None
      else Some (word32_be (bs ! 0) (bs ! 1) (bs ! 2) (bs ! 3), drop 4 bs))"

definition wal_record :: "bytes \<Rightarrow> bytes" where
  "wal_record payload =
     wal_writeU32 (word_of_nat (length payload)) @ wal_writeU32 (crc32 payload) @ payload"

datatype io_outcome = Io_open_failed | Io_ok | Io_short nat

definition wal_append :: "io_outcome \<Rightarrow> bytes \<Rightarrow> bytes \<Rightarrow> bool \<times> bytes" where
  "wal_append io file payload =
     (case io of
        Io_open_failed \<Rightarrow> (False, file)
      | Io_ok \<Rightarrow> (True, file @ wal_record payload)
      | Io_short n \<Rightarrow> (False, file @ take n (wal_record payload)))"

function recover_loop :: "bytes \<Rightarrow> bytes list" where
  "recover_loop bs =
     (case wal_readU32 bs of
        None \<Rightarrow> []
      | Some (len, r1) \<Rightarrow>
          (case wal_readU32 r1 of
             None \<Rightarrow> []
           | Some (storedCrc, r2) \<Rightarrow>
               let payload = take (unat len) r2 in
               if unat len > 0 \<and> length payload \<noteq> unat len then []
               else if crc32 payload \<noteq> storedCrc then []
               else payload # recover_loop (drop (unat len) r2)))"
  by pat_completeness auto
termination
  by (relation "measure length") (auto simp: wal_readU32_def split: if_splits)

declare recover_loop.simps [simp del]

text \<open>A file that cannot be opened for reading (\<^const>\<open>None\<close>) has no records. The buffer of a payload is assumed to be
  allocated, whatever its length field says.\<close>

definition recoverRecords :: "bytes option \<Rightarrow> bytes list" where
  "recoverRecords file = (case file of None \<Rightarrow> [] | Some bs \<Rightarrow> recover_loop bs)"

definition wal_open :: "bytes option \<Rightarrow> bytes" where
  "wal_open file = (case file of None \<Rightarrow> [] | Some bs \<Rightarrow> bs)"

definition wal_clear :: "bytes \<Rightarrow> bytes" where
  "wal_clear file = []"

section \<open>The table computes the bitwise CRC\<close>

text \<open>The reference: shift one bit at a time through the reflected polynomial.\<close>

fun crc_bits :: "u32 \<Rightarrow> bytes \<Rightarrow> u32" where
  "crc_bits c [] = c"
| "crc_bits c (b # bs) = crc_bits ((crc_step ^^ 8) (c XOR ucast b)) bs"

definition crc32_spec :: "bytes \<Rightarrow> u32" where
  "crc32_spec bs = NOT (crc_bits (NOT 0) bs)"

lemma and_1_bit: "(c::u32) AND 1 \<noteq> 0 \<longleftrightarrow> bit c 0"
  by (simp add: and_one_eq bit_0 odd_iff_mod_2_eq_one)

lemma crc_step_xor: "crc_step (a XOR b) = crc_step a XOR crc_step b"
  unfolding crc_step_def and_1_bit
  by (auto simp: bit_xor_iff intro!: bit_word_eqI simp: bit_simps)

lemma crc_steps_xor: "(crc_step ^^ n) (a XOR b) = (crc_step ^^ n) a XOR (crc_step ^^ n) b"
  by (induction n) (simp_all add: crc_step_xor)

lemma crc_steps_clear:
  "(\<And>i. i < n \<Longrightarrow> \<not> bit c i) \<Longrightarrow> (crc_step ^^ n) c = drop_bit n c"
proof (induction n arbitrary: c)
  case (Suc n)
  then have "crc_step c = drop_bit 1 c"
    by (simp add: crc_step_def and_1_bit)
  moreover have "(crc_step ^^ n) (drop_bit 1 c) = drop_bit n (drop_bit 1 c)"
    using Suc by (auto simp: bit_simps)
  ultimately show ?case
    by (simp add: funpow_swap1 [symmetric] funpow_Suc_right del: funpow.simps)
qed simp

lemma low_byte_split: "(c::u32) = (c AND 0xFF) XOR push_bit 8 (drop_bit 8 c)"
  by (rule bit_word_eqI)
    (auto simp: bit_and_iff bit_xor_iff bit_push_bit_iff bit_drop_bit_eq bit_byte_mask
      simp del: bit_numeral_word_iff)

lemma crc_table_nth: "unat i < 256 \<Longrightarrow> crc_table ! unat i = crc_entry i"
  by (simp add: crc_table_def)

lemma and_FF_less: "unat ((c::u32) AND 0xFF) < 256"
proof -
  have "c AND 0xFF \<le> 0xFF"
    by (rule word_and_le1)
  then show ?thesis
    by (simp add: word_le_nat_alt)
qed

lemma crc_byte_step:
  "crc_table ! unat ((c XOR ucast (b::u8)) AND 0xFF) XOR drop_bit 8 c = (crc_step ^^ 8) (c XOR ucast b)"
proof -
  let ?x = "c XOR ucast b :: u32"
  have "(crc_step ^^ 8) (push_bit 8 (drop_bit 8 ?x)) = drop_bit 8 (push_bit 8 (drop_bit 8 ?x))"
    by (rule crc_steps_clear) (simp add: bit_simps)
  also have "\<dots> = drop_bit 8 c"
  proof (rule bit_word_eqI)
    fix n assume "n < LENGTH(32)"
    have "\<not> bit c (8 + n)" if "\<not> n < 24"
      using that bit_imp_le_length [of c "8 + n"] by auto
    then show "bit (drop_bit 8 (push_bit 8 (drop_bit 8 ?x))) n = bit (drop_bit 8 c) n"
      by (auto simp: bit_simps not_bit_byte)
  qed
  finally have high: "(crc_step ^^ 8) (push_bit 8 (drop_bit 8 ?x)) = drop_bit 8 c" .
  have "(crc_step ^^ 8) ?x = (crc_step ^^ 8) (?x AND 0xFF) XOR (crc_step ^^ 8) (push_bit 8 (drop_bit 8 ?x))"
    by (subst low_byte_split [of ?x], subst crc_steps_xor) (rule refl)
  then show ?thesis
    by (simp only: high crc_table_nth [OF and_FF_less] crc_entry_def)
qed

lemma crc32_loop_bits: "crc32_loop c bs = crc_bits c bs"
  by (induction bs arbitrary: c) (simp_all only: crc32_loop.simps crc_bits.simps crc_byte_step)

lemma crc32_eq_spec: "crc32 bs = crc32_spec bs"
proof -
  have ones: "(0xFFFFFFFF :: u32) = NOT 0"
    by simp
  show ?thesis
    unfolding crc32_def crc32_spec_def crc32_loop_bits ones
    by (rule bit_word_eqI) (simp add: bit_xor_iff bit_not_iff)
qed

section \<open>Reading back what was written\<close>

lemma wal_writeU32_be32 [simp]: "wal_writeU32 w = be32 w"
  by (simp add: wal_writeU32_def be32_def)

lemma wal_readU32_be32 [simp]: "wal_readU32 (be32 w @ r) = Some (w, r)"
  by (simp add: wal_readU32_def be32_def)

lemma wal_readU32_short: "length bs < 4 \<Longrightarrow> wal_readU32 bs = None"
  by (simp add: wal_readU32_def)

lemma recover_loop_short: "length bs < 4 \<Longrightarrow> recover_loop bs = []"
  by (simp add: recover_loop.simps [of bs] wal_readU32_short)

definition wal_fits :: "bytes \<Rightarrow> bool" where
  "wal_fits payload \<longleftrightarrow> length payload < 2 ^ 32"

lemma recover_record:
  assumes "wal_fits p"
  shows "recover_loop (wal_record p @ r) = p # recover_loop r"
  using assms by (subst recover_loop.simps) (simp add: wal_record_def wal_fits_def)

text \<open>A record cut off anywhere before its last byte is not recovered.\<close>

lemma recover_torn:
  assumes "wal_fits p" "n < length (wal_record p)"
  shows "recover_loop (take n (wal_record p)) = []"
proof -
  let ?len = "be32 (word_of_nat (length p))" and ?crc = "be32 (crc32 p)"
  consider "n < 4" | "4 \<le> n" "n < 8" | "8 \<le> n"
    by linarith
  then show ?thesis
  proof cases
    case 1
    then show ?thesis
      by (intro recover_loop_short) simp
  next
    case 2
    then have "take n (wal_record p) = ?len @ take (n - 4) ?crc"
      by (simp add: wal_record_def)
    moreover have "wal_readU32 (take (n - 4) ?crc) = None"
      using 2 by (intro wal_readU32_short) simp
    ultimately show ?thesis
      by (subst recover_loop.simps) simp
  next
    case 3
    then have "take n (wal_record p) = ?len @ ?crc @ take (n - 8) p"
      by (simp add: wal_record_def)
    moreover have "n - 8 < length p"
      using 3 assms(2) by (simp add: wal_record_def)
    ultimately show ?thesis
      using assms(1) by (subst recover_loop.simps) (auto simp: wal_fits_def Let_def)
  qed
qed

text \<open>Bytes of a small length field are zero from some point on.\<close>

lemma byte_at_0 [simp]: "byte_at k 0 = 0"
  by (simp add: byte_at_def)

lemma byte_at_small:
  assumes "n < 2 ^ k" "k \<le> 32"
  shows "byte_at k (word_of_nat n :: u32) = 0"
proof -
  have "(2::nat) ^ k \<le> 2 ^ 32"
    using assms(2) by (simp only: power_increasing)
  with assms(1) have "unat (word_of_nat n :: u32) = n"
    by (intro unat_word_of_nat_32) (rule order_less_le_trans)
  then have "unat (drop_bit k (word_of_nat n :: u32)) = 0"
    using assms(1) by (simp only: unat_drop_bit_eq) (simp add: drop_bit_eq_div)
  then have "drop_bit k (word_of_nat n :: u32) = 0"
    by (simp add: unat_eq_zero)
  then show ?thesis
    by (simp add: byte_at_def)
qed

text \<open>A header with length 0 and a checksum other than 0 ends the recovery.\<close>

lemma recover_zero_header:
  assumes "b0 \<noteq> 0 \<or> b1 \<noteq> 0 \<or> b2 \<noteq> 0 \<or> b3 \<noteq> 0"
  shows "recover_loop ([0, 0, 0, 0, b0, b1, b2, b3] @ r) = []"
proof -
  let ?crc = "word32_be b0 b1 b2 b3"
  have "?crc \<noteq> 0"
  proof
    assume "?crc = 0"
    then have "be32 ?crc = be32 0"
      by (rule arg_cong)
    then show False
      using assms unfolding be32_word32_be by (simp add: be32_def)
  qed
  moreover have "[0, 0, 0, 0, b0, b1, b2, b3] @ r = be32 0 @ be32 ?crc @ r"
    unfolding be32_word32_be by (simp add: be32_def)
  moreover have "crc32 [] = 0"
    by (simp add: crc32_def)
  ultimately show ?thesis
    by (subst recover_loop.simps) (simp del: be32_word32_be)
qed

lemma recover_after_zeros:
  assumes "n \<in> {1, 2, 3}" "0 < length p" "length p < 2 ^ (8 * n)"
  shows "recover_loop (replicate n 0 @ wal_record p @ r) = []"
proof -
  let ?w = "word_of_nat (length p) :: u32"
  have high: "byte_at k ?w = 0" if "8 * n \<le> k" "k \<le> 32" for k
  proof (rule byte_at_small [OF _ that(2)])
    have "(2 :: nat) ^ (8 * n) \<le> 2 ^ k"
      using that(1) by (simp only: power_increasing)
    with assms(3) show "length p < 2 ^ k"
      by (rule order_less_le_trans)
  qed
  have "(2 :: nat) ^ (8 * n) \<le> 2 ^ 32"
    using assms(1) by (intro power_increasing) auto
  then have "unat ?w = length p"
    using assms(3) by (intro unat_word_of_nat_32) simp
  then have "?w \<noteq> 0"
    using assms(2) by auto
  then have w: "byte_at 24 ?w \<noteq> 0 \<or> byte_at 16 ?w \<noteq> 0 \<or> byte_at 8 ?w \<noteq> 0 \<or> byte_at 0 ?w \<noteq> 0"
    using word32_be_bytes [of ?w] by (auto simp: word32_be_def)
  obtain c0 c1 c2 c3 where c: "be32 (crc32 p) = [c0, c1, c2, c3]"
    by (simp add: be32_def)
  have rec: "wal_record p = [byte_at 24 ?w, byte_at 16 ?w, byte_at 8 ?w, byte_at 0 ?w, c0, c1, c2, c3] @ p"
    using c by (simp add: wal_record_def be32_def)
  from assms(1) consider "n = 1" | "n = 2" | "n = 3"
    by blast
  then show ?thesis
  proof cases
    case 1
    then have d: "byte_at 0 ?w \<noteq> 0 \<or> c0 \<noteq> 0 \<or> c1 \<noteq> 0 \<or> c2 \<noteq> 0"
      using w high [of 8] high [of 16] high [of 24] by auto
    show ?thesis
      using recover_zero_header [OF d, of "c3 # p @ r"] high [of 8] high [of 16] high [of 24]
      by (simp add: rec \<open>n = 1\<close>)
  next
    case 2
    then have d: "byte_at 8 ?w \<noteq> 0 \<or> byte_at 0 ?w \<noteq> 0 \<or> c0 \<noteq> 0 \<or> c1 \<noteq> 0"
      using w high [of 16] high [of 24] by auto
    show ?thesis
      using recover_zero_header [OF d, of "c2 # c3 # p @ r"] high [of 16] high [of 24]
      by (simp add: rec \<open>n = 2\<close> numeral_2_eq_2)
  next
    case 3
    then have d: "byte_at 16 ?w \<noteq> 0 \<or> byte_at 8 ?w \<noteq> 0 \<or> byte_at 0 ?w \<noteq> 0 \<or> c0 \<noteq> 0"
      using w high [of 24] by auto
    show ?thesis
      using recover_zero_header [OF d, of "c1 # c2 # c3 # p @ r"] high [of 24]
      by (simp add: rec \<open>n = 3\<close> numeral_3_eq_3)
  qed
qed

lemma torn_length_zero:
  assumes "n \<in> {1, 2, 3}" "length q < 2 ^ (32 - 8 * n)"
  shows "take n (wal_record q) = replicate n 0"
proof -
  have high: "byte_at k (word_of_nat (length q) :: u32) = 0" if "32 - 8 * n \<le> k" "k \<le> 32" for k
  proof (rule byte_at_small [OF _ that(2)])
    have "(2 :: nat) ^ (32 - 8 * n) \<le> 2 ^ k"
      using that(1) by (simp only: power_increasing)
    with assms(2) show "length q < 2 ^ k"
      by (rule order_less_le_trans)
  qed
  from assms(1) consider "n = 1" | "n = 2" | "n = 3"
    by blast
  then show ?thesis
    using high [of 24] high [of 16] high [of 8] by cases (simp_all add: wal_record_def be32_def numeral_2_eq_2 numeral_3_eq_3)
qed

text \<open>A record cut off behind its length field swallows whatever is shorter than its missing bytes.\<close>

lemma recover_swallowed:
  assumes "wal_fits q" "4 \<le> n" "n + length tail < length (wal_record q)"
  shows "recover_loop (take n (wal_record q) @ tail) = []"
proof -
  define rest where "rest = take (n - 4) (be32 (crc32 q) @ q) @ tail"
  have bs: "take n (wal_record q) @ tail = be32 (word_of_nat (length q)) @ rest"
    using assms(2) by (simp add: wal_record_def rest_def)
  have len: "unat (word_of_nat (length q) :: u32) = length q"
    using assms(1) by (simp add: wal_fits_def)
  have short: "length rest < 4 + length q"
    using assms(2,3) by (auto simp: rest_def wal_record_def min_def)
  show ?thesis
  proof (cases "wal_readU32 rest")
    case None
    then show ?thesis
      unfolding bs by (subst recover_loop.simps) simp
  next
    case (Some x)
    then obtain crc where x: "x = (crc, drop 4 rest)" "4 \<le> length rest"
      by (cases x) (auto simp: wal_readU32_def min_def split: if_splits)
    then have "length (drop 4 rest) < length q" "0 < length q"
      using short by auto
    then show ?thesis
      unfolding bs using Some x(1) by (subst recover_loop.simps) (simp add: Let_def len)
  qed
qed

definition wal_image :: "bytes list \<Rightarrow> bytes" where
  "wal_image ps = concat (map wal_record ps)"

lemma recover_image_append:
  "list_all wal_fits ps \<Longrightarrow> recover_loop (wal_image ps @ r) = ps @ recover_loop r"
  by (induction ps) (simp_all add: wal_image_def recover_record)

section \<open>Interface for the clients of the log\<close>

text \<open>
  \<open>holds f ps\<close>: the file holds exactly the records \<open>ps\<close>, with nothing behind them. An append
  that succeeds adds one record; one that fails leaves a file from which the same records are
  recovered (but which may no longer be free of a torn tail).
\<close>

locale durable_log =
  fixes app :: "'f \<Rightarrow> bytes \<Rightarrow> 'f"
    and torn :: "nat \<Rightarrow> 'f \<Rightarrow> bytes \<Rightarrow> 'f"
    and recovered :: "'f \<Rightarrow> bytes list"
    and holds :: "'f \<Rightarrow> bytes list \<Rightarrow> bool"
    and fits :: "bytes \<Rightarrow> bool"
    and size_of :: "bytes \<Rightarrow> nat"
  assumes holds_app: "holds f ps \<Longrightarrow> fits p \<Longrightarrow> holds (app f p) (ps @ [p])"
    and recovered_holds: "holds f ps \<Longrightarrow> recovered f = ps"
    and recovered_torn: "holds f ps \<Longrightarrow> fits p \<Longrightarrow> n < size_of p \<Longrightarrow> recovered (torn n f p) = ps"
begin

lemma holds_appends: "holds f ps \<Longrightarrow> list_all fits qs \<Longrightarrow> holds (foldl app f qs) (ps @ qs)"
proof (induction qs arbitrary: f ps)
  case (Cons q qs)
  then have "holds (app f q) (ps @ [q])"
    by (simp add: holds_app)
  from Cons.IH [OF this] Cons.prems(2) show ?case
    by simp
qed simp

lemma crash_keeps_committed:
  assumes "holds f ps" "list_all fits qs" "fits p" "n < size_of p"
  shows "recovered (torn n (foldl app f qs) p) = ps @ qs"
  using recovered_torn [OF holds_appends [OF assms(1,2)] assms(3,4)] .

end

definition wal_holds :: "bytes \<Rightarrow> bytes list \<Rightarrow> bool" where
  "wal_holds file ps \<longleftrightarrow> list_all wal_fits ps \<and> file = wal_image ps"

interpretation wal: durable_log
  "\<lambda>f p. snd (wal_append Io_ok f p)" "\<lambda>n f p. snd (wal_append (Io_short n) f p)"
  recover_loop wal_holds wal_fits "\<lambda>p. length (wal_record p)"
proof unfold_locales
  fix f ps p assume "wal_holds f ps" "wal_fits p"
  then show "wal_holds (snd (wal_append Io_ok f p)) (ps @ [p])"
    by (simp add: wal_holds_def wal_append_def wal_image_def)
next
  fix f ps assume "wal_holds f ps"
  then show "recover_loop f = ps"
    using recover_image_append [of ps "[]"] by (simp add: wal_holds_def recover_loop_short)
next
  fix f ps p n assume "wal_holds f ps" "wal_fits p" "n < length (wal_record p)"
  then show "recover_loop (snd (wal_append (Io_short n) f p)) = ps"
    by (simp add: wal_holds_def wal_append_def recover_image_append recover_torn)
qed

section \<open>Properties\<close>

text \<open>
  C5. The table-driven \<^verbatim>\<open>crc32\<close> equals the bit-at-a-time CRC-32 of IEEE 802.3 (reflected
  polynomial \<^verbatim>\<open>0xEDB88320\<close>, initial value and final complement all ones) on every input.
\<close>

theorem crc32_is_bitwise_crc: "crc32 bs = crc32_spec bs"
  by (rule crc32_eq_spec)

text \<open>
  C6. Crash-safe recovery: after any sequence of successful appends and one append that is cut
  off before its last byte, \<^verbatim>\<open>recoverRecords\<close> returns exactly the payloads of the successful
  appends, in order.
\<close>

theorem wal_recovers_committed_records:
  assumes "list_all wal_fits ps" "wal_fits p" "n < length (wal_record p)"
  shows "recoverRecords (Some (snd (wal_append (Io_short n)
      (foldl (\<lambda>f q. snd (wal_append Io_ok f q)) (wal_open None) ps) p))) = ps"
  using wal.crash_keeps_committed [of "[]" "[]", OF _ assms]
  by (simp add: recoverRecords_def wal_open_def wal_holds_def wal_image_def)

theorem wal_recovers_committed_records_witness:
  "recoverRecords (Some (snd (wal_append (Io_short 9)
     (foldl (\<lambda>f q. snd (wal_append Io_ok f q)) (wal_open None) [[1, 2], []]) [7, 8, 9]))) = [[1, 2], []]"
  by (rule wal_recovers_committed_records) (simp_all add: wal_fits_def wal_record_def)

text \<open>Appends that all succeed, each by a log object opened on the file as the one before left it.\<close>

fun wal_appends :: "bytes \<Rightarrow> bytes list \<Rightarrow> bool list \<times> bytes" where
  "wal_appends file [] = ([], file)"
| "wal_appends file (p # ps) =
     (case wal_append Io_ok (wal_open (Some file)) p of (ok, file1) \<Rightarrow>
        (case wal_appends file1 ps of (oks, file2) \<Rightarrow> (ok # oks, file2)))"

lemma wal_appends_image: "wal_appends f ps = (replicate (length ps) True, f @ wal_image ps)"
  by (induction ps arbitrary: f) (simp_all add: wal_append_def wal_open_def wal_image_def)

text \<open>
  C7. The log does not repair its tail. Records \<open>ps\<close> are committed, an append of \<open>q\<close> is cut off after
  \<open>n\<close> bytes, and later the records \<open>rs\<close> are appended, each reported as a success. None of \<open>rs\<close> is ever
  recovered, only \<open>ps\<close> is: in the case that \<open>q\<close>'s length field was written and \<open>rs\<close> does not make up for the
  bytes missing of \<open>q\<close>, and in the case that only one to three zero bytes of the length field were
  written and the first of \<open>rs\<close> is nonempty and shorter than \<open>2\<^sup>8\<^sup>n\<close> bytes. Every append opens the log anew
  (\<^verbatim>\<open>WriteAheadLog\<close>'s constructor), so restarts do not help. A tear that leaves no byte loses nothing,
  and other tears are left open: they depend on the checksums.
\<close>

theorem wal_append_after_torn_write_is_lost:
  assumes "list_all wal_fits ps" "wal_fits q"
    and "4 \<le> n \<and> n + length (wal_image rs) < length (wal_record q) \<or>
      n \<in> {1, 2, 3} \<and> length q < 2 ^ (32 - 8 * n) \<and> (\<exists>p rs'. rs = p # rs' \<and> 0 < length p \<and> length p < 2 ^ (8 * n))"
    and "wal_append (Io_short n) (wal_image ps) q = (ok1, file1)" "wal_appends file1 rs = (oks, file2)"
  shows "\<not> ok1 \<and> oks = replicate (length rs) True \<and> recoverRecords (Some file1) = ps \<and> recoverRecords (Some file2) = ps"
proof -
  have n: "n < length (wal_record q)"
    using assms(3) by (auto simp: wal_record_def)
  have files: "\<not> ok1" "file1 = wal_image ps @ take n (wal_record q)" "oks = replicate (length rs) True"
    "file2 = wal_image ps @ take n (wal_record q) @ wal_image rs"
    using assms(4,5) by (auto simp: wal_append_def wal_appends_image)
  have "recover_loop (take n (wal_record q) @ wal_image rs) = []"
    using assms(3)
  proof (elim disjE conjE exE)
    assume "4 \<le> n" "n + length (wal_image rs) < length (wal_record q)"
    then show ?thesis
      by (rule recover_swallowed [OF assms(2)])
  next
    fix p rs'
    assume z: "n \<in> {1, 2, 3}" "length q < 2 ^ (32 - 8 * n)" "rs = p # rs'" "0 < length p" "length p < 2 ^ (8 * n)"
    have "take n (wal_record q) = replicate n 0"
      using z(1,2) by (rule torn_length_zero)
    then show ?thesis
      using recover_after_zeros [OF z(1,4,5), of "wal_image rs'"] z(3) by (simp add: wal_image_def)
  qed
  then show ?thesis
    using files assms(1) recover_torn [OF assms(2) n] by (simp add: recoverRecords_def recover_image_append)
qed

theorem wal_append_after_torn_write_is_lost_witness:
  "recoverRecords (Some (snd (wal_appends (snd (wal_append (Io_short 3) (wal_image [[1]]) [2])) [[3], [4, 5]]))) = [[1]] \<and>
   recoverRecords (Some (snd (wal_appends (snd (wal_append (Io_short 6) (wal_image [[1]]) (replicate 40 2))) [[3], [4, 5]]))) = [[1]]"
proof -
  have i: "length (wal_image [[3], [4, 5]]) = 19"
    by (simp add: wal_image_def wal_record_def)
  show ?thesis
    using wal_append_after_torn_write_is_lost [of "[[1]]" "[2]" 3 "[[3], [4, 5]]", OF _ _ _ prod.collapse [symmetric] prod.collapse [symmetric]]
      wal_append_after_torn_write_is_lost [of "[[1]]" "replicate 40 2" 6 "[[3], [4, 5]]", OF _ _ _ prod.collapse [symmetric] prod.collapse [symmetric]]
    by (simp add: wal_fits_def i wal_record_def [of "replicate 40 2"])
qed

end
