(* ===== verification/Serialization.thy ===== *)
theory Serialization
  imports Prelude
begin

text \<open>
  The binary codec of \<^verbatim>\<open>07-distributed-systems/rpc/serialization.cpp\<close>, which the RPC layer,
  the Raft messages, the key/value log records and the blockchain all use.

  An \<^verbatim>\<open>Encoder\<close> is the byte buffer it appends to. A \<^verbatim>\<open>Decoder\<close> keeps the buffer it was
  built on, the length it may read, the read offset and the sticky failure flag; a read
  returns \<^const>\<open>None\<close> where the code returns \<^verbatim>\<open>false\<close>. The locale \<open>wire_codec\<close> is the
  contract of one field type: what a read does, seen through the bytes that remain. It is
  interpreted on all five field types of the codec, and the message formats of the other
  theories are proved over those interpretations.
\<close>

section \<open>Encoder\<close>

type_synonym encoder = bytes

definition writeU8 :: "encoder \<Rightarrow> u8 \<Rightarrow> encoder" where
  "writeU8 buffer value = buffer @ [value]"

definition writeU32 :: "encoder \<Rightarrow> u32 \<Rightarrow> encoder" where
  "writeU32 buffer value =
     buffer @ [byte_at 24 value, byte_at 16 value, byte_at 8 value, byte_at 0 value]"

text \<open>The loop runs \<^verbatim>\<open>i\<close> from 7 down to 0 and pushes \<^verbatim>\<open>(value >> (i * 8)) & 0xFF\<close>.\<close>

fun writeU64_loop :: "nat \<Rightarrow> encoder \<Rightarrow> u64 \<Rightarrow> encoder" where
  "writeU64_loop 0 buffer value = buffer"
| "writeU64_loop (Suc i) buffer value = writeU64_loop i (buffer @ [byte_at (i * 8) value]) value"

definition writeU64 :: "encoder \<Rightarrow> u64 \<Rightarrow> encoder" where
  "writeU64 buffer value = writeU64_loop 8 buffer value"

definition writeBytes :: "encoder \<Rightarrow> bytes \<Rightarrow> encoder" where
  "writeBytes buffer bs = writeU32 buffer (word_of_nat (length bs)) @ bs"

definition writeString :: "encoder \<Rightarrow> string \<Rightarrow> encoder" where
  "writeString buffer s = writeU32 buffer (word_of_nat (length s)) @ bytes_of_string s"

section \<open>Decoder\<close>

record decoder =
  dec_data :: bytes
  dec_length :: nat
  dec_offset :: nat
  dec_failed :: bool

definition mk_decoder :: "bytes \<Rightarrow> nat \<Rightarrow> decoder" where
  "mk_decoder bs len = \<lparr>dec_data = bs, dec_length = len, dec_offset = 0, dec_failed = False\<rparr>"

definition decoder_of :: "bytes \<Rightarrow> decoder" where
  "decoder_of bs = mk_decoder bs (length bs)"

definition dec_fail :: "decoder \<Rightarrow> decoder" where
  "dec_fail d = d\<lparr>dec_failed := True\<rparr>"

definition dec_advance :: "nat \<Rightarrow> decoder \<Rightarrow> decoder" where
  "dec_advance n d = d\<lparr>dec_offset := dec_offset d + n\<rparr>"

definition readU8 :: "decoder \<Rightarrow> u8 option \<times> decoder" where
  "readU8 d =
     (if dec_failed d \<or> dec_offset d + 1 > dec_length d then (None, dec_fail d)
      else (Some (dec_data d ! dec_offset d), dec_advance 1 d))"

definition readU32 :: "decoder \<Rightarrow> u32 option \<times> decoder" where
  "readU32 d =
     (if dec_failed d \<or> dec_offset d + 4 > dec_length d then (None, dec_fail d)
      else (Some (word32_be (dec_data d ! dec_offset d) (dec_data d ! (dec_offset d + 1))
                    (dec_data d ! (dec_offset d + 2)) (dec_data d ! (dec_offset d + 3))),
            dec_advance 4 d))"

definition readU64 :: "decoder \<Rightarrow> u64 option \<times> decoder" where
  "readU64 d =
     (if dec_failed d \<or> dec_offset d + 8 > dec_length d then (None, dec_fail d)
      else (Some (word64_be (map (\<lambda>i. dec_data d ! (dec_offset d + i)) [0..<8])),
            dec_advance 8 d))"

definition readBytes :: "decoder \<Rightarrow> bytes option \<times> decoder" where
  "readBytes d =
     (case readU32 d of
        (None, d1) \<Rightarrow> (None, d1)
      | (Some len, d1) \<Rightarrow>
          if dec_failed d1 \<or> dec_offset d1 + unat len > dec_length d1 then (None, dec_fail d1)
          else (Some (take (unat len) (drop (dec_offset d1) (dec_data d1))),
                dec_advance (unat len) d1))"

definition readString :: "decoder \<Rightarrow> string option \<times> decoder" where
  "readString d =
     (case readBytes d of
        (None, d1) \<Rightarrow> (None, d1)
      | (Some bs, d1) \<Rightarrow> (Some (string_of_bytes bs), d1))"

definition atEnd :: "decoder \<Rightarrow> bool" where
  "atEnd d \<longleftrightarrow> \<not> dec_failed d \<and> dec_offset d = dec_length d"

text \<open>
  \<open>dbind r k\<close> is the statement \<^verbatim>\<open>if (!dec.read(out)) return false;\<close> followed by the rest of a
  parser: it gives up on a failed read and otherwise goes on with the value and the decoder.
\<close>

definition dbind :: "'a option \<times> decoder \<Rightarrow> ('a \<Rightarrow> decoder \<Rightarrow> 'b option) \<Rightarrow> 'b option" where
  "dbind r k = (case fst r of None \<Rightarrow> None | Some x \<Rightarrow> k x (snd r))"

section \<open>The encoder appends\<close>

lemma writeU64_loop_map:
  "writeU64_loop n buffer value = buffer @ map (\<lambda>i. byte_at (8 * i) value) (rev [0..<n])"
  by (induction n arbitrary: buffer) (simp_all add: mult.commute)

lemma writeU64_be64: "writeU64 buffer value = buffer @ be64 value"
proof -
  have "rev [0..<8] = [7, 6, 5, 4, 3, 2, 1, 0 :: nat]"
    by code_simp
  then show ?thesis
    by (simp only: writeU64_def be64_def writeU64_loop_map)
qed

lemma write_append [codec_simps]:
  "writeU8 buffer b = buffer @ [b]"
  "writeU32 buffer w = buffer @ be32 w"
  "writeU64 buffer v = buffer @ be64 v"
  "writeBytes buffer bs = buffer @ be32 (word_of_nat (length bs)) @ bs"
  "writeString buffer s = buffer @ be32 (word_of_nat (length s)) @ bytes_of_string s"
  by (simp_all add: writeU8_def writeU32_def be32_def writeU64_be64 writeBytes_def writeString_def)

section \<open>The decoder through the bytes that remain\<close>

text \<open>
  \<open>dec_ok\<close> is the class invariant: the offset never passes the length and the length never
  passes the buffer. \<open>dview\<close> forgets the buffer that was already read: a failed decoder has no
  view, any other is the list of the bytes it may still read.
\<close>

definition dec_ok :: "decoder \<Rightarrow> bool" where
  "dec_ok d \<longleftrightarrow> dec_offset d \<le> dec_length d \<and> dec_length d \<le> length (dec_data d)"

definition dview :: "decoder \<Rightarrow> bytes option" where
  "dview d = (if dec_failed d then None
              else Some (drop (dec_offset d) (take (dec_length d) (dec_data d))))"

lemma dec_ok_mk [simp]: "dec_ok (decoder_of bs)" "len \<le> length bs \<Longrightarrow> dec_ok (mk_decoder bs len)"
  by (simp_all add: decoder_of_def mk_decoder_def dec_ok_def)

lemma dview_decoder_of [simp]: "dview (decoder_of bs) = Some bs"
  by (simp add: decoder_of_def mk_decoder_def dview_def)

lemma dview_fail [simp]: "dview (dec_fail d) = None"
  by (simp add: dec_fail_def dview_def)

lemma dec_ok_fail [simp]: "dec_ok (dec_fail d) = dec_ok d"
  by (simp add: dec_fail_def dec_ok_def)

lemma dview_advance [simp]: "dview (dec_advance n d) = map_option (drop n) (dview d)"
  by (simp add: dec_advance_def dview_def add.commute)

lemma dview_length:
  "dview d = Some bs \<Longrightarrow> dec_ok d \<Longrightarrow> length bs = dec_length d - dec_offset d"
  by (auto simp: dview_def dec_ok_def split: if_splits)

lemma dview_short:
  "dec_ok d \<Longrightarrow> (dec_failed d \<or> dec_offset d + n > dec_length d) \<longleftrightarrow>
     (case dview d of None \<Rightarrow> True | Some bs \<Rightarrow> length bs < n)"
  by (auto simp: dview_def dec_ok_def)

lemma dec_ok_advance:
  "dec_ok d \<Longrightarrow> dview d = Some bs \<Longrightarrow> n \<le> length bs \<Longrightarrow> dec_ok (dec_advance n d)"
  by (auto simp: dview_def dec_ok_def dec_advance_def split: if_splits)

lemma dec_ok_within:
  "dec_ok d \<Longrightarrow> \<not> dec_length d < dec_offset d + n \<Longrightarrow> dec_ok (dec_advance n d)"
  by (simp add: dec_ok_def dec_advance_def)

lemma dview_nth:
  "dview d = Some bs \<Longrightarrow> i < length bs \<Longrightarrow> dec_data d ! (dec_offset d + i) = bs ! i"
  by (auto simp: dview_def less_diff_conv add.commute split: if_splits)

lemma dview_take:
  "dview d = Some bs \<Longrightarrow> n \<le> length bs \<Longrightarrow> take n (drop (dec_offset d) (dec_data d)) = take n bs"
  by (auto simp: dview_def take_drop min_def le_diff_conv2 split: if_splits)

lemma atEnd_dview: "dec_ok d \<Longrightarrow> atEnd d \<longleftrightarrow> dview d = Some []"
  by (auto simp: atEnd_def dview_def dec_ok_def)

text \<open>What each read does to the view: these equations are all later proofs use.\<close>

lemma readU8_view:
  assumes "dec_ok d"
  shows "readU8 d = (case dview d of None \<Rightarrow> (None, dec_fail d)
    | Some bs \<Rightarrow> if length bs < 1 then (None, dec_fail d) else (Some (bs ! 0), dec_advance 1 d))"
  using dview_short [OF assms, of 1] dview_nth [of d _ 0]
  by (auto simp: readU8_def split: option.splits)

lemma readU32_view:
  assumes "dec_ok d"
  shows "readU32 d = (case dview d of None \<Rightarrow> (None, dec_fail d)
    | Some bs \<Rightarrow> if length bs < 4 then (None, dec_fail d)
        else (Some (word32_be (bs ! 0) (bs ! 1) (bs ! 2) (bs ! 3)), dec_advance 4 d))"
proof (cases "dview d")
  case None
  then show ?thesis
    using dview_short [OF assms, of 4] by (simp add: readU32_def)
next
  case (Some bs)
  show ?thesis
  proof (cases "length bs < 4")
    case True
    then show ?thesis
      using dview_short [OF assms, of 4] Some by (simp add: readU32_def)
  next
    case False
    then have "dec_data d ! dec_offset d = bs ! 0" "dec_data d ! (dec_offset d + 1) = bs ! 1"
      "dec_data d ! (dec_offset d + 2) = bs ! 2" "dec_data d ! (dec_offset d + 3) = bs ! 3"
      using dview_nth [OF Some, of 0] dview_nth [OF Some, of 1] dview_nth [OF Some, of 2]
        dview_nth [OF Some, of 3] by force+
    with False show ?thesis
      using dview_short [OF assms, of 4] Some by (simp add: readU32_def)
  qed
qed

lemma readU64_view:
  assumes "dec_ok d"
  shows "readU64 d = (case dview d of None \<Rightarrow> (None, dec_fail d)
    | Some bs \<Rightarrow> if length bs < 8 then (None, dec_fail d)
                else (Some (word64_be (take 8 bs)), dec_advance 8 d))"
proof (cases "dview d")
  case None
  then show ?thesis
    using dview_short [OF assms, of 8] by (simp add: readU64_def)
next
  case (Some bs)
  have "map (\<lambda>i. dec_data d ! (dec_offset d + i)) [0..<8] = take 8 bs" if "\<not> length bs < 8"
    using that by (intro nth_equalityI) (simp_all add: dview_nth [OF Some])
  then show ?thesis
    using dview_short [OF assms, of 8] Some by (simp add: readU64_def)
qed

section \<open>The contract of a field type\<close>

locale wire_codec =
  fixes enc :: "'a \<Rightarrow> bytes"
    and rd :: "decoder \<Rightarrow> 'a option \<times> decoder"
    and wf :: "'a \<Rightarrow> bool"
  assumes read_write:
      "dec_ok d \<Longrightarrow> dview d = Some (enc x @ r) \<Longrightarrow> wf x \<Longrightarrow>
         fst (rd d) = Some x \<and> dview (snd (rd d)) = Some r"
    and read_Some:
      "dec_ok d \<Longrightarrow> fst (rd d) = Some x \<Longrightarrow>
         wf x \<and> (\<exists>r. dview d = Some (enc x @ r) \<and> dview (snd (rd d)) = Some r)"
    and read_None: "dec_ok d \<Longrightarrow> fst (rd d) = None \<Longrightarrow> dview (snd (rd d)) = None"
    and read_ok: "dec_ok d \<Longrightarrow> dec_ok (snd (rd d))"
begin

lemma dbind_writeI:
  assumes "dec_ok d" "dview d = Some (enc x @ r)" "wf x"
    and "\<And>d'. dec_ok d' \<Longrightarrow> dview d' = Some r \<Longrightarrow> k x d' = res"
  shows "dbind (rd d) k = res"
  using read_write [OF assms(1-3)] read_ok [OF assms(1)] assms(4) by (simp add: dbind_def)

lemma dbind_SomeE:
  assumes "dbind (rd d) k = Some y" "dec_ok d"
  obtains x r d' where "wf x" "dview d = Some (enc x @ r)" "dec_ok d'" "dview d' = Some r"
    "k x d' = Some y"
proof -
  from assms(1) obtain x where x: "fst (rd d) = Some x" "k x (snd (rd d)) = Some y"
    by (auto simp: dbind_def split: option.splits)
  with read_Some [OF assms(2) x(1)] read_ok [OF assms(2)] that show ?thesis
    by blast
qed

lemma failed_stays: "dec_ok d \<Longrightarrow> dview d = None \<Longrightarrow> fst (rd d) = None"
  using read_Some by (cases "fst (rd d)") fastforce+

lemma write_prefix_free:
  assumes "wf x" "wf y" "enc x @ r = enc y @ s"
  shows "x = y \<and> r = s"
  using read_write [of "decoder_of (enc x @ r)" x r] read_write [of "decoder_of (enc x @ r)" y s]
    assms by simp

end

section \<open>The codec keeps the contract for every field type\<close>

lemma take_be [simp]: "take 8 (be64 w @ r) = be64 w" "drop 8 (be64 w @ r) = r"
  "drop 4 (be32 v @ r) = r"
  by simp_all

lemma word64_be_take: "length bs \<ge> 8 \<Longrightarrow> be64 (word64_be (take 8 bs)) @ drop 8 bs = bs"
  by simp

lemma list4_split:
  assumes "\<not> length bs < 4"
  shows "be32 (word32_be (bs ! 0) (bs ! 1) (bs ! 2) (bs ! 3)) @ drop 4 bs = bs"
proof -
  obtain a b c d r where "bs = a # b # c # d # r"
    using assms by (cases bs; cases "tl bs"; cases "tl (tl bs)"; cases "tl (tl (tl bs))") auto
  then show ?thesis
    by simp
qed

lemma word32_be_nth [simp]:
  "word32_be ((be32 w @ r) ! 0) ((be32 w @ r) ! 1) ((be32 w @ r) ! 2) ((be32 w @ r) ! 3) = w"
  by (simp add: be32_def)

interpretation u8: wire_codec "\<lambda>b. [b]" readU8 "\<lambda>_. True"
proof unfold_locales
  fix d :: decoder and x assume "dec_ok d" "fst (readU8 d) = Some x"
  then show "True \<and> (\<exists>r. dview d = Some ([x] @ r) \<and> dview (snd (readU8 d)) = Some r)"
    by (auto simp: readU8_view neq_Nil_conv split: option.splits if_splits)
qed (auto simp: readU8_view dec_ok_advance neq_Nil_conv Suc_le_eq split: option.splits if_splits)

interpretation u32: wire_codec be32 readU32 "\<lambda>_. True"
proof unfold_locales
  fix d :: decoder and x assume *: "dec_ok d" "fst (readU32 d) = Some x"
  then obtain bs where bs: "dview d = Some bs" "\<not> length bs < 4"
    "x = word32_be (bs ! 0) (bs ! 1) (bs ! 2) (bs ! 3)" "snd (readU32 d) = dec_advance 4 d"
    by (auto simp: readU32_view split: option.splits if_splits)
  then have "be32 x @ drop 4 bs = bs"
    using list4_split [of bs] by simp
  with bs show "True \<and> (\<exists>r. dview d = Some (be32 x @ r) \<and> dview (snd (readU32 d)) = Some r)"
    by (auto intro: exI [where x = "drop 4 bs"])
next
  fix d :: decoder and x r assume "dec_ok d" "dview d = Some (be32 x @ r)"
  then show "fst (readU32 d) = Some x \<and> dview (snd (readU32 d)) = Some r"
    by (simp add: readU32_view del: One_nat_def)
qed (auto simp: readU32_view dec_ok_advance split: option.splits if_splits)

interpretation u64: wire_codec be64 readU64 "\<lambda>_. True"
proof unfold_locales
  fix d :: decoder and x assume *: "dec_ok d" "fst (readU64 d) = Some x"
  then obtain bs where bs: "dview d = Some bs" "length bs \<ge> 8"
    "x = word64_be (take 8 bs)" "snd (readU64 d) = dec_advance 8 d"
    by (auto simp: readU64_view split: option.splits if_splits)
  then have "be64 x @ drop 8 bs = bs"
    by (simp only: word64_be_take)
  with bs show "True \<and> (\<exists>r. dview d = Some (be64 x @ r) \<and> dview (snd (readU64 d)) = Some r)"
    by (auto intro: exI [where x = "drop 8 bs"])
qed (auto simp: readU64_view dec_ok_advance split: option.splits if_splits)

definition blob :: "bytes \<Rightarrow> bytes" where
  "blob bs = be32 (word_of_nat (length bs)) @ bs"

definition blob_wf :: "'a list \<Rightarrow> bool" where
  "blob_wf bs \<longleftrightarrow> length bs < 2 ^ 32"

interpretation blob: wire_codec blob readBytes blob_wf
proof unfold_locales
  fix d :: decoder and x r
  assume *: "dec_ok d" "dview d = Some (blob x @ r)" "blob_wf x"
  then have "dview d = Some (be32 (word_of_nat (length x)) @ x @ r)"
    by (simp add: blob_def)
  from u32.read_write [OF *(1) this] u32.read_ok [OF *(1)]
  obtain d1 where d1: "readU32 d = (Some (word_of_nat (length x)), d1)" "dview d1 = Some (x @ r)"
    "dec_ok d1" by (cases "readU32 d") auto
  have len: "unat (word_of_nat (length x) :: u32) = length x"
    using *(3) by (simp add: blob_wf_def)
  show "fst (readBytes d) = Some x \<and> dview (snd (readBytes d)) = Some r"
    using dview_short [OF d1(3), of "length x"] dview_take [OF d1(2), of "length x"]
    by (simp add: readBytes_def d1(1,2) len)
next
  fix d :: decoder and x assume *: "dec_ok d" "fst (readBytes d) = Some x"
  then obtain len d1 where r: "readU32 d = (Some len, d1)"
    and x: "\<not> (dec_failed d1 \<or> dec_offset d1 + unat len > dec_length d1)"
      "x = take (unat len) (drop (dec_offset d1) (dec_data d1))"
      "snd (readBytes d) = dec_advance (unat len) d1"
    by (auto simp: readBytes_def split: prod.splits option.splits if_splits)
  from u32.read_Some [OF *(1), of len] u32.read_ok [OF *(1)] r
  obtain s where s: "dview d = Some (be32 len @ s)" "dview d1 = Some s" "dec_ok d1"
    by auto
  have "unat len \<le> length s"
    using dview_short [OF s(3), of "unat len"] s(2) x(1) by simp
  with dview_take [OF s(2)] x(2) have *: "x = take (unat len) s" "length x = unat len"
    by simp_all
  moreover have "unat len < 2 ^ 32"
    using unsigned_less [of len, where 'a = nat] by simp
  ultimately show "blob_wf x \<and>
      (\<exists>r. dview d = Some (blob x @ r) \<and> dview (snd (readBytes d)) = Some r)"
    using s x(3) by (auto simp: blob_def blob_wf_def intro!: exI [where x = "drop (unat len) s"])
next
  fix d :: decoder assume "dec_ok d" "fst (readBytes d) = None"
  then show "dview (snd (readBytes d)) = None"
    using u32.read_None [of d] by (auto simp: readBytes_def split: prod.splits option.splits if_splits)
next
  fix d :: decoder assume "dec_ok d"
  then show "dec_ok (snd (readBytes d))"
    using u32.read_ok [of d]
    by (auto simp: readBytes_def dec_ok_within split: prod.splits option.splits)
qed

abbreviation text_blob :: "string \<Rightarrow> bytes" where
  "text_blob s \<equiv> blob (bytes_of_string s)"

interpretation str: wire_codec "\<lambda>s. text_blob s" readString blob_wf
proof unfold_locales
  fix d :: decoder and x r
  assume *: "dec_ok d" "dview d = Some (text_blob x @ r)" "blob_wf x"
  then have "blob_wf (bytes_of_string x)"
    by (simp add: blob_wf_def)
  from blob.read_write [OF *(1,2) this]
  show "fst (readString d) = Some x \<and> dview (snd (readString d)) = Some r"
    by (auto simp: readString_def o_def split: prod.splits option.splits)
next
  fix d :: decoder and x assume *: "dec_ok d" "fst (readString d) = Some x"
  then obtain bs d1 where bs: "readBytes d = (Some bs, d1)" "x = string_of_bytes bs"
    "snd (readString d) = d1"
    by (auto simp: readString_def split: prod.splits option.splits)
  with blob.read_Some [OF *(1), of bs]
  show "blob_wf x \<and> (\<exists>r. dview d = Some (text_blob x @ r) \<and> dview (snd (readString d)) = Some r)"
    by (auto simp: blob_wf_def o_def)
next
  fix d :: decoder assume "dec_ok d" "fst (readString d) = None"
  then show "dview (snd (readString d)) = None"
    using blob.read_None [of d] by (auto simp: readString_def split: prod.splits option.splits)
next
  fix d :: decoder assume "dec_ok d"
  then show "dec_ok (snd (readString d))"
    using blob.read_ok [of d] by (auto simp: readString_def split: prod.splits option.splits)
qed

lemma write_blob [codec_simps]:
  "writeBytes buffer bs = buffer @ blob bs" "writeString buffer s = buffer @ text_blob s"
  by (simp_all add: write_append blob_def)

lemmas encoder_simps = write_append(1-3) write_blob

lemma length_blob [simp]: "length (blob bs) = 4 + length bs"
  by (simp add: blob_def)

lemma blob_wf_map [simp]: "blob_wf (map f xs) = blob_wf xs"
  by (simp add: blob_wf_def)

end
