(* ===== verification/KvStore.thy ===== *)
theory KvStore
  imports Serialization Wal
begin

text \<open>
  The durable key/value store \<^verbatim>\<open>08-storage/kv/kv_store.cpp\<close>: every mutation is appended to the
  write-ahead log before it is applied to the in-memory map, and the constructor replays the
  recovered records. The abstract specification is a map and the operations on it
  (\<open>kv_spec\<close>); the lemmas show that the store implements it, in memory and across a restart.
\<close>

record kv_store =
  kv_wal :: bytes
  kv_data :: "string \<rightharpoonup> bytes"

definition OP_PUT :: u8 where "OP_PUT = 0"
definition OP_DELETE :: u8 where "OP_DELETE = 1"

definition encodePut :: "string \<Rightarrow> bytes \<Rightarrow> bytes" where
  "encodePut key value = writeBytes (writeString (writeU8 [] OP_PUT) key) value"

definition encodeDelete :: "string \<Rightarrow> bytes" where
  "encodeDelete key = writeString (writeU8 [] OP_DELETE) key"

definition applyRecord :: "(string \<rightharpoonup> bytes) \<Rightarrow> bytes \<Rightarrow> (string \<rightharpoonup> bytes)" where
  "applyRecord data rec =
     (case
        dbind (readU8 (decoder_of rec)) (\<lambda>opType d1.
        dbind (readString d1) (\<lambda>key d2.
          if opType = OP_PUT then
            dbind (readBytes d2) (\<lambda>value d3.
              if \<not> atEnd d3 then None else Some (data(key \<mapsto> value)))
          else if opType = OP_DELETE then
            (if \<not> atEnd d2 then None else Some (data(key := None)))
          else None))
      of None \<Rightarrow> data | Some data' \<Rightarrow> data')"

definition kv_replay :: "kv_store \<Rightarrow> kv_store" where
  "kv_replay s =
     s\<lparr>kv_data := foldl applyRecord (kv_data s) (recoverRecords (Some (kv_wal s)))\<rparr>"

definition kv_open :: "bytes option \<Rightarrow> kv_store" where
  "kv_open file = kv_replay \<lparr>kv_wal = wal_open file, kv_data = Map.empty\<rparr>"

definition kv_put :: "io_outcome \<Rightarrow> kv_store \<Rightarrow> string \<Rightarrow> bytes \<Rightarrow> bool \<times> kv_store" where
  "kv_put io s key value =
     (case wal_append io (kv_wal s) (encodePut key value) of (ok, file) \<Rightarrow>
        if \<not> ok then (False, s\<lparr>kv_wal := file\<rparr>)
        else (True, s\<lparr>kv_wal := file, kv_data := (kv_data s)(key \<mapsto> value)\<rparr>))"

definition kv_remove :: "io_outcome \<Rightarrow> kv_store \<Rightarrow> string \<Rightarrow> bool \<times> kv_store" where
  "kv_remove io s key =
     (case wal_append io (kv_wal s) (encodeDelete key) of (ok, file) \<Rightarrow>
        if \<not> ok then (False, s\<lparr>kv_wal := file\<rparr>)
        else (True, s\<lparr>kv_wal := file, kv_data := (kv_data s)(key := None)\<rparr>))"

definition kv_get :: "kv_store \<Rightarrow> string \<Rightarrow> bytes option" where
  "kv_get s key = kv_data s key"



section \<open>Abstract specification\<close>

datatype kv_op = Put string bytes | Remove string

fun kv_spec :: "(string \<rightharpoonup> bytes) \<Rightarrow> kv_op \<Rightarrow> (string \<rightharpoonup> bytes)" where
  "kv_spec m (Put key value) = m(key \<mapsto> value)"
| "kv_spec m (Remove key) = m(key := None)"

fun kv_record :: "kv_op \<Rightarrow> bytes" where
  "kv_record (Put key value) = encodePut key value"
| "kv_record (Remove key) = encodeDelete key"

fun kv_exec :: "io_outcome \<Rightarrow> kv_store \<Rightarrow> kv_op \<Rightarrow> bool \<times> kv_store" where
  "kv_exec io s (Put key value) = kv_put io s key value"
| "kv_exec io s (Remove key) = kv_remove io s key"

definition kv_fits :: "kv_op \<Rightarrow> bool" where
  "kv_fits op \<longleftrightarrow> length (kv_record op) < 2 ^ 32"

lemma kv_fits_simps:
  "kv_fits (Put key value) \<longleftrightarrow> 9 + length key + length value < 2 ^ 32"
  "kv_fits (Remove key) \<longleftrightarrow> 5 + length key < 2 ^ 32"
  by (simp_all add: kv_fits_def encodePut_def encodeDelete_def encoder_simps)

text \<open>Replaying the record of an operation performs the operation.\<close>

lemma applyRecord_put:
  assumes "kv_fits (Put key value)"
  shows "applyRecord m (encodePut key value) = m(key \<mapsto> value)"
proof -
  have fits: "blob_wf key" "blob_wf value"
    using assms by (simp_all add: kv_fits_simps blob_wf_def)
  have "dbind (readU8 (decoder_of (encodePut key value))) (\<lambda>opType d1.
      dbind (readString d1) (\<lambda>key d2.
        if opType = OP_PUT then dbind (readBytes d2) (\<lambda>value d3.
            if \<not> atEnd d3 then None else Some (m(key \<mapsto> value)))
        else if opType = OP_DELETE then (if \<not> atEnd d2 then None else Some (m(key := None)))
        else None)) = Some (m(key \<mapsto> value))"
    by (intro u8.dbind_writeI [where x = OP_PUT and r = "text_blob key @ blob value"]
          str.dbind_writeI [where x = key and r = "blob value"],
        simp_all add: encodePut_def encoder_simps fits)
      (rule blob.dbind_writeI [where x = "value" and r = "[]"], simp_all add: fits atEnd_dview)
  then show ?thesis
    by (simp add: applyRecord_def)
qed

lemma applyRecord_delete:
  assumes "kv_fits (Remove key)"
  shows "applyRecord m (encodeDelete key) = m(key := None)"
proof -
  have fits: "blob_wf key"
    using assms by (simp add: kv_fits_simps blob_wf_def)
  have "dbind (readU8 (decoder_of (encodeDelete key))) (\<lambda>opType d1.
      dbind (readString d1) (\<lambda>key d2.
        if opType = OP_PUT then dbind (readBytes d2) (\<lambda>value d3.
            if \<not> atEnd d3 then None else Some (m(key \<mapsto> value)))
        else if opType = OP_DELETE then (if \<not> atEnd d2 then None else Some (m(key := None)))
        else None)) = Some (m(key := None))"
    by (intro u8.dbind_writeI [where x = OP_DELETE and r = "text_blob key"]
          str.dbind_writeI [where x = key and r = "[]"])
      (simp_all add: encodeDelete_def encoder_simps fits atEnd_dview OP_PUT_def OP_DELETE_def)
  then show ?thesis
    by (simp add: applyRecord_def)
qed

lemma applyRecord_op: "kv_fits op \<Longrightarrow> applyRecord m (kv_record op) = kv_spec m op"
  by (cases op) (simp_all add: applyRecord_put applyRecord_delete)

section \<open>The store implements the specification\<close>

text \<open>
  The invariant: the log file is exactly the records of some operations, and replaying them
  gives the in-memory map.
\<close>

definition kv_inv :: "kv_store \<Rightarrow> bool" where
  "kv_inv s \<longleftrightarrow> (\<exists>ops. list_all kv_fits ops \<and> kv_wal s = wal_image (map kv_record ops) \<and>
                    kv_data s = foldl kv_spec Map.empty ops)"

lemma wal_fits_kv: "kv_fits op \<Longrightarrow> wal_fits (kv_record op)"
  by (simp add: kv_fits_def wal_fits_def)

lemma replay_ops:
  "list_all kv_fits ops \<Longrightarrow> foldl applyRecord m (map kv_record ops) = foldl kv_spec m ops"
  by (induction ops arbitrary: m) (simp_all add: applyRecord_op)

lemma recover_ops:
  "list_all kv_fits ops \<Longrightarrow> recover_loop (wal_image (map kv_record ops) @ r) =
     map kv_record ops @ recover_loop r"
  by (rule recover_image_append) (simp add: list_all_iff wal_fits_kv)

lemma kv_exec_ok:
  "kv_exec Io_ok s op = (True, \<lparr>kv_wal = kv_wal s @ wal_record (kv_record op),
                               kv_data = kv_spec (kv_data s) op\<rparr>)"
  by (cases op) (simp_all add: kv_put_def kv_remove_def wal_append_def)

lemma kv_exec_short:
  "kv_exec (Io_short n) s op =
     (False, s\<lparr>kv_wal := kv_wal s @ take n (wal_record (kv_record op))\<rparr>)"
  by (cases op) (simp_all add: kv_put_def kv_remove_def wal_append_def)


lemma kv_inv_open_new: "kv_inv (kv_open None)" "kv_data (kv_open None) = Map.empty"
  by (auto simp: kv_inv_def kv_open_def kv_replay_def wal_open_def recoverRecords_def
      recover_loop_short wal_image_def intro!: exI [where x = "[]"])

lemma kv_inv_exec: "kv_inv s \<Longrightarrow> kv_fits op \<Longrightarrow> kv_inv (snd (kv_exec Io_ok s op))"
  unfolding kv_inv_def kv_exec_ok
  by (elim exE) (rule_tac x = "ops @ [op]" in exI, simp add: wal_image_def)

lemma kv_reopen: "kv_inv s \<Longrightarrow> kv_open (Some (kv_wal s)) = s"
proof -
  assume "kv_inv s"
  then obtain ops where ops: "list_all kv_fits ops" "kv_wal s = wal_image (map kv_record ops)"
    "kv_data s = foldl kv_spec Map.empty ops"
    by (auto simp: kv_inv_def)
  then have "recover_loop (kv_wal s) = map kv_record ops"
    using recover_ops [of ops "[]"] by (simp add: recover_loop_short)
  with ops show ?thesis
    by (simp add: kv_open_def kv_replay_def wal_open_def recoverRecords_def replay_ops)
qed

lemma kv_reopen_torn:
  assumes "kv_inv s" "kv_fits op" "n < length (wal_record (kv_record op))"
  shows "kv_data (kv_open (Some (kv_wal (snd (kv_exec (Io_short n) s op))))) = kv_data s"
proof -
  from assms(1) obtain ops where ops: "list_all kv_fits ops"
    "kv_wal s = wal_image (map kv_record ops)" "kv_data s = foldl kv_spec Map.empty ops"
    by (auto simp: kv_inv_def)
  have "recover_loop (kv_wal s @ take n (wal_record (kv_record op))) = map kv_record ops"
    using ops assms(2,3) by (simp add: recover_ops recover_torn wal_fits_kv)
  with ops show ?thesis
    by (simp add: kv_exec_short kv_open_def kv_replay_def wal_open_def recoverRecords_def replay_ops)
qed

text \<open>Operations of which every write succeeds; a failing last one is the subject of C8 and C9.\<close>

fun kv_run :: "kv_store \<Rightarrow> kv_op list \<Rightarrow> kv_store" where
  "kv_run s [] = s"
| "kv_run s (op # ops) = kv_run (snd (kv_exec Io_ok s op)) ops"

lemma kv_run_spec:
  "kv_inv s \<Longrightarrow> list_all kv_fits ops \<Longrightarrow>
     kv_inv (kv_run s ops) \<and> kv_data (kv_run s ops) = foldl kv_spec (kv_data s) ops"
proof (induction ops arbitrary: s)
  case (Cons op ops)
  then show ?case
    using Cons.IH [OF kv_inv_exec, of s op] by (simp add: kv_exec_ok)
qed simp

section \<open>Interface for the clients of the store\<close>

locale durable_map =
  fixes lookup :: "'s \<Rightarrow> string \<Rightarrow> bytes option"
    and store :: "'s \<Rightarrow> string \<Rightarrow> bytes \<Rightarrow> 's"
    and reopen :: "'s \<Rightarrow> 's"
    and good :: "'s \<Rightarrow> bool"
    and fits :: "string \<Rightarrow> bytes \<Rightarrow> bool"
  assumes lookup_store: "lookup (store s k v) k' = (if k' = k then Some v else lookup s k')"
    and good_store: "good s \<Longrightarrow> fits k v \<Longrightarrow> good (store s k v)"
    and reopen_good: "good s \<Longrightarrow> reopen s = s"
begin

lemma lookup_stores:
  "lookup (foldl (\<lambda>s (k, v). store s k v) s kvs) k =
     (case map_of (rev kvs) k of None \<Rightarrow> lookup s k | Some v \<Rightarrow> Some v)"
  by (induction kvs rule: rev_induct) (auto simp: lookup_store)

lemma good_stores:
  "good s \<Longrightarrow> \<forall>(k, v) \<in> set kvs. fits k v \<Longrightarrow> good (foldl (\<lambda>s (k, v). store s k v) s kvs)"
  by (induction kvs rule: rev_induct) (auto simp: good_store)

end

interpretation kv: durable_map kv_get "\<lambda>s k v. snd (kv_put Io_ok s k v)"
  "\<lambda>s. kv_open (Some (kv_wal s))" kv_inv "\<lambda>k v. kv_fits (Put k v)"
proof unfold_locales
  fix s k v k'
  show "kv_get (snd (kv_put Io_ok s k v)) k' = (if k' = k then Some v else kv_get s k')"
    using kv_exec_ok [of s "Put k v"] by (simp add: kv_get_def)
next
  fix s k v assume "kv_inv s" "kv_fits (Put k v)"
  then show "kv_inv (snd (kv_put Io_ok s k v))"
    using kv_inv_exec [of s "Put k v"] by simp
qed (rule kv_reopen)

section \<open>Properties\<close>

text \<open>
  C8. Durability: run any sequence of \<^verbatim>\<open>put\<close> and \<^verbatim>\<open>remove\<close> operations whose writes succeed on a fresh store. The live map is
  the abstract specification folded over the operations; closing the store and opening its file again
  gives the very same store object; and so does, up to the torn bytes in the file, a crash in the
  middle of one more operation: the reopened map is the live one from before that operation.
\<close>

theorem kv_store_durable:
  assumes "list_all kv_fits ops" "kv_fits op" "n < length (wal_record (kv_record op))"
    and "s = kv_run (kv_open None) ops"
  shows "kv_data s = foldl kv_spec Map.empty ops \<and> kv_open (Some (kv_wal s)) = s \<and>
    kv_data (kv_open (Some (kv_wal (snd (kv_exec (Io_short n) s op))))) = kv_data s"
  using kv_reopen_torn [OF _ assms(2,3)] kv_reopen kv_run_spec [OF kv_inv_open_new(1) assms(1)]
  by (simp add: assms(4) kv_inv_open_new)

theorem kv_store_durable_witness:
  "let s = kv_run (kv_open None) [Put ''a'' [1], Put ''b'' [2], Remove ''a'']
   in kv_data s = foldl kv_spec Map.empty [Put ''a'' [1], Put ''b'' [2], Remove ''a''] \<and> kv_open (Some (kv_wal s)) = s \<and>
      kv_data (kv_open (Some (kv_wal (snd (kv_exec (Io_short 5) s (Put ''c'' [3])))))) = kv_data s"
  unfolding Let_def by (rule kv_store_durable) (simp_all add: kv_fits_simps wal_record_def)




end
