(* ===== verification/Rpc.thy ===== *)
theory Rpc
  imports Serialization Complex_Main
begin

text \<open>
  \<^verbatim>\<open>07-distributed-systems/rpc/rpc.cpp\<close>: the request and response messages, the deterministic
  network simulator with fault injection, the RPC server, \<^verbatim>\<open>pumpServer\<close> and the client's
  \<^verbatim>\<open>call\<close> loop.

  The simulator's probabilities are C++ doubles; they only ever meet the value
  \<^verbatim>\<open>(double)(r >> 11) * 2^-53\<close>, which is exact, in one comparison, so a probability is the
  rational number the double denotes. A method handler is a lambda that may change the object
  it captures: a handler takes that object's state and returns the reply and the new state.
\<close>

type_synonym NodeId = u32
type_synonym RequestId = u64

definition responsePort :: "NodeId \<Rightarrow> NodeId" where
  "responsePort node = node + 0x40000000"

section \<open>Messages\<close>

record RpcRequest =
  req_id :: RequestId
  req_method :: string
  req_payload :: bytes

record RpcResponse =
  resp_id :: RequestId
  resp_ok :: bool
  resp_payload :: bytes
  resp_errorMessage :: string

definition serializeRequest :: "RpcRequest \<Rightarrow> bytes" where
  "serializeRequest request =
     writeBytes (writeString (writeU64 [] (req_id request)) (req_method request)) (req_payload request)"

definition parseRequest :: "bytes \<Rightarrow> RpcRequest option" where
  "parseRequest bs =
     dbind (readU64 (decoder_of bs)) (\<lambda>i d1.
     dbind (readString d1) (\<lambda>m d2.
     dbind (readBytes d2) (\<lambda>p d3.
       if atEnd d3 then Some \<lparr>req_id = i, req_method = m, req_payload = p\<rparr> else None)))"

definition serializeResponse :: "RpcResponse \<Rightarrow> bytes" where
  "serializeResponse response =
     writeString
       (writeBytes
          (writeU8 (writeU64 [] (resp_id response)) (if resp_ok response then 1 else 0))
          (resp_payload response))
       (resp_errorMessage response)"

definition parseResponse :: "bytes \<Rightarrow> RpcResponse option" where
  "parseResponse bs =
     dbind (readU64 (decoder_of bs)) (\<lambda>i d1.
     dbind (readU8 d1) (\<lambda>okByte d2.
     dbind (readBytes d2) (\<lambda>p d3.
     dbind (readString d3) (\<lambda>e d4.
       if atEnd d4
       then Some \<lparr>resp_id = i, resp_ok = (okByte \<noteq> 0), resp_payload = p, resp_errorMessage = e\<rparr>
       else None))))"

section \<open>Simulated network\<close>

record FaultConfig =
  dropProbability :: rat
  duplicateProbability :: rat
  maxExtraDelayTicks :: u32

record InFlightMessage =
  msg_from :: NodeId
  msg_to :: NodeId
  msg_bytes :: bytes
  msg_deliverAtTick :: u64

record SimulatedNetwork =
  rngState :: u64
  faults :: FaultConfig
  tickCounter :: u64
  inFlight :: "InFlightMessage list"
  inboxes :: "NodeId \<rightharpoonup> (NodeId \<times> bytes) list"
  partitions :: "(NodeId \<times> NodeId) list"

definition no_faults :: FaultConfig where
  "no_faults = \<lparr>dropProbability = 0, duplicateProbability = 0, maxExtraDelayTicks = 0\<rparr>"

definition new_network :: "u64 \<Rightarrow> FaultConfig \<Rightarrow> SimulatedNetwork" where
  "new_network seed fc =
     \<lparr>rngState = (if seed = 0 then 0x9E3779B97F4A7C15 else seed), faults = fc, tickCounter = 0,
      inFlight = [], inboxes = Map.empty, partitions = []\<rparr>"

text \<open>The three xorshift lines; the multiplication is in the callers' result.\<close>

definition xorshift :: "u64 \<Rightarrow> u64" where
  "xorshift s =
     (let s1 = s XOR drop_bit 12 s; s2 = s1 XOR push_bit 25 s1 in s2 XOR drop_bit 27 s2)"

definition nextRandom :: "SimulatedNetwork \<Rightarrow> u64 \<times> SimulatedNetwork" where
  "nextRandom net =
     (let s = xorshift (rngState net) in (s * 0x2545F4914F6CDD1D, net\<lparr>rngState := s\<rparr>))"

definition nextUnitDouble :: "SimulatedNetwork \<Rightarrow> rat \<times> SimulatedNetwork" where
  "nextUnitDouble net =
     (case nextRandom net of (r, net') \<Rightarrow> (of_nat (unat (drop_bit 11 r)) / 9007199254740992, net'))"

definition same_pair :: "NodeId \<Rightarrow> NodeId \<Rightarrow> NodeId \<times> NodeId \<Rightarrow> bool" where
  "same_pair a b p \<longleftrightarrow> fst p = a \<and> snd p = b \<or> fst p = b \<and> snd p = a"

fun any_pair :: "NodeId \<Rightarrow> NodeId \<Rightarrow> (NodeId \<times> NodeId) list \<Rightarrow> bool" where
  "any_pair a b [] = False"
| "any_pair a b (p # ps) = (if same_pair a b p then True else any_pair a b ps)"

fun erase_pair :: "NodeId \<Rightarrow> NodeId \<Rightarrow> (NodeId \<times> NodeId) list \<Rightarrow> (NodeId \<times> NodeId) list" where
  "erase_pair a b [] = []"
| "erase_pair a b (p # ps) = (if same_pair a b p then ps else p # erase_pair a b ps)"

definition isPartitioned :: "SimulatedNetwork \<Rightarrow> NodeId \<Rightarrow> NodeId \<Rightarrow> bool" where
  "isPartitioned net a b = any_pair a b (partitions net)"

definition net_partition :: "SimulatedNetwork \<Rightarrow> NodeId \<Rightarrow> NodeId \<Rightarrow> SimulatedNetwork" where
  "net_partition net a b =
     (if \<not> isPartitioned net a b then net\<lparr>partitions := partitions net @ [(a, b)]\<rparr> else net)"

definition healPartition :: "SimulatedNetwork \<Rightarrow> NodeId \<Rightarrow> NodeId \<Rightarrow> SimulatedNetwork" where
  "healPartition net a b = net\<lparr>partitions := erase_pair a b (partitions net)\<rparr>"

definition drawDelay :: "SimulatedNetwork \<Rightarrow> u32 \<times> SimulatedNetwork" where
  "drawDelay net =
     (if maxExtraDelayTicks (faults net) > 0 then
        (case nextRandom net of (r, net') \<Rightarrow>
           (ucast (r mod (ucast (maxExtraDelayTicks (faults net)) + 1)), net'))
      else (0, net))"

definition net_enqueue :: "SimulatedNetwork \<Rightarrow> NodeId \<Rightarrow> NodeId \<Rightarrow> bytes \<Rightarrow> u32 \<Rightarrow> SimulatedNetwork" where
  "net_enqueue net from to message delay =
     net\<lparr>inFlight := inFlight net @
        [\<lparr>msg_from = from, msg_to = to, msg_bytes = message,
          msg_deliverAtTick = tickCounter net + 1 + ucast delay\<rparr>]\<rparr>"

definition net_send :: "SimulatedNetwork \<Rightarrow> NodeId \<Rightarrow> NodeId \<Rightarrow> bytes \<Rightarrow> SimulatedNetwork" where
  "net_send net from to message =
     (if isPartitioned net from to then net
      else case nextUnitDouble net of (u1, net1) \<Rightarrow>
        if u1 < dropProbability (faults net1) then net1
        else case drawDelay net1 of (extraDelay, net2) \<Rightarrow>
          case nextUnitDouble (net_enqueue net2 from to message extraDelay) of (u2, net3) \<Rightarrow>
            if u2 < duplicateProbability (faults net3) then
              case drawDelay net3 of (dupDelay, net4) \<Rightarrow> net_enqueue net4 from to message dupDelay
            else net3)"

definition inbox_of :: "SimulatedNetwork \<Rightarrow> NodeId \<Rightarrow> (NodeId \<times> bytes) list" where
  "inbox_of net node = (case inboxes net node of None \<Rightarrow> [] | Some ms \<Rightarrow> ms)"

definition deliver :: "SimulatedNetwork \<Rightarrow> InFlightMessage \<Rightarrow> SimulatedNetwork" where
  "deliver net m =
     net\<lparr>inboxes := (inboxes net)(msg_to m \<mapsto> inbox_of net (msg_to m) @ [(msg_from m, msg_bytes m)])\<rparr>"

text \<open>The delivery loop: \<open>still\<close> is \<^verbatim>\<open>stillInFlight\<close>.\<close>

fun tick_loop :: "SimulatedNetwork \<Rightarrow> InFlightMessage list \<Rightarrow> InFlightMessage list \<Rightarrow>
    SimulatedNetwork \<times> InFlightMessage list" where
  "tick_loop net still [] = (net, still)"
| "tick_loop net still (m # ms) =
     (if msg_deliverAtTick m \<le> tickCounter net then tick_loop (deliver net m) still ms
      else tick_loop net (still @ [m]) ms)"

definition net_tick :: "SimulatedNetwork \<Rightarrow> SimulatedNetwork" where
  "net_tick net =
     (let net1 = net\<lparr>tickCounter := tickCounter net + 1\<rparr>
      in case tick_loop net1 [] (inFlight net1) of (net2, still) \<Rightarrow> net2\<lparr>inFlight := still\<rparr>)"

definition receiveAll :: "SimulatedNetwork \<Rightarrow> NodeId \<Rightarrow> (NodeId \<times> bytes) list \<times> SimulatedNetwork" where
  "receiveAll net node =
     (case inboxes net node of
        None \<Rightarrow> ([], net)
      | Some ms \<Rightarrow> (ms, net\<lparr>inboxes := (inboxes net)(node \<mapsto> [])\<rparr>))"

section \<open>Server and client\<close>

type_synonym 's MethodHandler = "'s \<Rightarrow> bytes \<Rightarrow> bytes \<times> 's"
type_synonym 's RpcServer = "string \<rightharpoonup> 's MethodHandler"

definition registerMethod :: "'s RpcServer \<Rightarrow> string \<Rightarrow> 's MethodHandler \<Rightarrow> 's RpcServer" where
  "registerMethod handlers name handler = handlers(name \<mapsto> handler)"

definition handleRequest :: "'s RpcServer \<Rightarrow> 's \<Rightarrow> bytes \<Rightarrow> bytes \<times> 's" where
  "handleRequest handlers s requestBytes =
     (case parseRequest requestBytes of
        None \<Rightarrow> (serializeResponse \<lparr>resp_id = 0, resp_ok = False, resp_payload = [],
                    resp_errorMessage = ''Malformed request''\<rparr>, s)
      | Some request \<Rightarrow>
          (case handlers (req_method request) of
             None \<Rightarrow> (serializeResponse \<lparr>resp_id = req_id request, resp_ok = False, resp_payload = [],
                         resp_errorMessage = ''Unknown method: '' @ req_method request\<rparr>, s)
           | Some handler \<Rightarrow>
               (case handler s (req_payload request) of (resultPayload, s') \<Rightarrow>
                  (serializeResponse \<lparr>resp_id = req_id request, resp_ok = True,
                     resp_payload = resultPayload, resp_errorMessage = ''''\<rparr>, s'))))"

fun pump_loop :: "SimulatedNetwork \<Rightarrow> NodeId \<Rightarrow> 's RpcServer \<Rightarrow> 's \<Rightarrow> (NodeId \<times> bytes) list \<Rightarrow>
    SimulatedNetwork \<times> 's" where
  "pump_loop net serverNode handlers s [] = (net, s)"
| "pump_loop net serverNode handlers s ((from, bs) # ms) =
     (case handleRequest handlers s bs of (response, s') \<Rightarrow>
        pump_loop (net_send net serverNode (responsePort from) response) serverNode handlers s' ms)"

definition pumpServer :: "SimulatedNetwork \<Rightarrow> NodeId \<Rightarrow> 's RpcServer \<Rightarrow> 's \<Rightarrow> SimulatedNetwork \<times> 's" where
  "pumpServer net serverNode handlers s =
     (case receiveAll net serverNode of (ms, net') \<Rightarrow> pump_loop net' serverNode handlers s ms)"

datatype CallResult = Call_Success bytes | Call_Error string | Call_TimedOut

record RpcClient =
  cl_self :: NodeId
  cl_serverNode :: NodeId
  cl_nextRequestId :: RequestId

definition new_client :: "NodeId \<Rightarrow> NodeId \<Rightarrow> RpcClient" where
  "new_client self serverNode = \<lparr>cl_self = self, cl_serverNode = serverNode, cl_nextRequestId = 1\<rparr>"

text \<open>The inner loop over the drained inbox: the first matching response ends the call.\<close>

fun find_response :: "RequestId \<Rightarrow> (NodeId \<times> bytes) list \<Rightarrow> CallResult option" where
  "find_response i [] = None"
| "find_response i ((from, bs) # ms) =
     (case parseResponse bs of
        None \<Rightarrow> find_response i ms
      | Some response \<Rightarrow>
          if resp_id response \<noteq> i then find_response i ms
          else if resp_ok response then Some (Call_Success (resp_payload response))
          else Some (Call_Error (resp_errorMessage response)))"

fun call_loop :: "nat \<Rightarrow> RpcClient \<Rightarrow> RequestId \<Rightarrow> SimulatedNetwork \<Rightarrow> 's RpcServer \<Rightarrow> 's \<Rightarrow>
    CallResult \<times> SimulatedNetwork \<times> 's" where
  "call_loop 0 c i net handlers s = (Call_TimedOut, net, s)"
| "call_loop (Suc n) c i net handlers s =
     (case pumpServer (net_tick net) (cl_serverNode c) handlers s of (net2, s2) \<Rightarrow>
        case receiveAll net2 (responsePort (cl_self c)) of (ms, net3) \<Rightarrow>
          case find_response i ms of
            Some r \<Rightarrow> (r, net3, s2)
          | None \<Rightarrow> call_loop n c i net3 handlers s2)"

definition rpc_call :: "RpcClient \<Rightarrow> SimulatedNetwork \<Rightarrow> 's RpcServer \<Rightarrow> 's \<Rightarrow> string \<Rightarrow> bytes \<Rightarrow> u32 \<Rightarrow>
    CallResult \<times> RpcClient \<times> SimulatedNetwork \<times> 's" where
  "rpc_call c net handlers s methd payload maxTicks =
     (let i = cl_nextRequestId c;
          c' = c\<lparr>cl_nextRequestId := i + 1\<rparr>;
          net1 = net_send net (cl_self c) (cl_serverNode c)
                   (serializeRequest \<lparr>req_id = i, req_method = methd, req_payload = payload\<rparr>)
      in case call_loop (unat maxTicks) c i net1 handlers s of (r, net2, s2) \<Rightarrow> (r, c', net2, s2))"

section \<open>Message round trips\<close>

definition request_wf :: "RpcRequest \<Rightarrow> bool" where
  "request_wf r \<longleftrightarrow> blob_wf (req_method r) \<and> blob_wf (req_payload r)"

definition response_wf :: "RpcResponse \<Rightarrow> bool" where
  "response_wf r \<longleftrightarrow> blob_wf (resp_payload r) \<and> blob_wf (resp_errorMessage r)"

lemma serializeRequest_bytes:
  "serializeRequest r = be64 (req_id r) @ text_blob (req_method r) @ blob (req_payload r)"
  by (simp add: serializeRequest_def encoder_simps)

lemma serializeResponse_bytes:
  "serializeResponse r = be64 (resp_id r) @ [if resp_ok r then 1 else 0] @ blob (resp_payload r) @
     text_blob (resp_errorMessage r)"
  by (simp add: serializeResponse_def encoder_simps)

lemma parseRequest_serialize:
  assumes "request_wf r"
  shows "parseRequest (serializeRequest r) = Some r"
  unfolding parseRequest_def
  by (intro u64.dbind_writeI
        [where x = "req_id r" and r = "text_blob (req_method r) @ blob (req_payload r)"]
      str.dbind_writeI [where x = "req_method r" and r = "blob (req_payload r)"]
      blob.dbind_writeI [where x = "req_payload r" and r = "[]"])
    (use assms in \<open>simp_all add: serializeRequest_bytes request_wf_def atEnd_dview\<close>)

lemma parseRequest_Some:
  assumes "parseRequest bs = Some r"
  shows "bs = serializeRequest r \<and> request_wf r"
proof -
  have "dview (decoder_of bs) = Some bs" "dec_ok (decoder_of bs)"
    by simp_all
  with assms show ?thesis
    unfolding parseRequest_def
    by (elim u64.dbind_SomeE str.dbind_SomeE blob.dbind_SomeE)
      (auto simp: serializeRequest_bytes request_wf_def atEnd_dview split: if_splits)
qed

text \<open>The bytes of a response, with any byte in the place of its success flag.\<close>

definition response_bytes :: "u8 \<Rightarrow> RpcResponse \<Rightarrow> bytes" where
  "response_bytes okByte r =
     be64 (resp_id r) @ [okByte] @ blob (resp_payload r) @ text_blob (resp_errorMessage r)"

lemma response_bytes_serialize: "serializeResponse r = response_bytes (if resp_ok r then 1 else 0) r"
  by (simp add: serializeResponse_bytes response_bytes_def)

lemma parseResponse_bytes:
  assumes "response_wf r" "resp_ok r \<longleftrightarrow> okByte \<noteq> 0"
  shows "parseResponse (response_bytes okByte r) = Some r"
  unfolding parseResponse_def
  by (intro u64.dbind_writeI [where x = "resp_id r" and
        r = "[okByte] @ blob (resp_payload r) @ text_blob (resp_errorMessage r)"]
      u8.dbind_writeI [where x = okByte and r = "blob (resp_payload r) @ text_blob (resp_errorMessage r)"]
      blob.dbind_writeI [where x = "resp_payload r" and r = "text_blob (resp_errorMessage r)"]
      str.dbind_writeI [where x = "resp_errorMessage r" and r = "[]"])
    (use assms in \<open>simp_all add: response_bytes_def response_wf_def atEnd_dview\<close>)

lemma parseResponse_serialize: "response_wf r \<Longrightarrow> parseResponse (serializeResponse r) = Some r"
  unfolding response_bytes_serialize by (rule parseResponse_bytes) simp_all

lemma parseResponse_Some:
  assumes "parseResponse bs = Some r"
  shows "response_wf r \<and> (\<exists>okByte. resp_ok r = (okByte \<noteq> 0) \<and>
    bs = response_bytes okByte r)"
proof -
  have "dview (decoder_of bs) = Some bs" "dec_ok (decoder_of bs)"
    by simp_all
  with assms show ?thesis
    unfolding parseResponse_def
    by (elim u64.dbind_SomeE u8.dbind_SomeE blob.dbind_SomeE str.dbind_SomeE)
      (auto simp: response_bytes_def response_wf_def atEnd_dview split: if_splits)
qed

section \<open>Network lemmas\<close>

lemma any_pair_iff: "any_pair a b ps \<longleftrightarrow> (\<exists>p \<in> set ps. same_pair a b p)"
  by (induction ps) auto

lemma isPartitioned_sym: "isPartitioned net a b = isPartitioned net b a"
  by (auto simp: isPartitioned_def any_pair_iff same_pair_def)

text \<open>Drawing random numbers touches nothing but the generator.\<close>

lemma nextUnitDouble_frame [frame_simps]:
  "nextUnitDouble net = (u, net') \<Longrightarrow> net' = net\<lparr>rngState := rngState net'\<rparr>"
  by (auto simp: nextUnitDouble_def nextRandom_def Let_def)

lemma drawDelay_frame [frame_simps]:
  "drawDelay net = (d, net') \<Longrightarrow> net' = net\<lparr>rngState := rngState net'\<rparr>"
  by (auto simp: drawDelay_def nextRandom_def Let_def split: if_splits)

text \<open>
  A send leaves the network alone up to the generator and the in-flight list, and whatever it
  adds there is a copy of the message due in the future of the clock.
\<close>

definition copies_of :: "NodeId \<Rightarrow> NodeId \<Rightarrow> bytes \<Rightarrow> InFlightMessage list \<Rightarrow> bool" where
  "copies_of f t b ms \<longleftrightarrow>
     length ms \<le> 2 \<and> (\<forall>m \<in> set ms. msg_from m = f \<and> msg_to m = t \<and> msg_bytes m = b)"

lemma net_send_shape:
  "\<exists>r ms. net_send net f t b = net\<lparr>rngState := r, inFlight := inFlight net @ ms\<rparr> \<and> copies_of f t b ms"
proof -
  have none: "\<exists>r ms. net\<lparr>rngState := r0\<rparr> = net\<lparr>rngState := r, inFlight := inFlight net @ ms\<rparr> \<and>
      copies_of f t b ms" for r0
    by (rule exI [where x = r0], rule exI [where x = "[]"]) (simp add: copies_of_def)
  obtain u1 r1 where n1: "nextUnitDouble net = (u1, net\<lparr>rngState := r1\<rparr>)"
    using nextUnitDouble_frame by (cases "nextUnitDouble net") metis
  obtain d r2 where n2: "drawDelay (net\<lparr>rngState := r1\<rparr>) = (d, net\<lparr>rngState := r2\<rparr>)"
    using drawDelay_frame by (cases "drawDelay (net\<lparr>rngState := r1\<rparr>)") fastforce
  let ?e = "net_enqueue (net\<lparr>rngState := r2\<rparr>) f t b d"
  obtain u2 r3 where n3: "nextUnitDouble ?e = (u2, ?e\<lparr>rngState := r3\<rparr>)"
    using nextUnitDouble_frame by (cases "nextUnitDouble ?e") metis
  obtain d' r4 where n4: "drawDelay (?e\<lparr>rngState := r3\<rparr>) = (d', ?e\<lparr>rngState := r4\<rparr>)"
    using drawDelay_frame by (cases "drawDelay (?e\<lparr>rngState := r3\<rparr>)") fastforce
  let ?m = "\<lambda>d. \<lparr>msg_from = f, msg_to = t, msg_bytes = b, msg_deliverAtTick = tickCounter net + 1 + ucast (d::u32)\<rparr>"
  have one: "?e\<lparr>rngState := r3\<rparr> = net\<lparr>rngState := r3, inFlight := inFlight net @ [?m d]\<rparr>"
    and two: "net_enqueue (?e\<lparr>rngState := r4\<rparr>) f t b d' =
      net\<lparr>rngState := r4, inFlight := inFlight net @ [?m d, ?m d']\<rparr>"
    by (simp_all add: net_enqueue_def)
  have c: "copies_of f t b [?m d]" "copies_of f t b [?m d, ?m d']"
    by (simp_all add: copies_of_def)
  have "net_send net f t b =
      (if isPartitioned net f t then net else if u1 < dropProbability (faults net) then net\<lparr>rngState := r1\<rparr>
       else if u2 < duplicateProbability (faults net) then net_enqueue (?e\<lparr>rngState := r4\<rparr>) f t b d'
       else ?e\<lparr>rngState := r3\<rparr>)"
    by (simp add: net_send_def n1 n2 n3 n4) (simp add: net_enqueue_def)
  with none [of "rngState net"] none [of r1] one two c show ?thesis
    by (simp split: if_splits) blast+
qed

lemma net_send_frame [frame_simps]:
  "tickCounter (net_send net f t b) = tickCounter net" "faults (net_send net f t b) = faults net"
  "inboxes (net_send net f t b) = inboxes net" "partitions (net_send net f t b) = partitions net"
  using net_send_shape [of net f t b] by auto

text \<open>\<open>net_has net f t b\<close>: a message \<open>b\<close> from \<open>f\<close> to \<open>t\<close> is on its way or waits in \<open>t\<close>'s inbox.\<close>

definition net_has :: "SimulatedNetwork \<Rightarrow> NodeId \<Rightarrow> NodeId \<Rightarrow> bytes \<Rightarrow> bool" where
  "net_has net f t b \<longleftrightarrow>
     (\<exists>m \<in> set (inFlight net). msg_from m = f \<and> msg_to m = t \<and> msg_bytes m = b) \<or>
     (f, b) \<in> set (inbox_of net t)"

lemma net_has_new [simp]: "\<not> net_has (new_network seed fc) f t b"
  by (simp add: net_has_def new_network_def inbox_of_def)

lemma net_has_send:
  "net_has (net_send net f t b) f' t' b' \<Longrightarrow> net_has net f' t' b' \<or> f' = f \<and> t' = t \<and> b' = b"
  using net_send_shape [of net f t b] by (auto simp: net_has_def copies_of_def inbox_of_def)

lemma inbox_of_deliver:
  "inbox_of (deliver net m) n =
     inbox_of net n @ (if msg_to m = n then [(msg_from m, msg_bytes m)] else [])"
  by (simp add: deliver_def inbox_of_def)

lemma deliver_frame [frame_simps]:
  "tickCounter (deliver net m) = tickCounter net" "inFlight (deliver net m) = inFlight net"
  "faults (deliver net m) = faults net" "partitions (deliver net m) = partitions net"
  "rngState (deliver net m) = rngState net"
  by (simp_all add: deliver_def)

lemma tick_loop_shape:
  "tick_loop net still ms =
     (foldl deliver net (filter (\<lambda>m. msg_deliverAtTick m \<le> tickCounter net) ms),
      still @ filter (\<lambda>m. \<not> msg_deliverAtTick m \<le> tickCounter net) ms)"
  by (induction net still ms rule: tick_loop.induct) (simp_all add: frame_simps)

lemma inbox_of_delivers:
  "inbox_of (foldl deliver net ms) n =
     inbox_of net n @ map (\<lambda>m. (msg_from m, msg_bytes m)) (filter (\<lambda>m. msg_to m = n) ms)"
  by (induction ms arbitrary: net) (simp_all add: inbox_of_deliver)

lemma delivers_frame [frame_simps]:
  "tickCounter (foldl deliver net ms) = tickCounter net" "faults (foldl deliver net ms) = faults net"
  "partitions (foldl deliver net ms) = partitions net" "rngState (foldl deliver net ms) = rngState net"
  by (induction ms arbitrary: net) (simp_all add: frame_simps)

lemma net_tick_shape:
  "inFlight (net_tick net) = filter (\<lambda>m. \<not> msg_deliverAtTick m \<le> tickCounter net + 1) (inFlight net)"
  "inbox_of (net_tick net) n = inbox_of net n @ map (\<lambda>m. (msg_from m, msg_bytes m))
     (filter (\<lambda>m. msg_to m = n) (filter (\<lambda>m. msg_deliverAtTick m \<le> tickCounter net + 1) (inFlight net)))"
  "tickCounter (net_tick net) = tickCounter net + 1" "faults (net_tick net) = faults net"
  "partitions (net_tick net) = partitions net" "rngState (net_tick net) = rngState net"
proof -
  have i: "inbox_of (x\<lparr>tickCounter := t\<rparr>) n = inbox_of x n" "inbox_of (x\<lparr>inFlight := q\<rparr>) n = inbox_of x n"
    for x :: SimulatedNetwork and t q
    by (simp_all add: inbox_of_def)
  show "inbox_of (net_tick net) n = inbox_of net n @ map (\<lambda>m. (msg_from m, msg_bytes m))
     (filter (\<lambda>m. msg_to m = n) (filter (\<lambda>m. msg_deliverAtTick m \<le> tickCounter net + 1) (inFlight net)))"
    by (simp only: net_tick_def Let_def tick_loop_shape prod.case i inbox_of_delivers) simp
qed (simp_all add: net_tick_def Let_def tick_loop_shape frame_simps)

lemma net_has_tick [simp]: "net_has (net_tick net) f t b = net_has net f t b"
  by (auto simp: net_has_def net_tick_shape)

lemma receiveAll_inbox: "fst (receiveAll net n) = inbox_of net n"
  by (simp add: receiveAll_def inbox_of_def split: option.splits)

lemma receiveAll_frame [frame_simps]:
  "inFlight (snd (receiveAll net n)) = inFlight net" "tickCounter (snd (receiveAll net n)) = tickCounter net"
  "faults (snd (receiveAll net n)) = faults net" "partitions (snd (receiveAll net n)) = partitions net"
  "rngState (snd (receiveAll net n)) = rngState net"
  "inbox_of (snd (receiveAll net n)) k = (if k = n then [] else inbox_of net k)"
  by (auto simp: receiveAll_def inbox_of_def split: option.splits)

lemma net_has_receive:
  "net_has (snd (receiveAll net n)) f t b \<Longrightarrow> net_has net f t b"
  "(f, b) \<in> set (fst (receiveAll net n)) \<Longrightarrow> net_has net f n b"
  by (auto simp: net_has_def frame_simps receiveAll_inbox split: if_splits)

lemma responsePort_inj [simp]: "responsePort a = responsePort b \<longleftrightarrow> a = b"
  by (simp add: responsePort_def)

section \<open>Without faults\<close>

lemma nextUnitDouble_nonneg: "0 \<le> fst (nextUnitDouble net)"
  unfolding nextUnitDouble_def
  by (cases "nextRandom net")
    (simp only: prod.case fst_conv divide_nonneg_nonneg of_nat_0_le_iff zero_le_numeral)

lemma net_send_reliable:
  assumes "faults net = no_faults" "\<not> isPartitioned net f t"
  shows "\<exists>r. net_send net f t b = (net_enqueue net f t b 0)\<lparr>rngState := r\<rparr>"
proof -
  obtain u1 r1 where n1: "nextUnitDouble net = (u1, net\<lparr>rngState := r1\<rparr>)"
    using nextUnitDouble_frame by (cases "nextUnitDouble net") metis
  let ?e = "net_enqueue (net\<lparr>rngState := r1\<rparr>) f t b 0"
  obtain u2 r3 where n3: "nextUnitDouble ?e = (u2, ?e\<lparr>rngState := r3\<rparr>)"
    using nextUnitDouble_frame by (cases "nextUnitDouble ?e") metis
  have "\<not> u1 < 0" "\<not> u2 < 0"
    using nextUnitDouble_nonneg [of net] nextUnitDouble_nonneg [of ?e] n1 n3 by auto
  moreover have "drawDelay (net\<lparr>rngState := r1\<rparr>) = (0, net\<lparr>rngState := r1\<rparr>)"
    using assms(1) by (simp add: drawDelay_def no_faults_def)
  ultimately have "net_send net f t b = ?e\<lparr>rngState := r3\<rparr>"
    using assms n1 n3 by (simp add: net_send_def no_faults_def) (simp add: net_enqueue_def)
  then show ?thesis
    by (auto simp: net_enqueue_def)
qed

text \<open>One reliable hop: a message sent on a quiet network is in its addressee's inbox a tick later.\<close>

definition quiet :: "SimulatedNetwork \<Rightarrow> bool" where
  "quiet net \<longleftrightarrow> faults net = no_faults \<and> inFlight net = []"

lemma reliable_send:
  assumes "quiet net" "\<not> isPartitioned net f t"
    and net': "net' = net_send net f t b"
  shows "faults net' = no_faults" "inFlight net' = [\<lparr>msg_from = f, msg_to = t, msg_bytes = b,
      msg_deliverAtTick = tickCounter net + 1\<rparr>]" "inbox_of net' k = inbox_of net k"
    "partitions net' = partitions net" "tickCounter net' = tickCounter net"
proof -
  from assms(1) have q: "faults net = no_faults" "inFlight net = []"
    by (simp_all add: quiet_def)
  from net_send_reliable [OF q(1) assms(2), of b] obtain r where
    "net' = (net_enqueue net f t b 0)\<lparr>rngState := r\<rparr>"
    unfolding net' ..
  then show "faults net' = no_faults" "inFlight net' = [\<lparr>msg_from = f, msg_to = t, msg_bytes = b,
      msg_deliverAtTick = tickCounter net + 1\<rparr>]" "inbox_of net' k = inbox_of net k"
    "partitions net' = partitions net" "tickCounter net' = tickCounter net"
    by (simp_all add: net_enqueue_def inbox_of_def q)
qed

lemma tick_delivers:
  assumes "faults net = no_faults" "inFlight net = [m]" "msg_deliverAtTick m = tickCounter net + 1"
  shows "quiet (net_tick net)"
    "inbox_of (net_tick net) k =
       inbox_of net k @ (if k = msg_to m then [(msg_from m, msg_bytes m)] else [])"
  using assms by (simp_all add: quiet_def net_tick_shape)

lemma pumpServer_one:
  assumes "inbox_of net n = [(f, b)]" "handleRequest handlers s b = (resp, s')"
  shows "pumpServer net n handlers s =
    (net_send (snd (receiveAll net n)) n (responsePort f) resp, s')"
  using assms receiveAll_inbox [of net n] by (cases "receiveAll net n") (simp add: pumpServer_def)

lemma pumpServer_none:
  assumes "inbox_of net n = []"
  shows "pumpServer net n handlers s = (snd (receiveAll net n), s)"
  using assms receiveAll_inbox [of net n] by (cases "receiveAll net n") (simp add: pumpServer_def)

lemma handleRequest_known:
  assumes "request_wf r" "handlers (req_method r) = Some h" "h s (req_payload r) = (res, s')"
  shows "handleRequest handlers s (serializeRequest r) =
      (serializeResponse \<lparr>resp_id = req_id r, resp_ok = True, resp_payload = res,
         resp_errorMessage = ''''\<rparr>, s')"
  using assms by (simp add: handleRequest_def parseRequest_serialize)

lemma call_loop_Suc:
  assumes "pumpServer (net_tick net) (cl_serverNode c) handlers s = (net2, s2)"
  shows "call_loop (Suc n) c i net handlers s =
    (case find_response i (inbox_of net2 (responsePort (cl_self c))) of
       Some r \<Rightarrow> (r, snd (receiveAll net2 (responsePort (cl_self c))), s2)
     | None \<Rightarrow> call_loop n c i (snd (receiveAll net2 (responsePort (cl_self c)))) handlers s2)"
  using assms receiveAll_inbox [of net2 "responsePort (cl_self c)"]
  by (cases "receiveAll net2 (responsePort (cl_self c))") (auto split: option.splits)

section \<open>Properties\<close>

text \<open>
  C10. The wire formats. Parsing a request accepts a byte string exactly when it is the serialization
  of a request whose fields fit their 32-bit length prefixes, and then returns that request. Parsing a
  response accepts exactly the bytes of a well-formed response in which the flag byte of a success may be
  any byte but 0 (the serializer writes 1), and returns that response; in particular every serialized
  response parses back. So no bytes are misread or left over, and no two requests or responses share an
  encoding.
\<close>

theorem request_wire_format:
  "(parseRequest bs = Some r \<longleftrightarrow> bs = serializeRequest r \<and> request_wf r) \<and>
   (parseResponse bs = Some q \<longleftrightarrow> response_wf q \<and> (\<exists>okByte. (resp_ok q \<longleftrightarrow> okByte \<noteq> 0) \<and> bs = response_bytes okByte q)) \<and>
   (parseResponse (serializeResponse q) = Some q \<longleftrightarrow> response_wf q)"
proof (intro conjI)
  show "parseRequest bs = Some r \<longleftrightarrow> bs = serializeRequest r \<and> request_wf r"
    using parseRequest_Some parseRequest_serialize by blast
  show "parseResponse bs = Some q \<longleftrightarrow> response_wf q \<and> (\<exists>okByte. (resp_ok q \<longleftrightarrow> okByte \<noteq> 0) \<and> bs = response_bytes okByte q)"
    using parseResponse_Some [of bs q] parseResponse_bytes by blast
  show "parseResponse (serializeResponse q) = Some q \<longleftrightarrow> response_wf q"
    using parseResponse_Some [of "serializeResponse q" q] parseResponse_serialize by blast
qed

text \<open>
  C11. Whatever byte string a server receives, its answer parses as a response: with the
  request's id for a well-formed request (the handler's result when the method is registered, an
  error naming the method when it is not), with id 0 and the text \<open>Malformed request\<close> for
  anything else.
\<close>

theorem handleRequest_answers:
  assumes "\<And>name h s p. handlers name = Some h \<Longrightarrow> blob_wf (fst (h s p))"
    and "\<And>r. parseRequest bs = Some r \<Longrightarrow> length (req_method r) < 2 ^ 32 - 16"
  shows "parseResponse (fst (handleRequest handlers s bs)) = Some
    (case parseRequest bs of
       None \<Rightarrow> \<lparr>resp_id = 0, resp_ok = False, resp_payload = [], resp_errorMessage = ''Malformed request''\<rparr>
     | Some r \<Rightarrow> (case handlers (req_method r) of
         None \<Rightarrow> \<lparr>resp_id = req_id r, resp_ok = False, resp_payload = [],
                  resp_errorMessage = ''Unknown method: '' @ req_method r\<rparr>
       | Some h \<Rightarrow> \<lparr>resp_id = req_id r, resp_ok = True, resp_payload = fst (h s (req_payload r)),
                    resp_errorMessage = ''''\<rparr>))"
proof (cases "parseRequest bs")
  case None
  then show ?thesis
    by (simp add: handleRequest_def parseResponse_serialize response_wf_def blob_wf_def)
next
  case (Some r)
  show ?thesis
  proof (cases "handlers (req_method r)")
    case None
    then show ?thesis
      using Some assms(2) [OF Some]
      by (simp add: handleRequest_def parseResponse_serialize response_wf_def blob_wf_def)
  next
    case known: (Some h)
    have "blob_wf (fst (h s (req_payload r)))"
      by (rule assms(1) [OF known])
    then show ?thesis
      using Some known
      by (cases "h s (req_payload r)")
        (simp add: handleRequest_def parseResponse_serialize response_wf_def blob_wf_def)
  qed
qed

theorem handleRequest_answers_witness:
  "parseResponse (fst (handleRequest [''ping'' \<mapsto> (\<lambda>s p. ([], s))] () [])) = Some
    (case parseRequest [] of
       None \<Rightarrow> \<lparr>resp_id = 0, resp_ok = False, resp_payload = [], resp_errorMessage = ''Malformed request''\<rparr>
     | Some r \<Rightarrow> (case [''ping'' \<mapsto> (\<lambda>s p. ([], s))] (req_method r) of
         None \<Rightarrow> \<lparr>resp_id = req_id r, resp_ok = False, resp_payload = [],
                  resp_errorMessage = ''Unknown method: '' @ req_method r\<rparr>
       | Some h \<Rightarrow> \<lparr>resp_id = req_id r, resp_ok = True, resp_payload = fst (h () (req_payload r)),
                    resp_errorMessage = ''''\<rparr>))"
proof -
  have none: "parseRequest [] = None"
    by (simp add: parseRequest_def dbind_def readU64_def decoder_of_def mk_decoder_def)
  show ?thesis
    by (rule handleRequest_answers) (auto simp: none blob_wf_def split: if_splits)
qed

text \<open>
  C12. A call on a quiet, fault-free network returns the handler's answer: with a budget of at
  least two ticks \<^verbatim>\<open>call\<close> reports success with exactly the payload the handler computed from
  the request, and the handler has run exactly once.
\<close>

theorem rpc_call_succeeds:
  fixes c :: RpcClient and s :: 's
  assumes "quiet net" "inbox_of net (cl_serverNode c) = []" "inbox_of net (responsePort (cl_self c)) = []"
    and "\<not> isPartitioned net (cl_self c) (cl_serverNode c)"
    and "\<not> isPartitioned net (cl_serverNode c) (responsePort (cl_self c))"
    and "cl_serverNode c \<noteq> responsePort (cl_self c)" "unat maxTicks = Suc (Suc n)"
    and "blob_wf name" "blob_wf payload" "handlers name = Some h" "h s payload = (res, s')" "blob_wf res"
  shows "\<exists>net'. rpc_call c net handlers s name payload maxTicks =
    (Call_Success res, c\<lparr>cl_nextRequestId := cl_nextRequestId c + 1\<rparr>, net', s')"
proof -
  let ?sv = "cl_serverNode c" and ?port = "responsePort (cl_self c)" and ?i = "cl_nextRequestId c"
  let ?req = "\<lparr>req_id = ?i, req_method = name, req_payload = payload\<rparr>"
  let ?resp = "\<lparr>resp_id = ?i, resp_ok = True, resp_payload = res, resp_errorMessage = ''''\<rparr>"
  define n0 where "n0 = net_send net (cl_self c) ?sv (serializeRequest ?req)"
  define n1 where "n1 = snd (receiveAll (net_tick n0) ?sv)"
  define n2 where "n2 = net_send n1 ?sv ?port (serializeResponse ?resp)"
  define n3 where "n3 = snd (receiveAll n2 ?port)"
  define n4 where "n4 = snd (receiveAll (net_tick n3) ?sv)"
  note s0 = reliable_send [OF assms(1,4) n0_def]
  have d1: "quiet (net_tick n0)" "inbox_of (net_tick n0) k =
      inbox_of net k @ (if k = ?sv then [(cl_self c, serializeRequest ?req)] else [])" for k
    using tick_delivers [of n0, OF s0(1,2)] s0(3,5) by simp_all
  have q1: "quiet n1" "partitions n1 = partitions net" "inbox_of n1 ?port = []" "inbox_of n1 ?sv = []"
    using d1 s0(4) assms(3,6) by (simp_all add: n1_def quiet_def frame_simps net_tick_shape(5))
  have "request_wf ?req"
    using assms(8,9) by (simp add: request_wf_def)
  then have h: "handleRequest handlers s (serializeRequest ?req) = (serializeResponse ?resp, s')"
    using handleRequest_known [of ?req handlers h s res s'] assms(10,11) by simp
  have first: "pumpServer (net_tick n0) ?sv handlers s = (n2, s')"
    unfolding n2_def n1_def using d1(2) [of ?sv] assms(2) h by (intro pumpServer_one) simp_all
  have "\<not> isPartitioned n1 ?sv ?port"
    using assms(5) q1(2) by (simp add: isPartitioned_def)
  note s2 = reliable_send [OF q1(1) this n2_def]
  have "faults n3 = no_faults" "inFlight n3 = [\<lparr>msg_from = ?sv, msg_to = ?port,
      msg_bytes = serializeResponse ?resp, msg_deliverAtTick = tickCounter n3 + 1\<rparr>]"
    using s2(1,2,5) by (simp_all add: n3_def frame_simps)
  from tick_delivers [OF this] have d3: "inbox_of (net_tick n3) k =
      inbox_of n3 k @ (if k = ?port then [(?sv, serializeResponse ?resp)] else [])" for k
    by simp
  have i3: "inbox_of n3 ?port = []" "inbox_of n3 ?sv = []"
    using s2(3) q1 assms(6) by (simp_all add: n3_def frame_simps)
  have second: "pumpServer (net_tick n3) ?sv handlers s' = (n4, s')"
    unfolding n4_def using d3 [of ?sv] i3 assms(6) by (intro pumpServer_none) simp
  have "parseResponse (serializeResponse ?resp) = Some ?resp"
    using assms(12) by (intro parseResponse_serialize) (simp add: response_wf_def blob_wf_def)
  then have "find_response ?i (inbox_of n4 ?port) = Some (Call_Success res)"
    using d3 [of ?port] i3(1) assms(6) by (simp add: n4_def frame_simps)
  moreover have "inbox_of n2 ?port = []"
    using s2(3) q1(3) by simp
  ultimately show ?thesis
    unfolding rpc_call_def Let_def n0_def [symmetric] assms(7)
    by (simp add: call_loop_Suc [OF first] call_loop_Suc [OF second] n3_def [symmetric]
        del: call_loop.simps)
qed

theorem rpc_call_succeeds_witness:
  "\<exists>net'. rpc_call (new_client 1 2) (new_network 7 no_faults) [''echo'' \<mapsto> (\<lambda>k p. (p, Suc k))] 0
     ''echo'' [1, 2, 3] 5 =
   (Call_Success [1, 2, 3], (new_client 1 2)\<lparr>cl_nextRequestId := cl_nextRequestId (new_client 1 2) + 1\<rparr>,
     net', Suc 0)"
  by (rule rpc_call_succeeds [where n = 3])
    (simp_all add: quiet_def new_network_def new_client_def inbox_of_def isPartitioned_def
      responsePort_def blob_wf_def)

text \<open>
  C13. Partitions do not stop responses. On a fault-free network a request from \<open>a\<close> has been delivered to
  the server \<open>b\<close>; then the two are partitioned, which drops every message sent between \<open>a\<close> and \<open>b\<close>, in both
  directions. The server, pumped behind the partition, still answers, and one tick later the answer is in
  \<open>a\<close>'s response inbox: \<^verbatim>\<open>pumpServer\<close> addresses it to \<^verbatim>\<open>responsePort(a)\<close>, which the partition does not name.
\<close>

theorem partition_does_not_block_responses:
  assumes "quiet net" "partitions net = []" "a \<noteq> responsePort a" "a \<noteq> b" "b \<noteq> responsePort a"
    and "inbox_of net b = [(a, request)]"
    and "pumpServer (net_partition net a b) b handlers s = (net1, s1)"
  shows "net_send (net_partition net a b) b a m = net_partition net a b \<and>
    net_send (net_partition net a b) a b m = net_partition net a b \<and>
    partitions net1 = [(a, b)] \<and> s1 = snd (handleRequest handlers s request) \<and>
    inbox_of (net_tick net1) (responsePort a) =
      inbox_of net (responsePort a) @ [(b, fst (handleRequest handlers s request))]"
proof -
  have p: "partitions (net_partition net a b) = [(a, b)]"
    and q: "quiet (net_partition net a b)" "inbox_of (net_partition net a b) k = inbox_of net k" for k
    using assms(1,2) by (simp_all add: net_partition_def isPartitioned_def quiet_def inbox_of_def)
  have blocked: "isPartitioned (net_partition net a b) a b" "isPartitioned (net_partition net a b) b a"
    by (simp_all add: isPartitioned_def p same_pair_def)
  obtain answer s' where h: "handleRequest handlers s request = (answer, s')"
    by fastforce
  let ?drained = "snd (receiveAll (net_partition net a b) b)"
  have net1: "net1 = net_send ?drained b (responsePort a) answer" "s1 = s'"
    using pumpServer_one [OF _ h, of "net_partition net a b" b a] assms(6,7) q(2) by simp_all
  have d: "quiet ?drained" "partitions ?drained = [(a, b)]" "inbox_of ?drained (responsePort a) = inbox_of net (responsePort a)"
    using q p assms(5) by (auto simp: quiet_def frame_simps)
  have open_port: "\<not> isPartitioned ?drained b (responsePort a)"
    using assms(3,4) by (auto simp: isPartitioned_def d(2) same_pair_def)
  note r = reliable_send [OF d(1) open_port net1(1)]
  show ?thesis
    using blocked tick_delivers(2) [OF r(1,2)] r(3,4,5) d(2,3) h net1(2) by (simp add: net_send_def)
qed

text \<open>Node 3 has sent the two bytes 9 9 to node 4, and they have arrived.\<close>

definition delivered_request :: SimulatedNetwork where
  "delivered_request = deliver (new_network 1 no_faults)
     \<lparr>msg_from = 3, msg_to = 4, msg_bytes = [9, 9], msg_deliverAtTick = 0\<rparr>"

theorem partition_does_not_block_responses_witness:
  "inbox_of (net_tick (fst (pumpServer (net_partition delivered_request 3 4) 4 Map.empty ()))) (responsePort 3) =
     inbox_of delivered_request (responsePort 3) @ [(4, fst (handleRequest Map.empty () [9, 9]))]"
proof -
  have net: "quiet delivered_request" "partitions delivered_request = []" "inbox_of delivered_request 4 = [(3, [9, 9])]"
    by (simp_all add: delivered_request_def quiet_def deliver_def new_network_def inbox_of_def)
  have ports: "(3 :: NodeId) \<noteq> responsePort 3" "(3 :: NodeId) \<noteq> 4" "(4 :: NodeId) \<noteq> responsePort 3"
    by (simp_all add: responsePort_def)
  show ?thesis
    by (rule partition_does_not_block_responses
        [OF net(1,2) ports net(3) prod.collapse [symmetric], THEN conjunct2, THEN conjunct2, THEN conjunct2, THEN conjunct2])
qed

end
