(* ===== verification/Raft.thy ===== *)
theory Raft
  imports Rpc
begin

text \<open>
  Raft leader election, \<^verbatim>\<open>07-distributed-systems/raft/raft.cpp\<close>: one node (\<^verbatim>\<open>RaftNode\<close>) with its
  RPC handlers, timers and response processing, and the cluster (\<^verbatim>\<open>RaftCluster\<close>) that drives
  all nodes over one simulated network, byte-encoded messages included.

  The safety proof over it is in \<^verbatim>\<open>RaftSafety\<close>.
\<close>

section \<open>Messages\<close>

definition encodeVoteRequest :: "u64 \<Rightarrow> NodeId \<Rightarrow> bytes" where
  "encodeVoteRequest term candidateId = writeU32 (writeU64 [] term) candidateId"

definition decodeVoteRequest :: "bytes \<Rightarrow> (u64 \<times> NodeId) option" where
  "decodeVoteRequest bs =
     dbind (readU64 (decoder_of bs)) (\<lambda>t d1. dbind (readU32 d1) (\<lambda>c d2.
       if atEnd d2 then Some (t, c) else None))"

definition encodeVoteResponse :: "u64 \<Rightarrow> bool \<Rightarrow> bytes" where
  "encodeVoteResponse term granted = writeU8 (writeU64 [] term) (if granted then 1 else 0)"

definition decodeVoteResponse :: "bytes \<Rightarrow> (u64 \<times> bool) option" where
  "decodeVoteResponse bs =
     dbind (readU64 (decoder_of bs)) (\<lambda>t d1. dbind (readU8 d1) (\<lambda>g d2.
       if atEnd d2 then Some (t, g \<noteq> 0) else None))"

definition encodeHeartbeat :: "u64 \<Rightarrow> NodeId \<Rightarrow> bytes" where
  "encodeHeartbeat term leaderId = writeU32 (writeU64 [] term) leaderId"

definition decodeHeartbeat :: "bytes \<Rightarrow> (u64 \<times> NodeId) option" where
  "decodeHeartbeat bs =
     dbind (readU64 (decoder_of bs)) (\<lambda>t d1. dbind (readU32 d1) (\<lambda>l d2.
       if atEnd d2 then Some (t, l) else None))"

definition encodeHeartbeatAck :: "u64 \<Rightarrow> bool \<Rightarrow> bytes" where
  "encodeHeartbeatAck term accepted = writeU8 (writeU64 [] term) (if accepted then 1 else 0)"

section \<open>One node\<close>

datatype RaftRole = Follower | Candidate | Leader

record RaftNode =
  rn_self :: NodeId
  rn_peers :: "NodeId list"
  currentRole :: RaftRole
  currentTerm :: u64
  votedForThisTerm :: "NodeId option"
  timeoutRngState :: u64
  minElectionTimeoutTicks :: u32
  maxElectionTimeoutTicks :: u32
  heartbeatIntervalTicks :: u32
  ticksUntilElectionTimeout :: u32
  ticksUntilNextHeartbeat :: u32
  votesReceived :: "NodeId set"

definition randomElectionTimeout :: "RaftNode \<Rightarrow> u32 \<times> RaftNode" where
  "randomElectionTimeout n =
     (let s = xorshift (timeoutRngState n);
          r = s * 0x2545F4914F6CDD1D;
          range = maxElectionTimeoutTicks n - minElectionTimeoutTicks n + 1
      in (minElectionTimeoutTicks n + ucast (r mod ucast range), n\<lparr>timeoutRngState := s\<rparr>))"

definition resetElectionTimer :: "RaftNode \<Rightarrow> RaftNode" where
  "resetElectionTimer n =
     (case randomElectionTimeout n of (t, n') \<Rightarrow> n'\<lparr>ticksUntilElectionTimeout := t\<rparr>)"

definition new_RaftNode :: "NodeId \<Rightarrow> NodeId list \<Rightarrow> u64 \<Rightarrow> u32 \<Rightarrow> u32 \<Rightarrow> u32 \<Rightarrow> RaftNode" where
  "new_RaftNode self peers timeoutSeed minT maxT hb =
     resetElectionTimer
       \<lparr>rn_self = self, rn_peers = peers, currentRole = Follower, currentTerm = 0,
        votedForThisTerm = None,
        timeoutRngState = (if timeoutSeed = 0 then 0x2545F4914F6CDD1D else timeoutSeed),
        minElectionTimeoutTicks = minT, maxElectionTimeoutTicks = maxT, heartbeatIntervalTicks = hb,
        ticksUntilElectionTimeout = 0, ticksUntilNextHeartbeat = hb, votesReceived = {}\<rparr>"

definition becomeFollower :: "RaftNode \<Rightarrow> u64 \<Rightarrow> RaftNode" where
  "becomeFollower n observedTerm =
     n\<lparr>currentTerm := observedTerm, currentRole := Follower, votedForThisTerm := None,
       votesReceived := {}\<rparr>"

definition handleRequestVote :: "RaftNode \<Rightarrow> bytes \<Rightarrow> bytes \<times> RaftNode" where
  "handleRequestVote n payload =
     (case decodeVoteRequest payload of
        None \<Rightarrow> (encodeVoteResponse (currentTerm n) False, n)
      | Some (requestTerm, candidateId) \<Rightarrow>
          let n1 = (if requestTerm > currentTerm n then becomeFollower n requestTerm else n) in
          if requestTerm = currentTerm n1 \<and>
             (votedForThisTerm n1 = None \<or> votedForThisTerm n1 = Some candidateId)
          then let n2 = resetElectionTimer (n1\<lparr>votedForThisTerm := Some candidateId\<rparr>)
               in (encodeVoteResponse (currentTerm n2) True, n2)
          else (encodeVoteResponse (currentTerm n1) False, n1))"

definition handleHeartbeat :: "RaftNode \<Rightarrow> bytes \<Rightarrow> bytes \<times> RaftNode" where
  "handleHeartbeat n payload =
     (case decodeHeartbeat payload of
        None \<Rightarrow> (encodeHeartbeatAck (currentTerm n) False, n)
      | Some (requestTerm, leaderId) \<Rightarrow>
          if requestTerm < currentTerm n then (encodeHeartbeatAck (currentTerm n) False, n)
          else let n1 = (if requestTerm > currentTerm n \<or> currentRole n \<noteq> Follower
                         then becomeFollower n requestTerm else n);
                   n2 = resetElectionTimer n1
               in (encodeHeartbeatAck (currentTerm n2) True, n2))"

definition wireHandlers :: "RaftNode RpcServer" where
  "wireHandlers =
     registerMethod (registerMethod Map.empty ''RequestVote'' handleRequestVote)
       ''Heartbeat'' handleHeartbeat"

fun send_to_all :: "SimulatedNetwork \<Rightarrow> NodeId \<Rightarrow> NodeId list \<Rightarrow> bytes \<Rightarrow> SimulatedNetwork" where
  "send_to_all net self [] bs = net"
| "send_to_all net self (peer # peers) bs = send_to_all (net_send net self peer bs) self peers bs"

definition raft_request :: "RaftNode \<Rightarrow> string \<Rightarrow> bytes \<Rightarrow> bytes" where
  "raft_request n methd payload =
     serializeRequest \<lparr>req_id = currentTerm n * 1000000 + ucast (rn_self n),
                       req_method = methd, req_payload = payload\<rparr>"

definition sendHeartbeats :: "SimulatedNetwork \<Rightarrow> RaftNode \<Rightarrow> SimulatedNetwork" where
  "sendHeartbeats net n =
     send_to_all net (rn_self n) (rn_peers n)
       (raft_request n ''Heartbeat'' (encodeHeartbeat (currentTerm n) (rn_self n)))"

definition becomeLeader :: "SimulatedNetwork \<Rightarrow> RaftNode \<Rightarrow> SimulatedNetwork \<times> RaftNode" where
  "becomeLeader net n =
     (let n1 = n\<lparr>currentRole := Leader, ticksUntilNextHeartbeat := 0\<rparr>;
          net1 = sendHeartbeats net n1
      in (net1, n1\<lparr>ticksUntilNextHeartbeat := heartbeatIntervalTicks n1\<rparr>))"

definition startElection :: "SimulatedNetwork \<Rightarrow> RaftNode \<Rightarrow> SimulatedNetwork \<times> RaftNode" where
  "startElection net n =
     (let n1 = resetElectionTimer
                 (n\<lparr>currentTerm := currentTerm n + 1, currentRole := Candidate,
                    votedForThisTerm := Some (rn_self n), votesReceived := {rn_self n}\<rparr>);
          bs = raft_request n1 ''RequestVote'' (encodeVoteRequest (currentTerm n1) (rn_self n1));
          net1 = send_to_all net (rn_self n1) (rn_peers n1) bs
      in if rn_peers n1 = [] then becomeLeader net1 n1 else (net1, n1))"

text \<open>One iteration of the loop of \<^verbatim>\<open>processIncomingResponses\<close>.\<close>

definition processResponse :: "SimulatedNetwork \<Rightarrow> RaftNode \<Rightarrow> NodeId \<Rightarrow> bytes \<Rightarrow>
    SimulatedNetwork \<times> RaftNode" where
  "processResponse net n from bs =
     (case parseResponse bs of
        None \<Rightarrow> (net, n)
      | Some response \<Rightarrow>
          if \<not> resp_ok response then (net, n)
          else case decodeVoteResponse (resp_payload response) of
            None \<Rightarrow> (net, n)
          | Some (responderTerm, granted) \<Rightarrow>
              if responderTerm > currentTerm n then (net, becomeFollower n responderTerm)
              else if currentRole n = Candidate \<and> responderTerm = currentTerm n \<and> granted then
                let n1 = n\<lparr>votesReceived := insert from (votesReceived n)\<rparr>;
                    clusterSize = word_of_nat (length (rn_peers n1)) + 1 :: u32;
                    majority = clusterSize div 2 + 1
                in if word_of_nat (card (votesReceived n1)) \<ge> majority then becomeLeader net n1
                   else (net, n1)
              else (net, n))"

fun process_loop :: "SimulatedNetwork \<Rightarrow> RaftNode \<Rightarrow> (NodeId \<times> bytes) list \<Rightarrow>
    SimulatedNetwork \<times> RaftNode" where
  "process_loop net n [] = (net, n)"
| "process_loop net n ((from, bs) # ms) =
     (case processResponse net n from bs of (net', n') \<Rightarrow> process_loop net' n' ms)"

definition processIncomingResponses :: "SimulatedNetwork \<Rightarrow> RaftNode \<Rightarrow> SimulatedNetwork \<times> RaftNode" where
  "processIncomingResponses net n =
     (case receiveAll net (responsePort (rn_self n)) of (ms, net') \<Rightarrow> process_loop net' n ms)"

definition raft_onTick :: "SimulatedNetwork \<Rightarrow> RaftNode \<Rightarrow> SimulatedNetwork \<times> RaftNode" where
  "raft_onTick net n =
     (if currentRole n = Leader then
        let n1 = (if ticksUntilNextHeartbeat n > 0
                  then n\<lparr>ticksUntilNextHeartbeat := ticksUntilNextHeartbeat n - 1\<rparr> else n)
        in if ticksUntilNextHeartbeat n1 = 0
           then (sendHeartbeats net n1, n1\<lparr>ticksUntilNextHeartbeat := heartbeatIntervalTicks n1\<rparr>)
           else (net, n1)
      else
        let n1 = (if ticksUntilElectionTimeout n > 0
                  then n\<lparr>ticksUntilElectionTimeout := ticksUntilElectionTimeout n - 1\<rparr> else n)
        in if ticksUntilElectionTimeout n1 = 0 then startElection net n1 else (net, n1))"

section \<open>The cluster\<close>

record RaftCluster =
  rc_net :: SimulatedNetwork
  rc_nodes :: "RaftNode list"

definition cluster_node :: "nat \<Rightarrow> u64 \<Rightarrow> nat \<Rightarrow> RaftNode" where
  "cluster_node nodeCount timeoutSeed i =
     new_RaftNode (word_of_nat i)
       (map word_of_nat (filter (\<lambda>j. j \<noteq> i) [0..<nodeCount]))
       (timeoutSeed XOR (word_of_nat i * 0x9E3779B97F4A7C15)) 10 20 3"

definition new_RaftCluster :: "u32 \<Rightarrow> u64 \<Rightarrow> FaultConfig \<Rightarrow> u64 \<Rightarrow> RaftCluster" where
  "new_RaftCluster nodeCount networkSeed fc timeoutSeed =
     \<lparr>rc_net = new_network networkSeed fc,
      rc_nodes = map (cluster_node (unat nodeCount) timeoutSeed) [0..<unat nodeCount]\<rparr>"

text \<open>A \<^verbatim>\<open>for (auto& n : nodes)\<close> loop whose body updates the shared network and the node.\<close>

fun for_nodes :: "(SimulatedNetwork \<Rightarrow> RaftNode \<Rightarrow> SimulatedNetwork \<times> RaftNode) \<Rightarrow>
    nat list \<Rightarrow> RaftCluster \<Rightarrow> RaftCluster" where
  "for_nodes f [] c = c"
| "for_nodes f (i # is) c =
     (case f (rc_net c) (rc_nodes c ! i) of (net', n') \<Rightarrow>
        for_nodes f is \<lparr>rc_net = net', rc_nodes = (rc_nodes c)[i := n']\<rparr>)"

definition raft_pump :: "SimulatedNetwork \<Rightarrow> RaftNode \<Rightarrow> SimulatedNetwork \<times> RaftNode" where
  "raft_pump net n = pumpServer net (rn_self n) wireHandlers n"

definition cluster_tick :: "RaftCluster \<Rightarrow> RaftCluster" where
  "cluster_tick c =
     (let is = [0..<length (rc_nodes c)];
          c1 = c\<lparr>rc_net := net_tick (rc_net c)\<rparr>;
          c2 = for_nodes raft_pump is c1;
          c3 = for_nodes processIncomingResponses is c2
      in for_nodes raft_onTick is c3)"

definition tickMany :: "RaftCluster \<Rightarrow> u32 \<Rightarrow> RaftCluster" where
  "tickMany c count = (cluster_tick ^^ unat count) c"

definition currentLeaders :: "RaftCluster \<Rightarrow> NodeId list" where
  "currentLeaders c = map rn_self (filter (\<lambda>n. currentRole n = Leader) (rc_nodes c))"

definition hasLeader :: "RaftCluster \<Rightarrow> bool" where
  "hasLeader c \<longleftrightarrow> currentLeaders c \<noteq> []"

section \<open>Message codecs\<close>

lemma decode_id_message:
  "dbind (readU64 (decoder_of (be64 t @ be32 c))) (\<lambda>t d1. dbind (readU32 d1) (\<lambda>c d2.
     if atEnd d2 then Some (t, c) else None)) = Some (t, c)"
  by (intro u64.dbind_writeI [where x = t and r = "be32 c"] u32.dbind_writeI [where x = c and r = "[]"])
    (simp_all add: atEnd_dview)

lemma decodeVoteRequest_encode: "decodeVoteRequest (encodeVoteRequest t c) = Some (t, c)"
  by (simp add: decodeVoteRequest_def encodeVoteRequest_def encoder_simps decode_id_message)

lemma decodeHeartbeat_encode: "decodeHeartbeat (encodeHeartbeat t c) = Some (t, c)"
  by (simp add: decodeHeartbeat_def encodeHeartbeat_def encoder_simps decode_id_message)

lemma decodeVoteResponse_encode: "decodeVoteResponse (encodeVoteResponse t g) = Some (t, g)"
  unfolding decodeVoteResponse_def
  by (intro u64.dbind_writeI [where x = t and r = "[if g then 1 else 0]"]
      u8.dbind_writeI [where x = "if g then 1 else 0" and r = "[]"])
    (simp_all add: encodeVoteResponse_def encoder_simps atEnd_dview)

text \<open>A heartbeat acknowledgement is byte for byte a vote response.\<close>

lemma heartbeatAck_is_voteResponse: "encodeHeartbeatAck t g = encodeVoteResponse t g"
  by (simp add: encodeHeartbeatAck_def encodeVoteResponse_def)

lemma raft_request_wf:
  "request_wf \<lparr>req_id = i, req_method = ''RequestVote'', req_payload = encodeVoteRequest t c\<rparr>"
  "request_wf \<lparr>req_id = i, req_method = ''Heartbeat'', req_payload = encodeHeartbeat t c\<rparr>"
  by (simp_all add: request_wf_def blob_wf_def encodeVoteRequest_def encodeHeartbeat_def encoder_simps)

definition vote_request_bytes :: "u64 \<Rightarrow> u64 \<Rightarrow> NodeId \<Rightarrow> bytes" where
  "vote_request_bytes i t c = serializeRequest
     \<lparr>req_id = i, req_method = ''RequestVote'', req_payload = encodeVoteRequest t c\<rparr>"

definition heartbeat_bytes :: "u64 \<Rightarrow> u64 \<Rightarrow> NodeId \<Rightarrow> bytes" where
  "heartbeat_bytes i t c = serializeRequest
     \<lparr>req_id = i, req_method = ''Heartbeat'', req_payload = encodeHeartbeat t c\<rparr>"

definition vote_response_bytes :: "u64 \<Rightarrow> u64 \<Rightarrow> bool \<Rightarrow> bytes" where
  "vote_response_bytes i t g = serializeResponse
     \<lparr>resp_id = i, resp_ok = True, resp_payload = encodeVoteResponse t g, resp_errorMessage = ''''\<rparr>"

lemma parse_vote_response:
  "parseResponse (vote_response_bytes i t g) = Some
     \<lparr>resp_id = i, resp_ok = True, resp_payload = encodeVoteResponse t g, resp_errorMessage = ''''\<rparr>"
  unfolding vote_response_bytes_def
  by (rule parseResponse_serialize)
    (simp add: response_wf_def blob_wf_def encodeVoteResponse_def encoder_simps)

lemma wireHandlers_lookup:
  "wireHandlers ''RequestVote'' = Some handleRequestVote" "wireHandlers ''Heartbeat'' = Some handleHeartbeat"
  by (simp_all add: wireHandlers_def registerMethod_def)

lemma handle_vote_request:
  assumes "handleRequestVote n (encodeVoteRequest t c) = (encodeVoteResponse T g, n')"
  shows "handleRequest wireHandlers n (vote_request_bytes i t c) = (vote_response_bytes i T g, n')"
  unfolding vote_request_bytes_def vote_response_bytes_def
  using handleRequest_known [OF raft_request_wf(1), where handlers = wireHandlers and h = handleRequestVote and s = n] assms
  by (simp add: wireHandlers_lookup)

lemma handle_heartbeat:
  assumes "handleHeartbeat n (encodeHeartbeat t c) = (encodeVoteResponse T g, n')"
  shows "handleRequest wireHandlers n (heartbeat_bytes i t c) = (vote_response_bytes i T g, n')"
  unfolding heartbeat_bytes_def vote_response_bytes_def
  using handleRequest_known [OF raft_request_wf(2), where handlers = wireHandlers and h = handleHeartbeat and s = n] assms
  by (simp add: wireHandlers_lookup)

section \<open>Frames\<close>

text \<open>The fields the safety argument reads; the timers and the generator are not among them.\<close>

definition same_core :: "RaftNode \<Rightarrow> RaftNode \<Rightarrow> bool" where
  "same_core a b \<longleftrightarrow> rn_self a = rn_self b \<and> rn_peers a = rn_peers b \<and> currentRole a = currentRole b \<and>
     currentTerm a = currentTerm b \<and> votedForThisTerm a = votedForThisTerm b \<and>
     votesReceived a = votesReceived b"

lemma resetElectionTimer_frame [frame_simps]:
  "rn_self (resetElectionTimer n) = rn_self n" "rn_peers (resetElectionTimer n) = rn_peers n"
  "currentRole (resetElectionTimer n) = currentRole n"
  "currentTerm (resetElectionTimer n) = currentTerm n"
  "votedForThisTerm (resetElectionTimer n) = votedForThisTerm n"
  "votesReceived (resetElectionTimer n) = votesReceived n"
  by (simp_all add: resetElectionTimer_def randomElectionTimeout_def Let_def)

lemma becomeFollower_frame [frame_simps]:
  "rn_self (becomeFollower n t) = rn_self n" "rn_peers (becomeFollower n t) = rn_peers n"
  "currentRole (becomeFollower n t) = Follower" "currentTerm (becomeFollower n t) = t"
  "votedForThisTerm (becomeFollower n t) = None" "votesReceived (becomeFollower n t) = {}"
  by (simp_all add: becomeFollower_def)

section \<open>The vote rule\<close>

text \<open>
  C14. \<^verbatim>\<open>handleRequestVote\<close> on every branch. A malformed payload is refused and changes nothing.
  Otherwise the node answers with the larger of the two terms and moves to it; it grants the vote
  exactly if the request's term is newer than its own, or equal to it while its vote of the term is
  free or already the candidate's; a newer term makes it a follower, and only a grant records the
  candidate.
\<close>

theorem handleRequestVote_rule:
  "case decodeVoteRequest payload of
     None \<Rightarrow> handleRequestVote n payload = (encodeVoteResponse (currentTerm n) False, n)
   | Some (t, c) \<Rightarrow>
       let newer = currentTerm n < t;
           grant = newer \<or> t = currentTerm n \<and> votedForThisTerm n \<in> {None, Some c};
           n' = snd (handleRequestVote n payload)
       in fst (handleRequestVote n payload) = encodeVoteResponse (max t (currentTerm n)) grant \<and>
          currentTerm n' = max t (currentTerm n) \<and>
          currentRole n' = (if newer then Follower else currentRole n) \<and>
          votedForThisTerm n' = (if grant then Some c else votedForThisTerm n) \<and>
          votesReceived n' = (if newer then {} else votesReceived n)"
proof (cases "decodeVoteRequest payload")
  case None
  then show ?thesis
    by (simp add: handleRequestVote_def)
next
  case (Some p)
  obtain t c where p: "p = (t, c)"
    by fastforce
  consider "t > currentTerm n" | "t = currentTerm n" | "t < currentTerm n"
    by (rule linorder_cases)
  then show ?thesis
    by cases (auto simp: Some p handleRequestVote_def Let_def frame_simps max_def)
qed

end
