(* ===== verification/RaftSafety.thy ===== *)
theory RaftSafety
  imports Raft
begin

text \<open>
  Election safety of the Raft model over whole runs: no two nodes are ever leader of the same term,
  for every cluster size, seed and fault configuration and for every interleaving of ticks with
  partitions and heals. The proof carries a history of the votes granted to others and of the
  terms won (\<open>G\<close>, \<open>W\<close>), with one preservation lemma per operation.
\<close>

section \<open>Vote history\<close>

text \<open>
  \<open>G t v c\<close>: node \<open>v\<close> has granted its vote of term \<open>t\<close> to another node \<open>c\<close>.
  \<open>W t c\<close>: node \<open>c\<close> has been leader of term \<open>t\<close>. \<open>N\<close> is the cluster size.
\<close>

type_synonym votes = "u64 \<Rightarrow> NodeId \<Rightarrow> NodeId \<Rightarrow> bool"
type_synonym wins = "u64 \<Rightarrow> NodeId \<Rightarrow> bool"

definition quorum :: "nat \<Rightarrow> votes \<Rightarrow> u64 \<Rightarrow> NodeId \<Rightarrow> bool" where
  "quorum N G t c \<longleftrightarrow> (\<exists>S. S \<subseteq> {u. unat u < N} \<and> N div 2 < card S \<and> c \<in> S \<and> (\<forall>u \<in> S. u = c \<or> G t u c))"

text \<open>
  Of a node: its votes go to other nodes, in terms up to its own, at most one per term, and it is a
  follower that remembers the vote while the term lasts; a term it has won ends its candidacies, it
  has voted for nobody in it, and a quorum voted for it; a leader has won its term, a candidate has
  only recorded granted votes.
\<close>

definition votes_ok :: "votes \<Rightarrow> NodeId \<Rightarrow> RaftNode \<Rightarrow> bool" where
  "votes_ok G v n \<longleftrightarrow>
     (\<forall>t c. G t v c \<longrightarrow> c \<noteq> v \<and> t \<le> currentTerm n) \<and>
     (\<forall>c. G (currentTerm n) v c \<longrightarrow> currentRole n = Follower \<and> votedForThisTerm n = Some c) \<and>
     (\<forall>t c c'. G t v c \<longrightarrow> G t v c' \<longrightarrow> c = c')"

definition wins_ok :: "nat \<Rightarrow> votes \<Rightarrow> wins \<Rightarrow> NodeId \<Rightarrow> RaftNode \<Rightarrow> bool" where
  "wins_ok N G W v n \<longleftrightarrow>
     (\<forall>t. W t v \<longrightarrow> t \<le> currentTerm n \<and> (\<forall>c. \<not> G t v c) \<and> quorum N G t v) \<and>
     (W (currentTerm n) v \<longrightarrow> currentRole n = Leader)"

definition role_ok :: "nat \<Rightarrow> votes \<Rightarrow> wins \<Rightarrow> NodeId \<Rightarrow> RaftNode \<Rightarrow> bool" where
  "role_ok N G W v n \<longleftrightarrow>
     (currentRole n = Leader \<longrightarrow> W (currentTerm n) v) \<and>
     (currentRole n \<noteq> Follower \<longrightarrow> votedForThisTerm n = Some v) \<and>
     (currentRole n = Candidate \<longrightarrow> v \<in> votesReceived n \<and> votesReceived n \<subseteq> {u. unat u < N} \<and>
        (\<forall>u \<in> votesReceived n. u = v \<or> G (currentTerm n) u v))"

definition node_ok :: "nat \<Rightarrow> nat \<Rightarrow> votes \<Rightarrow> wins \<Rightarrow> NodeId \<Rightarrow> RaftNode \<Rightarrow> bool" where
  "node_ok N k G W v n \<longleftrightarrow>
     rn_self n = v \<and> set (rn_peers n) = {u. unat u < N} - {v} \<and> Suc (length (rn_peers n)) = N \<and>
     unat (currentTerm n) \<le> k \<and> votes_ok G v n \<and> wins_ok N G W v n \<and> role_ok N G W v n"

definition nodes_ok :: "nat \<Rightarrow> nat \<Rightarrow> votes \<Rightarrow> wins \<Rightarrow> RaftNode list \<Rightarrow> bool" where
  "nodes_ok N k G W ns \<longleftrightarrow> N \<le> 2 ^ 30 \<and> length ns = N \<and>
     (\<forall>v. unat v < N \<longrightarrow> node_ok N k G W v (ns ! unat v)) \<and>
     (\<forall>t v c. G t v c \<longrightarrow> unat v < N) \<and> (\<forall>t c. W t c \<longrightarrow> unat c < N)"

inductive msg_ok :: "nat \<Rightarrow> nat \<Rightarrow> votes \<Rightarrow> wins \<Rightarrow> NodeId \<Rightarrow> NodeId \<Rightarrow> bytes \<Rightarrow> bool"
  for N k G W where
  vote_request: "unat f < N \<Longrightarrow> unat t < N \<Longrightarrow> f \<noteq> t \<Longrightarrow> unat T \<le> k \<Longrightarrow>
     msg_ok N k G W f t (vote_request_bytes i T f)"
| heartbeat: "unat f < N \<Longrightarrow> unat t < N \<Longrightarrow> f \<noteq> t \<Longrightarrow> unat T \<le> k \<Longrightarrow> W T f \<Longrightarrow>
     msg_ok N k G W f t (heartbeat_bytes i T f)"
| response: "unat f < N \<Longrightarrow> unat v < N \<Longrightarrow> unat T \<le> k \<Longrightarrow> (g \<Longrightarrow> G T f v \<or> W T v) \<Longrightarrow>
     msg_ok N k G W f (responsePort v) (vote_response_bytes i T g)"

definition net_ok :: "nat \<Rightarrow> nat \<Rightarrow> votes \<Rightarrow> wins \<Rightarrow> SimulatedNetwork \<Rightarrow> bool" where
  "net_ok N k G W net \<longleftrightarrow> (\<forall>f t b. net_has net f t b \<longrightarrow> msg_ok N k G W f t b)"

text \<open>Histories only grow.\<close>

definition extends :: "nat \<Rightarrow> votes \<Rightarrow> wins \<Rightarrow> nat \<Rightarrow> votes \<Rightarrow> wins \<Rightarrow> bool" where
  "extends k G W k' G' W' \<longleftrightarrow> k \<le> k' \<and> (\<forall>t v c. G t v c \<longrightarrow> G' t v c) \<and> (\<forall>t c. W t c \<longrightarrow> W' t c)"

lemma extends_refl: "extends k G W k G W"
  by (simp add: extends_def)

lemma extends_trans: "extends k G W k1 G1 W1 \<Longrightarrow> extends k1 G1 W1 k2 G2 W2 \<Longrightarrow> extends k G W k2 G2 W2"
  by (auto simp: extends_def)

lemma quorum_mono: "quorum N G t c \<Longrightarrow> (\<And>t v c. G t v c \<Longrightarrow> G' t v c) \<Longrightarrow> quorum N G' t c"
  unfolding quorum_def by meson

lemma msg_ok_mono: "msg_ok N k G W f t b \<Longrightarrow> extends k G W k' G' W' \<Longrightarrow> msg_ok N k' G' W' f t b"
  by (induction rule: msg_ok.induct) (auto simp: extends_def intro!: msg_ok.intros)

lemma net_ok_mono: "net_ok N k G W net \<Longrightarrow> extends k G W k' G' W' \<Longrightarrow> net_ok N k' G' W' net"
  by (auto simp: net_ok_def intro: msg_ok_mono)

lemma votes_okI:
  assumes "\<And>t c. G t v c \<Longrightarrow> c \<noteq> v \<and> t \<le> currentTerm n"
    and "\<And>c. G (currentTerm n) v c \<Longrightarrow> currentRole n = Follower \<and> votedForThisTerm n = Some c"
    and "\<And>t c c'. G t v c \<Longrightarrow> G t v c' \<Longrightarrow> c = c'"
  shows "votes_ok G v n"
  using assms unfolding votes_ok_def by blast

lemma votes_okD:
  assumes "votes_ok G v n" "G t v c"
  shows "c \<noteq> v" "t \<le> currentTerm n" "G t v c' \<Longrightarrow> c = c'"
    "t = currentTerm n \<Longrightarrow> currentRole n = Follower" "t = currentTerm n \<Longrightarrow> votedForThisTerm n = Some c"
  using assms unfolding votes_ok_def by blast+

lemma wins_okI:
  assumes "\<And>t. W t v \<Longrightarrow> t \<le> currentTerm n" "\<And>t c. W t v \<Longrightarrow> \<not> G t v c" "\<And>t. W t v \<Longrightarrow> quorum N G t v"
    and "W (currentTerm n) v \<Longrightarrow> currentRole n = Leader"
  shows "wins_ok N G W v n"
  using assms unfolding wins_ok_def by blast

lemma wins_okD:
  assumes "wins_ok N G W v n" "W t v"
  shows "t \<le> currentTerm n" "\<not> G t v c" "quorum N G t v" "t = currentTerm n \<Longrightarrow> currentRole n = Leader"
  using assms unfolding wins_ok_def by blast+

lemma node_okI:
  assumes "node_ok N k0 G0 W0 v n" "rn_self n' = rn_self n" "rn_peers n' = rn_peers n"
    and "unat (currentTerm n') \<le> k" "votes_ok G v n'" "wins_ok N G W v n'" "role_ok N G W v n'"
  shows "node_ok N k G W v n'"
  using assms by (simp add: node_ok_def)

lemma node_okD:
  assumes "node_ok N k G W v n"
  shows "rn_self n = v" "set (rn_peers n) = {u. unat u < N} - {v}" "Suc (length (rn_peers n)) = N"
    "unat (currentTerm n) \<le> k" "votes_ok G v n" "wins_ok N G W v n" "role_ok N G W v n"
  using assms by (simp_all add: node_ok_def)

lemmas role_okD = role_ok_def [THEN iffD1, THEN conjunct1, rule_format]
  role_ok_def [THEN iffD1, THEN conjunct2, THEN conjunct1, rule_format]

text \<open>A node whose own votes and wins are not touched stays valid when the histories grow.\<close>

lemma node_ok_mono:
  assumes n: "node_ok N k G W v n" and ext: "extends k G W k' G' W'"
    and "\<And>t c. G' t v c \<Longrightarrow> G t v c" "\<And>t. W' t v \<Longrightarrow> W t v"
  shows "node_ok N k' G' W' v n"
proof (rule node_okI [OF n])
  have own: "G' t v c = G t v c" "W' t v = W t v" for t c
    using assms by (auto simp: extends_def)
  have q: "quorum N G t v \<Longrightarrow> quorum N G' t v" for t
    by (erule quorum_mono) (use ext in \<open>simp add: extends_def\<close>)
  show "votes_ok G' v n"
    using node_okD(5) [OF n] by (simp add: votes_ok_def own)
  show "wins_ok N G' W' v n"
    using node_okD(6) [OF n] q by (simp add: wins_ok_def own)
  show "role_ok N G' W' v n"
    using node_okD(7) [OF n] ext unfolding role_ok_def extends_def own by blast
  show "unat (currentTerm n) \<le> k'"
    using node_okD(4) [OF n] ext by (simp add: extends_def)
qed simp_all

lemma node_ok_cong: "same_core n n' \<Longrightarrow> node_ok N k G W v n = node_ok N k G W v n'"
  by (simp add: same_core_def node_ok_def votes_ok_def wins_ok_def role_ok_def)

lemma nodes_ok_node: "nodes_ok N k G W ns \<Longrightarrow> unat v < N \<Longrightarrow> node_ok N k G W v (ns ! unat v)"
  by (simp add: nodes_ok_def)

lemma nodes_update:
  assumes ns: "nodes_ok N k G W ns" and v: "unat v < N" and ext: "extends k G W k' G' W'"
    and G': "\<And>t u c. G' t u c \<Longrightarrow> G t u c \<or> u = v" and W': "\<And>t u. W' t u \<Longrightarrow> W t u \<or> u = v"
    and n': "node_ok N k' G' W' v n'"
  shows "nodes_ok N k' G' W' (ns[unat v := n'])"
proof -
  have len: "length ns = N"
    using ns by (simp add: nodes_ok_def)
  have "node_ok N k' G' W' u (ns[unat v := n'] ! unat u)" if "unat u < N" for u
  proof (cases "u = v")
    case True
    with len v n' show ?thesis
      by simp
  next
    case False
    then have "unat u \<noteq> unat v"
      by (simp add: word_unat_eq_iff)
    then have "ns[unat v := n'] ! unat u = ns ! unat u"
      by simp
    moreover have "node_ok N k' G' W' u (ns ! unat u)"
      by (rule node_ok_mono [OF nodes_ok_node [OF ns that] ext]) (use G' W' False in blast)+
    ultimately show ?thesis
      by simp
  qed
  moreover have "unat u < N" if "G' t u c" for t u c
    using G' [OF that] ns v by (auto simp: nodes_ok_def)
  moreover have "unat u < N" if "W' t u" for t u
    using W' [OF that] ns v by (auto simp: nodes_ok_def)
  ultimately show ?thesis
    using ns by (simp add: nodes_ok_def)
qed

text \<open>Two majorities of the same cluster share a node, so a term has one winner.\<close>

lemma card_ids_le: "card {u :: NodeId. unat u < N} \<le> N"
proof -
  have "inj_on unat {u :: NodeId. unat u < N}"
    by (simp add: inj_on_def word_unat_eq_iff)
  moreover have "unat ` {u :: NodeId. unat u < N} \<subseteq> {..<N}"
    by auto
  ultimately have "card {u :: NodeId. unat u < N} \<le> card {..<N}"
    by (rule card_inj_on_le) simp
  then show ?thesis
    by simp
qed

lemma majorities_meet:
  assumes "S \<subseteq> {u :: NodeId. unat u < N}" "S' \<subseteq> {u. unat u < N}" "N div 2 < card S" "N div 2 < card S'"
  shows "S \<inter> S' \<noteq> {}"
proof
  assume "S \<inter> S' = {}"
  then have "card S + card S' = card (S \<union> S')"
    by (simp add: card_Un_disjoint)
  also have "\<dots> \<le> card {u :: NodeId. unat u < N}"
    using assms(1,2) by (intro card_mono) auto
  also have "\<dots> \<le> N"
    by (rule card_ids_le)
  finally show False
    using assms(3,4) by linarith
qed

lemma win_unique:
  assumes ns: "nodes_ok N k G W ns" and w: "W t c" "W t c'"
  shows "c = c'"
proof (rule ccontr)
  assume neq: "c \<noteq> c'"
  have facts: "quorum N G t x" "\<not> G t x y" if "W t x" for x y
  proof -
    have "unat x < N"
      using ns that by (auto simp: nodes_ok_def)
    from node_okD(6) [OF nodes_ok_node [OF ns this]] wins_okD that show "quorum N G t x" "\<not> G t x y"
      by blast+
  qed
  from facts(1) [OF w(1)] obtain S where S: "S \<subseteq> {u. unat u < N}" "N div 2 < card S"
    "\<And>u. u \<in> S \<Longrightarrow> u = c \<or> G t u c"
    unfolding quorum_def by blast
  from facts(1) [OF w(2)] obtain S' where S': "S' \<subseteq> {u. unat u < N}" "N div 2 < card S'"
    "\<And>u. u \<in> S' \<Longrightarrow> u = c' \<or> G t u c'"
    unfolding quorum_def by blast
  from majorities_meet [OF S(1) S'(1) S(2) S'(2)] obtain u where u: "u \<in> S" "u \<in> S'"
    by blast
  have "u = c \<or> G t u c" "u = c' \<or> G t u c'"
    using S(3) S'(3) u by blast+
  then have "G t u c" "G t u c'"
    using facts(2) [OF w(1)] facts(2) [OF w(2)] neq by blast+
  moreover have "unat u < N"
    using S(1) u(1) by blast
  ultimately show False
    using votes_okD(3) [OF node_okD(5) [OF nodes_ok_node [OF ns]]] neq by blast
qed

section \<open>Every transition of a node keeps it valid\<close>

lemma node_ok_newer_term:
  assumes n: "node_ok N k G W v n" and T: "currentTerm n < T" "unat T \<le> k"
  shows "node_ok N k G W v (becomeFollower n T)"
proof (rule node_okI [OF n])
  have newer: "t \<le> currentTerm n \<Longrightarrow> t \<le> T \<and> t \<noteq> T" for t
    using T(1) by auto
  have no_vote: "\<not> G T v c" and no_win: "\<not> W T v" for c
    using newer votes_okD(2) [OF node_okD(5) [OF n]] wins_okD(1) [OF node_okD(6) [OF n]] by blast+
  show "votes_ok G v (becomeFollower n T)"
    by (rule votes_okI; (unfold frame_simps)?)
      (use newer no_vote votes_okD(1-3) [OF node_okD(5) [OF n]] in blast)+
  show "wins_ok N G W v (becomeFollower n T)"
    by (rule wins_okI; (unfold frame_simps)?)
      (use newer no_win wins_okD(1-3) [OF node_okD(6) [OF n]] in blast)+
qed (use T in \<open>simp_all add: frame_simps role_ok_def\<close>)

lemma node_ok_step_down:
  assumes n: "node_ok N k G W v n" and role: "currentRole n = Candidate"
  shows "node_ok N k G W v (becomeFollower n (currentTerm n))"
proof (rule node_okI [OF n])
  have no_vote: "\<not> G (currentTerm n) v c" and no_win: "\<not> W (currentTerm n) v" for c
    using role votes_okD(4) [OF node_okD(5) [OF n]] wins_okD(4) [OF node_okD(6) [OF n]] by fastforce+
  show "votes_ok G v (becomeFollower n (currentTerm n))"
    by (rule votes_okI; (unfold frame_simps)?) (use no_vote votes_okD(1-3) [OF node_okD(5) [OF n]] in blast)+
  show "wins_ok N G W v (becomeFollower n (currentTerm n))"
    by (rule wins_okI; (unfold frame_simps)?) (use no_win wins_okD(1-3) [OF node_okD(6) [OF n]] in blast)+
qed (use node_okD(4) [OF n] in \<open>simp_all add: frame_simps role_ok_def\<close>)

definition add_vote :: "votes \<Rightarrow> u64 \<Rightarrow> NodeId \<Rightarrow> NodeId \<Rightarrow> votes" where
  "add_vote G T v c = (\<lambda>t u x. G t u x \<or> t = T \<and> u = v \<and> x = c)"

definition add_win :: "wins \<Rightarrow> u64 \<Rightarrow> NodeId \<Rightarrow> wins" where
  "add_win W T c = (\<lambda>t u. W t u \<or> t = T \<and> u = c)"

lemma extends_add: "extends k G W k (add_vote G T v c) W" "extends k G W k G (add_win W T c)"
  by (simp_all add: extends_def add_vote_def add_win_def)

lemma node_ok_grant:
  assumes n: "node_ok N k G W v n" and c: "c \<noteq> v"
    and free: "votedForThisTerm n = None \<or> votedForThisTerm n = Some c"
  shows "node_ok N k (add_vote G (currentTerm n) v c) W v (n\<lparr>votedForThisTerm := Some c\<rparr>)"
proof (rule node_okI [OF n])
  let ?G = "add_vote G (currentTerm n) v c"
  have role: "currentRole n = Follower"
    using node_okD(7) [OF n] c free by (auto simp: role_ok_def)
  have same: "x = c" if "G (currentTerm n) v x" for x
    using votes_okD(5) [OF node_okD(5) [OF n] that] free by auto
  have vote: "?G t v x \<Longrightarrow> G t v x \<or> t = currentTerm n \<and> x = c" for t x
    by (simp add: add_vote_def)
  have now: "?G (currentTerm n) v x \<Longrightarrow> x = c" for x
    using vote same by blast
  show "votes_ok ?G v (n\<lparr>votedForThisTerm := Some c\<rparr>)"
  proof (rule votes_okI)
    fix t x
    assume x: "?G t v x"
    show "x \<noteq> v \<and> t \<le> currentTerm (n\<lparr>votedForThisTerm := Some c\<rparr>)"
      using vote [OF x] c votes_okD(1,2) [OF node_okD(5) [OF n]] by auto
    fix y
    assume y: "?G t v y"
    show "x = y"
    proof (cases "t = currentTerm n")
      case True
      with x y now show ?thesis
        by blast
    next
      case False
      with vote [OF x] vote [OF y] votes_okD(3) [OF node_okD(5) [OF n]] show ?thesis
        by blast
    qed
  qed (use role now in auto)
  have "\<not> W (currentTerm n) v"
    using wins_okD(4) [OF node_okD(6) [OF n]] role by fastforce
  then show "wins_ok N ?G W v (n\<lparr>votedForThisTerm := Some c\<rparr>)"
    using node_okD(6) [OF n] quorum_mono [of N G _ v ?G]
    unfolding wins_ok_def by (auto simp: add_vote_def)
qed (use node_okD(4,7) [OF n] c free in \<open>auto simp: role_ok_def\<close>)

lemma node_ok_win:
  assumes n: "node_ok N k G W v n" and role: "currentRole n = Candidate"
    and maj: "N div 2 < card (votesReceived n)"
  shows "node_ok N k G (add_win W (currentTerm n) v) v (n\<lparr>currentRole := Leader\<rparr>)"
proof (rule node_okI [OF n])
  have q: "quorum N G (currentTerm n) v"
    using node_okD(7) [OF n] role maj unfolding role_ok_def quorum_def by blast
  have g: "\<not> G (currentTerm n) v c" for c
    using votes_okD(4) [OF node_okD(5) [OF n]] role by fastforce
  show "votes_ok G v (n\<lparr>currentRole := Leader\<rparr>)"
    using node_okD(5) [OF n] g by (simp add: votes_ok_def)
  show "wins_ok N G (add_win W (currentTerm n) v) v (n\<lparr>currentRole := Leader\<rparr>)"
    using node_okD(6) [OF n] q g unfolding wins_ok_def add_win_def by auto
qed (use node_okD(4,7) [OF n] role in \<open>simp_all add: role_ok_def add_win_def\<close>)

lemma node_ok_vote:
  assumes n: "node_ok N k G W v n" and "currentRole n = Candidate" "G (currentTerm n) f v" "unat f < N"
  shows "node_ok N k G W v (n\<lparr>votesReceived := insert f (votesReceived n)\<rparr>)"
proof (rule node_okI [OF n])
  show "votes_ok G v (n\<lparr>votesReceived := insert f (votesReceived n)\<rparr>)"
    using node_okD(5) [OF n] by (simp add: votes_ok_def)
  show "wins_ok N G W v (n\<lparr>votesReceived := insert f (votesReceived n)\<rparr>)"
    using node_okD(6) [OF n] by (simp add: wins_ok_def)
qed (use node_okD(4,7) [OF n] assms(2-4) in \<open>simp_all add: role_ok_def\<close>)

lemma node_ok_candidate:
  assumes n: "node_ok N k G W v n" and v: "unat v < N" and wrap: "Suc k < 2 ^ 64"
  shows "node_ok N (Suc k) G W v (n\<lparr>currentTerm := currentTerm n + 1, currentRole := Candidate,
           votedForThisTerm := Some v, votesReceived := {v}\<rparr>)" (is "node_ok _ _ _ _ _ ?n")
proof (rule node_okI [OF n])
  have inc: "unat (currentTerm n + 1) = unat (currentTerm n) + 1"
    using wrap node_okD(4) [OF n] by (simp add: unat_word_ariths)
  then have newer: "t \<le> currentTerm n \<Longrightarrow> t \<le> currentTerm n + 1 \<and> t \<noteq> currentTerm n + 1" for t
    by (auto simp: word_le_nat_alt)
  have no_vote: "\<not> G (currentTerm n + 1) v c" and no_win: "\<not> W (currentTerm n + 1) v" for c
    using newer votes_okD(2) [OF node_okD(5) [OF n]] wins_okD(1) [OF node_okD(6) [OF n]] by blast+
  have fields: "currentTerm ?n = currentTerm n + 1"
    by simp
  show "votes_ok G v ?n"
    by (rule votes_okI; (unfold fields)?) (use newer no_vote votes_okD(1-3) [OF node_okD(5) [OF n]] in blast)+
  show "wins_ok N G W v ?n"
    by (rule wins_okI; (unfold fields)?) (use newer no_win wins_okD(1-3) [OF node_okD(6) [OF n]] in blast)+
  show "unat (currentTerm ?n) \<le> Suc k"
    using inc node_okD(4) [OF n] by simp
qed (use v in \<open>simp_all add: role_ok_def\<close>)

section \<open>Handlers\<close>

lemma responsePort_plain:
  assumes "unat v < N" "N \<le> 2 ^ 30"
  shows "unat (responsePort v) = unat v + 2 ^ 30"
  using assms by (simp add: responsePort_def unat_word_ariths)

lemma node_ok_reset: "node_ok N k G W v (resetElectionTimer n) = node_ok N k G W v n"
  by (rule node_ok_cong) (simp add: same_core_def frame_simps)

lemma handleRequestVote_ok:
  assumes n: "node_ok N k G W v n" and c: "c \<noteq> v" and T: "unat T \<le> k"
  obtains T' g n' G' where "handleRequestVote n (encodeVoteRequest T c) = (encodeVoteResponse T' g, n')"
    "unat T' \<le> k" "node_ok N k G' W v n'" "G' = G \<or> G' = add_vote G T' v c" "g \<Longrightarrow> G' T' v c"
proof -
  define n1 where "n1 = (if T > currentTerm n then becomeFollower n T else n)"
  have n1: "node_ok N k G W v n1"
    using node_ok_newer_term [OF n _ T] n by (simp add: n1_def)
  have eq: "handleRequestVote n (encodeVoteRequest T c) =
      (if T = currentTerm n1 \<and> (votedForThisTerm n1 = None \<or> votedForThisTerm n1 = Some c)
       then (encodeVoteResponse (currentTerm n1) True, resetElectionTimer (n1\<lparr>votedForThisTerm := Some c\<rparr>))
       else (encodeVoteResponse (currentTerm n1) False, n1))"
    unfolding handleRequestVote_def decodeVoteRequest_encode option.case prod.case n1_def [symmetric]
    by (auto simp: Let_def frame_simps)
  show thesis
  proof (cases "T = currentTerm n1 \<and> (votedForThisTerm n1 = None \<or> votedForThisTerm n1 = Some c)")
    case True
    with n1 c have "node_ok N k (add_vote G (currentTerm n1) v c) W v (n1\<lparr>votedForThisTerm := Some c\<rparr>)"
      by (intro node_ok_grant) blast+
    moreover have "add_vote G (currentTerm n1) v c (currentTerm n1) v c"
      by (simp add: add_vote_def)
    ultimately show thesis
      using that [OF eq [unfolded if_P [OF True]] node_okD(4) [OF n1]] by (simp add: node_ok_reset)
  next
    case False
    show thesis
      by (rule that [OF eq [unfolded if_not_P [OF False]] node_okD(4) [OF n1] n1]) simp_all
  qed
qed

lemma handleHeartbeat_ok:
  assumes ns: "nodes_ok N k G W ns" and v: "unat v < N" and f: "f \<noteq> v" and T: "unat T \<le> k" and w: "W T f"
  obtains T' g n' where
    "handleHeartbeat (ns ! unat v) (encodeHeartbeat T f) = (encodeVoteResponse T' g, n')"
    "unat T' \<le> k" "node_ok N k G W v n'" "g \<Longrightarrow> W T' f"
proof -
  define n where "n = ns ! unat v"
  define n1 where "n1 = (if T > currentTerm n \<or> currentRole n \<noteq> Follower then becomeFollower n T else n)"
  have n: "node_ok N k G W v n"
    using nodes_ok_node [OF ns v] by (simp add: n_def)
  have lead: "currentRole n \<noteq> Leader" if "T = currentTerm n"
    using role_okD(1) [OF node_okD(7) [OF n]] that win_unique [OF ns w] f by blast
  note unfolds = handleHeartbeat_def decodeHeartbeat_encode n1_def [symmetric] Let_def frame_simps
    heartbeatAck_is_voteResponse n_def [symmetric]
  show thesis
  proof (cases "T < currentTerm n")
    case True
    then show thesis
      using that [of "currentTerm n" False n] n node_okD(4) [OF n] by (simp add: unfolds)
  next
    case False
    have term1: "currentTerm n1 = T"
      using False by (auto simp: n1_def frame_simps)
    have "node_ok N k G W v n1"
    proof (cases "T > currentTerm n")
      case True
      then show ?thesis
        using node_ok_newer_term [OF n _ T] by (simp add: n1_def)
    next
      case same: False
      with False have "T = currentTerm n"
        by simp
      then show ?thesis
        using node_ok_step_down [OF n] lead n same by (cases "currentRole n") (simp_all add: n1_def)
    qed
    then show thesis
      using that [of T True "resetElectionTimer n1"] False T w
      by (simp add: unfolds term1 node_ok_reset)
  qed
qed

lemma handleRequest_ok:
  assumes ns: "nodes_ok N k G W ns" and v: "unat v < N" and m: "msg_ok N k G W f v b"
  obtains resp n' G' where "handleRequest wireHandlers (ns ! unat v) b = (resp, n')"
    "extends k G W k G' W" "nodes_ok N k G' W (ns[unat v := n'])"
    "msg_ok N k G' W v (responsePort f) resp"
  using m
proof cases
  case (vote_request T i)
  obtain T' g n' G' where h: "handleRequestVote (ns ! unat v) (encodeVoteRequest T f) = (encodeVoteResponse T' g, n')"
    "unat T' \<le> k" "node_ok N k G' W v n'" "G' = G \<or> G' = add_vote G T' v f" "g \<Longrightarrow> G' T' v f"
    using handleRequestVote_ok [OF nodes_ok_node [OF ns v] vote_request(4,5)] by blast
  have ext: "extends k G W k G' W"
    using h(4) extends_refl extends_add(1) by blast
  have "nodes_ok N k G' W (ns[unat v := n'])"
    by (rule nodes_update [OF ns v ext _ _ h(3)]) (use h(4) in \<open>auto simp: add_vote_def\<close>)
  then show thesis
    using that [OF _ ext, of "vote_response_bytes i T' g" n'] handle_vote_request [OF h(1)] vote_request h(2,5)
    by (simp add: msg_ok.response)
next
  case (heartbeat T i)
  obtain T' g n' where h: "handleHeartbeat (ns ! unat v) (encodeHeartbeat T f) = (encodeVoteResponse T' g, n')"
    "unat T' \<le> k" "node_ok N k G W v n'" "g \<Longrightarrow> W T' f"
    using handleHeartbeat_ok [OF ns v heartbeat(4,5,6)] by blast
  have "nodes_ok N k G W (ns[unat v := n'])"
    by (rule nodes_update [OF ns v extends_refl _ _ h(3)]) simp_all
  then show thesis
    using that [OF _ extends_refl, of "vote_response_bytes i T' g" n'] handle_heartbeat [OF h(1)] heartbeat h(2,4)
    by (simp add: msg_ok.response)
next
  case (response v' T g i)
  then have False
    using v responsePort_plain [OF response(4)] ns by (simp add: nodes_ok_def)
  then show thesis ..
qed

section \<open>Loops over messages and peers\<close>

lemma net_ok_send: "net_ok N k G W net \<Longrightarrow> msg_ok N k G W f t b \<Longrightarrow> net_ok N k G W (net_send net f t b)"
  unfolding net_ok_def by (blast dest: net_has_send)

lemma net_ok_tick [simp]: "net_ok N k G W (net_tick net) = net_ok N k G W net"
  by (simp add: net_ok_def)

lemma net_ok_receive:
  assumes "net_ok N k G W net" "receiveAll net t = (ms, net')"
  shows "net_ok N k G W net'" "(f, b) \<in> set ms \<Longrightarrow> msg_ok N k G W f t b"
  using assms net_has_receive(1) [where net = net and n = t] net_has_receive(2) [where net = net and n = t]
  by (fastforce simp: net_ok_def)+

lemma net_ok_send_to_all:
  "net_ok N k G W net \<Longrightarrow> (\<And>p. p \<in> set peers \<Longrightarrow> msg_ok N k G W self p bs) \<Longrightarrow>
   net_ok N k G W (send_to_all net self peers bs)"
  by (induction peers arbitrary: net) (simp_all add: net_ok_send)

lemma net_ok_sendHeartbeats:
  assumes net: "net_ok N k G W net" and n: "node_ok N k G W v n" and v: "unat v < N"
    and role: "currentRole n = Leader"
  shows "net_ok N k G W (sendHeartbeats net n)"
  unfolding sendHeartbeats_def raft_request_def heartbeat_bytes_def [symmetric]
proof (rule net_ok_send_to_all [OF net])
  fix p
  assume "p \<in> set (rn_peers n)"
  with node_okD [OF n] v role_okD(1) [OF node_okD(7) [OF n] role]
  show "msg_ok N k G W (rn_self n) p
      (heartbeat_bytes (currentTerm n * 1000000 + ucast (rn_self n)) (currentTerm n) (rn_self n))"
    by (intro msg_ok.heartbeat) auto
qed

text \<open>A candidate with a majority becomes leader and announces it.\<close>

lemma becomeLeader_ok:
  assumes net: "net_ok N k G W net" and n: "node_ok N k G W v n" and v: "unat v < N"
    and cand: "currentRole n = Candidate" and maj: "N div 2 < card (votesReceived n)"
    and res: "becomeLeader net n = (net', n')"
  shows "node_ok N k G (add_win W (currentTerm n) v) v n'" "net_ok N k G (add_win W (currentTerm n) v) net'"
proof -
  let ?W = "add_win W (currentTerm n) v"
  define n1 where "n1 = n\<lparr>currentRole := Leader, ticksUntilNextHeartbeat := 0\<rparr>"
  have core: "same_core (n\<lparr>currentRole := Leader\<rparr>) n1"
    by (simp add: same_core_def n1_def)
  have n1: "node_ok N k G ?W v n1"
    using node_ok_win [OF n cand maj] unfolding node_ok_cong [OF core] .
  have "net_ok N k G ?W net"
    by (rule net_ok_mono [OF net extends_add(2)])
  then have "net_ok N k G ?W (sendHeartbeats net n1)"
    by (rule net_ok_sendHeartbeats [OF _ n1 v]) (simp add: n1_def)
  moreover have res': "net' = sendHeartbeats net n1" "n' = n1\<lparr>ticksUntilNextHeartbeat := heartbeatIntervalTicks n1\<rparr>"
    using res by (simp_all add: becomeLeader_def n1_def Let_def)
  ultimately show "net_ok N k G ?W net'"
    by simp
  have "same_core n1 n'"
    by (simp add: same_core_def res')
  from n1 show "node_ok N k G ?W v n'"
    unfolding node_ok_cong [OF \<open>same_core n1 n'\<close>] .
qed

text \<open>The 32-bit majority test of \<^verbatim>\<open>processIncomingResponses\<close> is exact.\<close>

lemma majority_exact:
  fixes S :: "NodeId set"
  assumes "Suc p = N" "N \<le> 2 ^ 30" "S \<subseteq> {u. unat u < N}"
    and "(word_of_nat p + 1 :: u32) div 2 + 1 \<le> word_of_nat (card S)"
  shows "N div 2 < card S"
proof -
  have "card S \<le> N"
    using card_mono [OF _ assms(3)] card_ids_le [of N] by (meson finite le_trans)
  moreover have "word_of_nat p + 1 = (word_of_nat N :: u32)"
    using assms(1) by auto
  ultimately show ?thesis
    using assms(2,4) by (simp add: word_le_nat_alt unat_word_ariths unat_of_nat unat_div)
qed

lemma pump_loop_ok:
  assumes "nodes_ok N k G W ns" "net_ok N k G W net" "unat v < N"
    and "\<And>f b. (f, b) \<in> set ms \<Longrightarrow> msg_ok N k G W f v b"
    and "pump_loop net v wireHandlers (ns ! unat v) ms = (net', n')"
  shows "\<exists>G'. extends k G W k G' W \<and> nodes_ok N k G' W (ns[unat v := n']) \<and> net_ok N k G' W net'"
  using assms
proof (induction ms arbitrary: G net ns)
  case Nil
  then have "nodes_ok N k G W (ns[unat v := n'])" "net_ok N k G W net'"
    by auto
  then show ?case
    using extends_refl by blast
next
  case (Cons m ms)
  obtain f b where m: "m = (f, b)"
    by fastforce
  have "msg_ok N k G W f v b"
    using Cons.prems(4) m by simp
  from handleRequest_ok [OF Cons.prems(1,3) this] obtain resp n1 G1
    where h: "handleRequest wireHandlers (ns ! unat v) b = (resp, n1)" "extends k G W k G1 W"
      "nodes_ok N k G1 W (ns[unat v := n1])" "msg_ok N k G1 W v (responsePort f) resp"
    by blast
  have "unat v < length ns"
    using Cons.prems(1,3) by (simp add: nodes_ok_def)
  then have "pump_loop (net_send net v (responsePort f) resp) v wireHandlers (ns[unat v := n1] ! unat v) ms = (net', n')"
    using Cons.prems(5) by (simp add: m h(1))
  from Cons.IH [OF h(3) net_ok_send [OF net_ok_mono [OF Cons.prems(2) h(2)] h(4)] Cons.prems(3) _ this]
    msg_ok_mono [OF _ h(2)] Cons.prems(4)
  show ?case
    using extends_trans [OF h(2)] by (fastforce simp: list_update_overwrite)
qed

lemma processResponse_ok:
  assumes ns: "nodes_ok N k G W ns" and net: "net_ok N k G W net" and v: "unat v < N"
    and m: "msg_ok N k G W f (responsePort v) b"
    and res: "processResponse net (ns ! unat v) f b = (net', n')"
  shows "\<exists>W'. extends k G W k G W' \<and> nodes_ok N k G W' (ns[unat v := n']) \<and> net_ok N k G W' net'"
proof -
  define n where "n = ns ! unat v"
  have n: "node_ok N k G W v n" and big: "N \<le> 2 ^ 30" and len: "unat v < length ns"
    using nodes_ok_node [OF ns v] ns v by (simp_all add: n_def nodes_ok_def)
  obtain i T g where b: "b = vote_response_bytes i T g" "unat f < N" "unat T \<le> k" "g \<Longrightarrow> G T f v \<or> W T v"
    using m responsePort_plain [OF v big] by cases (use big in \<open>auto simp: responsePort_inj\<close>)
  have same: ?thesis if "node_ok N k G W v n'" "net' = net"
    using nodes_update [OF ns v extends_refl _ _ that(1)] net that(2) extends_refl by blast
  consider (newer) "currentTerm n < T" | (vote) "currentRole n = Candidate" "T = currentTerm n" g
    | (ignore) "\<not> currentTerm n < T" "\<not> (currentRole n = Candidate \<and> T = currentTerm n \<and> g)"
    by blast
  then show ?thesis
  proof cases
    case newer
    then show ?thesis
      using res node_ok_newer_term [OF n newer b(3)]
      by (intro same) (simp_all add: processResponse_def b(1) parse_vote_response decodeVoteResponse_encode n_def)
  next
    case ignore
    then show ?thesis
      using res n by (intro same) (auto simp: processResponse_def b(1) parse_vote_response decodeVoteResponse_encode n_def)
  next
    case vote
    define n1 where "n1 = n\<lparr>votesReceived := insert f (votesReceived n)\<rparr>"
    have "\<not> W T v"
      using wins_okD(4) [OF node_okD(6) [OF n]] vote(1,2) by fastforce
    with b(2,4) vote have n1: "node_ok N k G W v n1"
      using node_ok_vote [OF n vote(1)] by (simp add: n1_def)
    have cand: "currentRole n1 = Candidate" and peers: "Suc (length (rn_peers n1)) = N"
      and votes: "votesReceived n1 \<subseteq> {u. unat u < N}"
      using vote(1) node_okD(3,7) [OF n1] by (simp_all add: n1_def role_ok_def)
    have step: "(if (word_of_nat (length (rn_peers n1)) + 1 :: u32) div 2 + 1 \<le> word_of_nat (card (votesReceived n1))
        then becomeLeader net n1 else (net, n1)) = (net', n')"
      using res vote unfolding n1_def
      by (simp add: processResponse_def b(1) parse_vote_response decodeVoteResponse_encode n_def Let_def split: if_splits)
    show ?thesis
    proof (cases "(word_of_nat (length (rn_peers n1)) + 1 :: u32) div 2 + 1 \<le> word_of_nat (card (votesReceived n1))")
      case True
      note maj = majority_exact [OF peers big votes True]
      note lead = becomeLeader_ok [OF net n1 v cand maj step [unfolded if_P [OF True]]]
      have "nodes_ok N k G (add_win W (currentTerm n1) v) (ns[unat v := n'])"
        by (rule nodes_update [OF ns v extends_add(2) _ _ lead(1)]) (auto simp: add_win_def)
      with lead(2) extends_add(2) show ?thesis
        by blast
    next
      case False
      with step n1 show ?thesis
        by (intro same) simp_all
    qed
  qed
qed

lemma process_loop_ok:
  assumes "nodes_ok N k G W ns" "net_ok N k G W net" "unat v < N"
    and "\<And>f b. (f, b) \<in> set ms \<Longrightarrow> msg_ok N k G W f (responsePort v) b"
    and "process_loop net (ns ! unat v) ms = (net', n')"
  shows "\<exists>W'. extends k G W k G W' \<and> nodes_ok N k G W' (ns[unat v := n']) \<and> net_ok N k G W' net'"
  using assms
proof (induction ms arbitrary: W net ns)
  case Nil
  then have "nodes_ok N k G W (ns[unat v := n'])" "net_ok N k G W net'"
    by auto
  then show ?case
    using extends_refl by blast
next
  case (Cons m ms)
  obtain f b where m: "m = (f, b)"
    by fastforce
  obtain net1 n1 where p: "processResponse net (ns ! unat v) f b = (net1, n1)"
    by fastforce
  have "msg_ok N k G W f (responsePort v) b"
    using Cons.prems(4) m by simp
  from processResponse_ok [OF Cons.prems(1-3) this p] obtain W1
    where h: "extends k G W k G W1" "nodes_ok N k G W1 (ns[unat v := n1])" "net_ok N k G W1 net1"
    by blast
  have "unat v < length ns"
    using Cons.prems(1,3) by (simp add: nodes_ok_def)
  then have "process_loop net1 (ns[unat v := n1] ! unat v) ms = (net', n')"
    using Cons.prems(5) by (simp add: m p)
  from Cons.IH [OF h(2,3) Cons.prems(3) _ this] msg_ok_mono [OF _ h(1)] Cons.prems(4)
  show ?case
    using extends_trans [OF h(1)] by (fastforce simp: list_update_overwrite)
qed

section \<open>One node's turn in a loop over the cluster\<close>

text \<open>
  The contract the three loops of \<^verbatim>\<open>RaftCluster::tick\<close> share: a turn of one node keeps every node
  and message valid for extended histories, and raises the term bound by at most \<open>d\<close>.
\<close>

locale node_turn =
  fixes turn :: "SimulatedNetwork \<Rightarrow> RaftNode \<Rightarrow> SimulatedNetwork \<times> RaftNode" and d :: nat
  assumes turn_ok: "nodes_ok N k G W ns \<Longrightarrow> net_ok N k G W net \<Longrightarrow> unat (v :: NodeId) < N \<Longrightarrow> k + d < 2 ^ 64 \<Longrightarrow>
      turn net (ns ! unat v) = (net', n') \<Longrightarrow>
      \<exists>G' W'. extends k G W (k + d) G' W' \<and> nodes_ok N (k + d) G' W' (ns[unat v := n']) \<and>
        net_ok N (k + d) G' W' net'"
begin

lemma loop_ok:
  assumes "nodes_ok N k G W (rc_nodes c)" "net_ok N k G W (rc_net c)" "set is \<subseteq> {..<N}"
    and "k + d * length is < 2 ^ 64"
  shows "\<exists>G' W'. extends k G W (k + d * length is) G' W' \<and>
    nodes_ok N (k + d * length is) G' W' (rc_nodes (for_nodes turn is c)) \<and>
    net_ok N (k + d * length is) G' W' (rc_net (for_nodes turn is c))"
  using assms
proof (induction "is" arbitrary: k G W c)
  case Nil
  then show ?case
    using extends_refl by fastforce
next
  case (Cons i "is")
  define v :: NodeId where "v = word_of_nat i"
  have "N \<le> 2 ^ 30"
    using Cons.prems(1) by (simp add: nodes_ok_def)
  with Cons.prems(3) have v: "unat v = i" "unat v < N"
    by (simp_all add: v_def unat_of_nat)
  obtain net' n' where step: "turn (rc_net c) (rc_nodes c ! i) = (net', n')"
    by fastforce
  have "k + d < 2 ^ 64"
    using Cons.prems(4) by simp
  from turn_ok [OF Cons.prems(1,2) v(2) this] step v(1) obtain G1 W1 where
    1: "extends k G W (k + d) G1 W1" "nodes_ok N (k + d) G1 W1 ((rc_nodes c)[i := n'])"
      "net_ok N (k + d) G1 W1 net'"
    by metis
  define c1 where "c1 = \<lparr>rc_net = net', rc_nodes = (rc_nodes c)[i := n']\<rparr>"
  have "\<exists>G' W'. extends (k + d) G1 W1 (k + d + d * length is) G' W' \<and>
    nodes_ok N (k + d + d * length is) G' W' (rc_nodes (for_nodes turn is c1)) \<and>
    net_ok N (k + d + d * length is) G' W' (rc_net (for_nodes turn is c1))"
    by (rule Cons.IH) (use 1 Cons.prems in \<open>simp_all add: c1_def\<close>)
  moreover have "for_nodes turn (i # is) c = for_nodes turn is c1"
    by (simp add: step c1_def)
  moreover have "k + d * length (i # is) = k + d + d * length is"
    by simp
  ultimately show ?case
    using extends_trans [OF 1(1)] by metis
qed

end

interpretation pump: node_turn raft_pump 0
proof
  fix N k G W ns net net' n' and v :: NodeId
  assume ns: "nodes_ok N k G W ns" and net: "net_ok N k G W net" and v: "unat v < N"
    and step: "raft_pump net (ns ! unat v) = (net', n')"
  obtain ms net1 where r: "receiveAll net v = (ms, net1)"
    by fastforce
  have "rn_self (ns ! unat v) = v"
    by (rule node_okD(1) [OF nodes_ok_node [OF ns v]])
  with step r have "pump_loop net1 v wireHandlers (ns ! unat v) ms = (net', n')"
    by (simp add: raft_pump_def pumpServer_def)
  from pump_loop_ok [OF ns net_ok_receive(1) [OF net r] v net_ok_receive(2) [OF net r] this]
  show "\<exists>G' W'. extends k G W (k + 0) G' W' \<and> nodes_ok N (k + 0) G' W' (ns[unat v := n']) \<and>
        net_ok N (k + 0) G' W' net'"
    by auto
qed

interpretation responses: node_turn processIncomingResponses 0
proof
  fix N k G W ns net net' n' and v :: NodeId
  assume ns: "nodes_ok N k G W ns" and net: "net_ok N k G W net" and v: "unat v < N"
    and step: "processIncomingResponses net (ns ! unat v) = (net', n')"
  obtain ms net1 where r: "receiveAll net (responsePort v) = (ms, net1)"
    by fastforce
  have "rn_self (ns ! unat v) = v"
    by (rule node_okD(1) [OF nodes_ok_node [OF ns v]])
  with step r have "process_loop net1 (ns ! unat v) ms = (net', n')"
    by (simp add: processIncomingResponses_def)
  from process_loop_ok [OF ns net_ok_receive(1) [OF net r] v net_ok_receive(2) [OF net r] this]
  show "\<exists>G' W'. extends k G W (k + 0) G' W' \<and> nodes_ok N (k + 0) G' W' (ns[unat v := n']) \<and>
        net_ok N (k + 0) G' W' net'"
    by auto
qed

lemma extends_Suc: "extends k G W (Suc k) G W"
  by (simp add: extends_def)

lemma startElection_ok:
  assumes ns: "nodes_ok N k G W ns" and net: "net_ok N k G W net" and v: "unat v < N"
    and n: "node_ok N k G W v n" and wrap: "Suc k < 2 ^ 64" and res: "startElection net n = (net', n')"
  shows "\<exists>W'. extends k G W (Suc k) G W' \<and> nodes_ok N (Suc k) G W' (ns[unat v := n']) \<and> net_ok N (Suc k) G W' net'"
proof -
  define n1 where "n1 = resetElectionTimer (n\<lparr>currentTerm := currentTerm n + 1, currentRole := Candidate,
     votedForThisTerm := Some (rn_self n), votesReceived := {rn_self n}\<rparr>)"
  define net1 where "net1 = send_to_all net (rn_self n1) (rn_peers n1)
     (raft_request n1 ''RequestVote'' (encodeVoteRequest (currentTerm n1) (rn_self n1)))"
  have self: "rn_self n = v"
    by (rule node_okD(1) [OF n])
  have n1: "node_ok N (Suc k) G W v n1"
    using node_ok_candidate [OF n v wrap] by (simp add: n1_def node_ok_reset self)
  have cand: "currentRole n1 = Candidate" "votesReceived n1 = {v}"
    by (simp_all add: n1_def frame_simps self)
  have net1: "net_ok N (Suc k) G W net1"
    unfolding net1_def raft_request_def vote_request_bytes_def [symmetric]
  proof (rule net_ok_send_to_all [OF net_ok_mono [OF net extends_Suc]])
    fix p
    assume "p \<in> set (rn_peers n1)"
    with node_okD [OF n1] v show "msg_ok N (Suc k) G W (rn_self n1) p
        (vote_request_bytes (currentTerm n1 * 1000000 + ucast (rn_self n1)) (currentTerm n1) (rn_self n1))"
      by (intro msg_ok.vote_request) auto
  qed
  have step: "(if rn_peers n1 = [] then becomeLeader net1 n1 else (net1, n1)) = (net', n')"
    using res unfolding startElection_def Let_def net1_def n1_def .
  show ?thesis
  proof (cases "rn_peers n1 = []")
    case True
    then have "N div 2 < card (votesReceived n1)"
      using node_okD(3) [OF n1] by (auto simp: cand)
    note lead = becomeLeader_ok [OF net1 n1 v cand(1) this step [unfolded if_P [OF True]]]
    have ext: "extends k G W (Suc k) G (add_win W (currentTerm n1) v)"
      by (rule extends_trans [OF extends_Suc extends_add(2)])
    have "nodes_ok N (Suc k) G (add_win W (currentTerm n1) v) (ns[unat v := n'])"
      by (rule nodes_update [OF ns v ext _ _ lead(1)]) (auto simp: add_win_def)
    with ext lead(2) show ?thesis
      by blast
  next
    case False
    then have "nodes_ok N (Suc k) G W (ns[unat v := n'])" "net_ok N (Suc k) G W net'"
      using nodes_update [OF ns v extends_Suc _ _ n1] step net1 by auto
    then show ?thesis
      using extends_Suc by blast
  qed
qed

interpretation timers: node_turn raft_onTick 1
proof
  fix N k G W ns net net' n' and v :: NodeId
  assume ns: "nodes_ok N k G W ns" and net: "net_ok N k G W net" and v: "unat v < N" and wrap: "k + 1 < 2 ^ 64"
    and step: "raft_onTick net (ns ! unat v) = (net', n')"
  define n where "n = ns ! unat v"
  have n: "node_ok N k G W v n"
    using nodes_ok_node [OF ns v] by (simp add: n_def)
  have quiet: "\<exists>G' W'. extends k G W (k + 1) G' W' \<and> nodes_ok N (k + 1) G' W' (ns[unat v := n']) \<and>
        net_ok N (k + 1) G' W' net'" if "same_core n n'" "net_ok N k G W net'"
  proof -
    have "node_ok N (Suc k) G W v n'"
      using node_ok_mono [OF n extends_Suc] unfolding node_ok_cong [OF that(1)] by blast
    from nodes_update [OF ns v extends_Suc _ _ this] net_ok_mono [OF that(2) extends_Suc] extends_Suc
    show ?thesis
      unfolding Suc_eq_plus1 by blast
  qed
  show "\<exists>G' W'. extends k G W (k + 1) G' W' \<and> nodes_ok N (k + 1) G' W' (ns[unat v := n']) \<and>
        net_ok N (k + 1) G' W' net'"
  proof (cases "currentRole n = Leader")
    case True
    define n1 where "n1 = (if ticksUntilNextHeartbeat n > 0
        then n\<lparr>ticksUntilNextHeartbeat := ticksUntilNextHeartbeat n - 1\<rparr> else n)"
    have core: "same_core n n1" and role: "currentRole n1 = Leader"
      using True by (simp_all add: n1_def same_core_def)
    have beat: "net_ok N k G W (sendHeartbeats net n1)"
      by (rule net_ok_sendHeartbeats [OF net _ v role]) (use n node_ok_cong [OF core] in blast)
    have "(if ticksUntilNextHeartbeat n1 = 0
           then (sendHeartbeats net n1, n1\<lparr>ticksUntilNextHeartbeat := heartbeatIntervalTicks n1\<rparr>)
           else (net, n1)) = (net', n')"
      using step True unfolding raft_onTick_def n_def [symmetric] Let_def n1_def [symmetric] by simp
    then have res: "net' = sendHeartbeats net n1 \<or> net' = net"
      "n' = n1\<lparr>ticksUntilNextHeartbeat := heartbeatIntervalTicks n1\<rparr> \<or> n' = n1"
      by (auto split: if_splits)
    show ?thesis
    proof (rule quiet)
      show "same_core n n'"
        using res(2) core by (elim disjE; unfold same_core_def) simp_all
      show "net_ok N k G W net'"
        using res(1) beat net by blast
    qed
  next
    case False
    define n1 where "n1 = (if ticksUntilElectionTimeout n > 0
        then n\<lparr>ticksUntilElectionTimeout := ticksUntilElectionTimeout n - 1\<rparr> else n)"
    have core: "same_core n n1"
      by (simp add: n1_def same_core_def)
    then have n1: "node_ok N k G W v n1"
      using n node_ok_cong by blast
    have res: "(if ticksUntilElectionTimeout n1 = 0 then startElection net n1 else (net, n1)) = (net', n')"
      using step False unfolding raft_onTick_def n_def [symmetric] Let_def n1_def [symmetric] by simp
    show ?thesis
    proof (cases "ticksUntilElectionTimeout n1 = 0")
      case True
      with res have "startElection net n1 = (net', n')"
        by simp
      from startElection_ok [OF ns net v n1 _ this] wrap show ?thesis
        unfolding Suc_eq_plus1 by blast
    next
      case False
      with res have "net' = net" "n' = n1"
        by simp_all
      with core net show ?thesis
        by (intro quiet) simp_all
    qed
  qed
qed

section \<open>Runs of a cluster\<close>

datatype cluster_event = Ev_tick | Ev_partition NodeId NodeId | Ev_heal NodeId NodeId

fun cluster_step :: "RaftCluster \<Rightarrow> cluster_event \<Rightarrow> RaftCluster" where
  "cluster_step c Ev_tick = cluster_tick c"
| "cluster_step c (Ev_partition a b) = c\<lparr>rc_net := net_partition (rc_net c) a b\<rparr>"
| "cluster_step c (Ev_heal a b) = c\<lparr>rc_net := healPartition (rc_net c) a b\<rparr>"

definition cluster_run :: "RaftCluster \<Rightarrow> cluster_event list \<Rightarrow> RaftCluster" where
  "cluster_run c es = foldl cluster_step c es"

definition ticks_of :: "cluster_event list \<Rightarrow> nat" where
  "ticks_of es = length (filter (\<lambda>e. e = Ev_tick) es)"

definition cluster_ok :: "nat \<Rightarrow> nat \<Rightarrow> votes \<Rightarrow> wins \<Rightarrow> RaftCluster \<Rightarrow> bool" where
  "cluster_ok N k G W c \<longleftrightarrow> nodes_ok N k G W (rc_nodes c) \<and> net_ok N k G W (rc_net c)"

lemma cluster_tick_ok:
  assumes c: "cluster_ok N k G W c" and wrap: "k + N < 2 ^ 64"
  shows "\<exists>G' W'. extends k G W (k + N) G' W' \<and> cluster_ok N (k + N) G' W' (cluster_tick c)"
proof -
  define ids where "ids = [0..<N]"
  have len: "length (rc_nodes c) = N"
    using c by (simp add: cluster_ok_def nodes_ok_def)
  have ids: "set ids \<subseteq> {..<N}" "length ids = N"
    by (auto simp: ids_def)
  define c1 where "c1 = c\<lparr>rc_net := net_tick (rc_net c)\<rparr>"
  have "nodes_ok N k G W (rc_nodes c1)" "net_ok N k G W (rc_net c1)"
    using c by (simp_all add: cluster_ok_def c1_def)
  from pump.loop_ok [OF this ids(1)] wrap obtain G1 W1 where 1: "extends k G W k G1 W1"
    "nodes_ok N k G1 W1 (rc_nodes (for_nodes raft_pump ids c1))"
    "net_ok N k G1 W1 (rc_net (for_nodes raft_pump ids c1))"
    by auto
  from responses.loop_ok [OF 1(2,3) ids(1)] wrap obtain G2 W2 where 2: "extends k G1 W1 k G2 W2"
    "nodes_ok N k G2 W2 (rc_nodes (for_nodes processIncomingResponses ids (for_nodes raft_pump ids c1)))"
    "net_ok N k G2 W2 (rc_net (for_nodes processIncomingResponses ids (for_nodes raft_pump ids c1)))"
    by auto
  have "cluster_tick c =
      for_nodes raft_onTick ids (for_nodes processIncomingResponses ids (for_nodes raft_pump ids c1))"
    by (simp add: cluster_tick_def len ids_def c1_def Let_def)
  moreover have "k + 1 * length ids = k + N"
    by (simp add: ids(2))
  ultimately show ?thesis
    using timers.loop_ok [OF 2(2,3) ids(1)] wrap extends_trans [OF extends_trans [OF 1(1) 2(1)]]
    unfolding cluster_ok_def by metis
qed

lemma net_has_partition [simp]:
  "net_has (net_partition net a b) = net_has net" "net_has (healPartition net a b) = net_has net"
  by (simp_all add: fun_eq_iff net_has_def net_partition_def healPartition_def inbox_of_def)

lemma cluster_run_ok:
  assumes "cluster_ok N k G W c" "k + N * ticks_of es < 2 ^ 64"
  shows "\<exists>G' W'. extends k G W (k + N * ticks_of es) G' W' \<and>
           cluster_ok N (k + N * ticks_of es) G' W' (cluster_run c es)"
  using assms
proof (induction es arbitrary: k G W c)
  case Nil
  then show ?case
    using extends_refl by (fastforce simp: cluster_run_def ticks_of_def)
next
  case (Cons e es)
  define d where "d = (if e = Ev_tick then N else 0)"
  have d: "N * ticks_of (e # es) = d + N * ticks_of es"
    by (simp add: ticks_of_def d_def)
  have "\<exists>G1 W1. extends k G W (k + d) G1 W1 \<and> cluster_ok N (k + d) G1 W1 (cluster_step c e)"
  proof (cases e)
    case Ev_tick
    with cluster_tick_ok [OF Cons.prems(1)] Cons.prems(2) d show ?thesis
      by (simp add: d_def)
  next
    case (Ev_partition a b)
    with Cons.prems(1) extends_refl show ?thesis
      by (fastforce simp: cluster_ok_def d_def net_ok_def)
  next
    case (Ev_heal a b)
    with Cons.prems(1) extends_refl show ?thesis
      by (fastforce simp: cluster_ok_def d_def net_ok_def)
  qed
  then obtain G1 W1 where 1: "extends k G W (k + d) G1 W1" "cluster_ok N (k + d) G1 W1 (cluster_step c e)"
    by blast
  have "k + d + N * ticks_of es < 2 ^ 64"
    using Cons.prems(2) d by simp
  from Cons.IH [OF 1(2) this] extends_trans [OF 1(1)] show ?case
    unfolding d by (fastforce simp: cluster_run_def add.assoc)
qed

lemma new_cluster_ok:
  assumes "unat nodeCount \<le> 2 ^ 30"
  shows "cluster_ok (unat nodeCount) 0 (\<lambda>t v c. False) (\<lambda>t c. False)
           (new_RaftCluster nodeCount networkSeed fc timeoutSeed)"
proof -
  define N where "N = unat nodeCount"
  have "node_ok N 0 (\<lambda>t v c. False) (\<lambda>t c. False) v (cluster_node N timeoutSeed (unat v))" if "unat v < N" for v
  proof -
    have ids: "unat (word_of_nat i :: NodeId) = i" if "i < N" for i
      using that assms by (simp add: N_def unat_of_nat)
    have "set (map word_of_nat (filter (\<lambda>j. j \<noteq> unat v) [0..<N])) = {u :: NodeId. unat u < N} - {v}"
      (is "?P = ?Q")
    proof
      show "?P \<subseteq> ?Q"
        by (auto simp: ids)
      show "?Q \<subseteq> ?P"
        by (auto simp: word_unat_eq_iff intro!: image_eqI [where x = "unat u" for u])
    qed
    moreover have "length (filter (\<lambda>j. j \<noteq> unat v) [0..<N]) = N - 1"
    proof -
      have "length (filter (\<lambda>j. j \<noteq> unat v) [0..<N]) = card (set (filter (\<lambda>j. j \<noteq> unat v) [0..<N]))"
        by (rule distinct_card [symmetric]) simp
      also have "set (filter (\<lambda>j. j \<noteq> unat v) [0..<N]) = {..<N} - {unat v}"
        by auto
      finally show ?thesis
        using that by simp
    qed
    ultimately show ?thesis
      using that by (simp add: node_ok_def votes_ok_def wins_ok_def role_ok_def cluster_node_def new_RaftNode_def frame_simps)
  qed
  with assms show ?thesis
    by (simp add: cluster_ok_def nodes_ok_def net_ok_def new_RaftCluster_def N_def)
qed

lemma role_of_leader:
  assumes "cluster_ok N k G W c" "n \<in> set (rc_nodes c)" "currentRole n = Leader"
  shows "W (currentTerm n) (rn_self n)"
proof -
  obtain i where i: "i < N" "n = rc_nodes c ! i"
    using assms(1,2) by (auto simp: in_set_conv_nth cluster_ok_def nodes_ok_def)
  then have "unat (word_of_nat i :: NodeId) = i"
    using assms(1) by (simp add: unat_of_nat cluster_ok_def nodes_ok_def)
  with i assms(1) have "node_ok N k G W (word_of_nat i) n"
    using nodes_ok_node [of N k G W "rc_nodes c" "word_of_nat i"] by (simp add: cluster_ok_def)
  then have n: "role_ok N G W (word_of_nat i) n" "rn_self n = word_of_nat i"
    by (simp_all add: node_ok_def)
  show ?thesis
    using role_okD(1) [OF n(1) assms(3)] by (simp add: n(2))
qed

text \<open>
  C15. Election safety over whole runs. Start a cluster of any size up to \<open>2 ^ 30\<close> (the range in
  which plain node ids and response ports do not overlap), with any seeds and any drop, duplication
  and delay rates, and run any sequence of ticks, partitions and heals, as long as the 64-bit term
  counter cannot wrap. If some node leads term \<open>T\<close> after a part of the run and some node leads
  \<open>T\<close> at any later point of it, it is the same node; in particular no two nodes lead one term at
  the same time.
\<close>

theorem raft_election_safety:
  assumes "unat nodeCount \<le> 2 ^ 30" "unat nodeCount * ticks_of (es @ es') < 2 ^ 64"
    and "c = cluster_run (new_RaftCluster nodeCount networkSeed fc timeoutSeed) es"
    and "c' = cluster_run c es'"
    and "n \<in> set (rc_nodes c)" "currentRole n = Leader"
    and "n' \<in> set (rc_nodes c')" "currentRole n' = Leader"
    and "currentTerm n = currentTerm n'"
  shows "rn_self n = rn_self n'"
proof -
  let ?N = "unat nodeCount"
  have split: "?N * ticks_of (es @ es') = ?N * ticks_of es + ?N * ticks_of es'"
    by (simp add: ticks_of_def algebra_simps)
  obtain G W where c: "cluster_ok ?N (?N * ticks_of es) G W c"
    using cluster_run_ok [OF new_cluster_ok [OF assms(1)], of es] assms(2,3) split by fastforce
  obtain G' W' where c': "cluster_ok ?N (?N * ticks_of es + ?N * ticks_of es') G' W' c'"
    and ext: "extends (?N * ticks_of es) G W (?N * ticks_of es + ?N * ticks_of es') G' W'"
    using cluster_run_ok [OF c, of es'] assms(2,4) split by fastforce
  have "W' (currentTerm n) (rn_self n)"
    using role_of_leader [OF c assms(5,6)] ext by (simp add: extends_def)
  moreover have "W' (currentTerm n) (rn_self n')"
    using role_of_leader [OF c' assms(7,8)] assms(9) by simp
  ultimately show ?thesis
    using win_unique c' unfolding cluster_ok_def by blast
qed

theorem raft_election_safety_witness:
  "let c = cluster_run (new_RaftCluster 1 1 no_faults 7) (replicate 11 Ev_tick) in
   rn_self (hd (rc_nodes c)) = rn_self (hd (rc_nodes (cluster_run c [Ev_partition 0 1, Ev_tick])))"
proof -
  define c where "c = cluster_run (new_RaftCluster 1 1 no_faults 7) (replicate 11 Ev_tick)"
  define c' where "c' = cluster_run c [Ev_partition 0 1, Ev_tick]"
  have "unat (1 :: u32) \<le> 2 ^ 30" "unat (1 :: u32) * ticks_of (replicate 11 Ev_tick @ [Ev_partition 0 1, Ev_tick]) < 2 ^ 64"
    by (simp_all add: ticks_of_def)
  moreover have "rc_nodes c \<noteq> [] \<and> currentRole (hd (rc_nodes c)) = Leader \<and> currentTerm (hd (rc_nodes c)) = 1"
    unfolding c_def by code_simp
  moreover have "rc_nodes c' \<noteq> [] \<and> currentRole (hd (rc_nodes c')) = Leader \<and> currentTerm (hd (rc_nodes c')) = 1"
    unfolding c'_def c_def by code_simp
  ultimately have "rn_self (hd (rc_nodes c)) = rn_self (hd (rc_nodes c'))"
    by (intro raft_election_safety [OF _ _ c_def c'_def]) simp_all
  then show ?thesis
    by (simp add: c_def c'_def Let_def)
qed

end
