(* ===== verification/L1Types.thy ===== *)
theory L1Types
  imports Serialization Sha256
begin

text \<open>
  Primitive types of the L1 chain, \<^verbatim>\<open>23-blockchain/l1/types.cpp\<close>, \<^verbatim>\<open>transaction.cpp\<close> and
  \<^verbatim>\<open>block.cpp\<close>: addresses and hashes with their hexadecimal text form, transactions and blocks with
  their wire format. Fixed-size byte arrays are byte lists with a length condition in the
  well-formedness predicates.
\<close>

section \<open>Addresses, hashes and hexadecimal text\<close>

type_synonym Address = bytes
type_synonym Hash32 = bytes

definition ZERO_ADDRESS :: Address where "ZERO_ADDRESS = replicate 20 0"
definition ZERO_HASH32 :: Hash32 where "ZERO_HASH32 = replicate 32 0"

definition HEX_DIGITS :: string where "HEX_DIGITS = ''0123456789abcdef''"

definition hexValue :: "char \<Rightarrow> int" where
  "hexValue c =
     (let n = of_char c :: nat in
      if 48 \<le> n \<and> n \<le> 57 then int n - 48
      else if 97 \<le> n \<and> n \<le> 102 then int n - 97 + 10
      else - 1)"

fun toHex :: "bytes \<Rightarrow> string" where
  "toHex [] = []"
| "toHex (b # bs) = HEX_DIGITS ! unat (drop_bit 4 b) # HEX_DIGITS ! unat (b AND 0x0F) # toHex bs"

text \<open>The loop writes into the caller's array as it goes; the result is the flag and the array.\<close>

fun parseHex_loop :: "string \<Rightarrow> nat \<Rightarrow> nat \<Rightarrow> bytes \<Rightarrow> bool \<times> bytes" where
  "parseHex_loop hex i 0 out = (True, out)"
| "parseHex_loop hex i (Suc n) out =
     (let hi = hexValue (hex ! (i * 2)); lo = hexValue (hex ! (i * 2 + 1)) in
      if hi < 0 \<or> lo < 0 then (False, out)
      else parseHex_loop hex (Suc i) n (out[i := word_of_int (push_bit 4 hi OR lo)]))"

definition parseHexImpl :: "nat \<Rightarrow> string \<Rightarrow> bytes \<Rightarrow> bool \<times> bytes" where
  "parseHexImpl N hex out = (if length hex \<noteq> N * 2 then (False, out) else parseHex_loop hex 0 N out)"

definition parseAddress :: "string \<Rightarrow> Address \<Rightarrow> bool \<times> Address" where
  "parseAddress hex out = parseHexImpl 20 hex out"

definition parseHash32 :: "string \<Rightarrow> Hash32 \<Rightarrow> bool \<times> Hash32" where
  "parseHash32 hex out = parseHexImpl 32 hex out"

definition deriveAddress :: "string \<Rightarrow> Address" where
  "deriveAddress label = take 20 (sha256 (bytes_of_string label))"

text \<open>The text form as a function on its own: two digits per byte.\<close>

fun hex_bytes :: "string \<Rightarrow> bytes option" where
  "hex_bytes [] = Some []"
| "hex_bytes [c] = None"
| "hex_bytes (c # c' # cs) =
     (if hexValue c < 0 \<or> hexValue c' < 0 then None
      else map_option ((#) (word_of_int (push_bit 4 (hexValue c) OR hexValue c'))) (hex_bytes cs))"

lemma hexValue_digit: "n < 16 \<Longrightarrow> hexValue (HEX_DIGITS ! n) = int n"
  by (auto simp: less_Suc_eq numeral_eq_Suc HEX_DIGITS_def hexValue_def)

lemma digit_code: "n < 16 \<Longrightarrow> of_char (HEX_DIGITS ! n) = (if n < 10 then 48 + n else 87 + n :: nat)"
  by (auto simp: less_Suc_eq numeral_eq_Suc HEX_DIGITS_def)

lemma digit_hexValue:
  assumes "0 \<le> hexValue c"
  shows "nat (hexValue c) < 16 \<and> HEX_DIGITS ! nat (hexValue c) = c"
proof -
  have n: "nat (hexValue c) < 16"
    "(if nat (hexValue c) < 10 then 48 + nat (hexValue c) else 87 + nat (hexValue c)) = (of_char c :: nat)"
    using assms by (auto simp: hexValue_def Let_def split: if_splits)
  then have "of_char (HEX_DIGITS ! nat (hexValue c)) = (of_char c :: nat)"
    by (simp add: digit_code)
  with n(1) show ?thesis
    by (simp add: of_char_eq_iff)
qed

lemma nibble_bits:
  fixes n :: nat
  assumes "n < 16" "bit n i"
  shows "i < 4"
proof -
  have "take_bit 4 n = n" using assms(1) by (simp add: take_bit_nat_eq_self_iff)
  then show ?thesis using assms(2) bit_take_bit_iff by metis
qed

lemma hex_byte:
  assumes "hi < 16" "lo < 16"
  shows "unat (drop_bit 4 (word_of_int (push_bit 4 (int hi) OR int lo) :: u8)) = hi"
    "unat ((word_of_int (push_bit 4 (int hi) OR int lo) :: u8) AND 0x0F) = lo"
proof -
  let ?b = "word_of_int (push_bit 4 (int hi) OR int lo) :: u8"
  have b: "bit ?b i \<longleftrightarrow> 4 \<le> i \<and> i < 8 \<and> bit hi (i - 4) \<or> i < 4 \<and> bit lo i" for i
    using nibble_bits [OF assms(2), of i] 
    by (auto simp: bit_word_of_int_iff bit_or_iff bit_push_bit_iff bit_of_nat_iff_bit)
  have "drop_bit 4 ?b = word_of_nat hi"
    by (rule bit_word_eqI) (use nibble_bits [OF assms(1)] in \<open>auto simp: bit_drop_bit_eq b bit_of_nat_iff possible_bit_word\<close>)
  then show "unat (drop_bit 4 ?b) = hi"
    using assms(1) by (simp only: unat_of_nat) simp
  have "?b AND mask 4 = word_of_nat lo"
    by (rule bit_word_eqI) (use nibble_bits [OF assms(2)] in \<open>auto simp: bit_and_iff b bit_mask_iff bit_of_nat_iff possible_bit_word\<close>)
  moreover have "(0x0F :: u8) = mask 4"
    by (simp add: mask_eq_exp_minus_1)
  ultimately show "unat (?b AND 0x0F) = lo"
    using assms(2) by (simp only: unat_of_nat) simp
qed

lemma nibble_mask: "(15 :: u8) = mask 4"
  by (simp add: mask_eq_exp_minus_1)

lemma byte_nibbles: "word_of_int (push_bit 4 (uint (drop_bit 4 b)) OR uint (b AND 0x0F)) = (b :: u8)"
  unfolding nibble_mask
  by (rule bit_word_eqI)
    (auto simp: bit_word_of_int_iff bit_or_iff bit_push_bit_iff bit_uint_iff bit_drop_bit_eq bit_and_iff bit_mask_iff)

lemma nibbles_less: "unat (drop_bit 4 (b :: u8)) < 16" "unat (b AND 0x0F) < 16"
proof -
  have "unat b < 2 ^ 8"
    by (rule order_less_le_trans [OF unsigned_less]) simp
  then show "unat (drop_bit 4 b) < 16"
    unfolding unat_drop_bit_eq by (simp add: drop_bit_eq_div)
  have "b AND 0x0F < 2 ^ 4"
    unfolding nibble_mask by (rule and_mask_less_size) (simp add: word_size)
  then show "unat (b AND 0x0F) < 16"
    by (simp add: word_less_nat_alt)
qed

lemma length_toHex [simp]: "length (toHex bs) = 2 * length bs"
  by (induction bs) simp_all

lemma hex_bytes_toHex: "hex_bytes (toHex bs) = Some bs"
  by (induction bs) (simp_all add: hexValue_digit nibbles_less byte_nibbles)

lemma hex_bytes_Some: "hex_bytes cs = Some bs \<Longrightarrow> cs = toHex bs"
proof (induction cs arbitrary: bs rule: hex_bytes.induct)
  case (3 c c' cs)
  from 3(2) have v: "0 \<le> hexValue c" "0 \<le> hexValue c'"
    by (auto split: if_splits)
  with 3(2) obtain bs' where bs: "hex_bytes cs = Some bs'"
    "bs = word_of_int (push_bit 4 (hexValue c) OR hexValue c') # bs'"
    by (auto split: if_splits)
  have "cs = toHex bs'"
    using 3(1) v bs(1) by simp
  with hex_byte [of "nat (hexValue c)" "nat (hexValue c')"] digit_hexValue [OF v(1)] digit_hexValue [OF v(2)] v
  show ?case
    by (simp add: bs(2))
qed auto

text \<open>The in-place loop computes the text decoding, and fills the array from the left.\<close>

lemma parseHex_loop_decodes:
  assumes "length hex = 2 * (i + n)" "length out = i + n"
  shows "parseHex_loop hex i n out =
    (case hex_bytes (drop (2 * i) hex) of
       Some bs \<Rightarrow> (True, take i out @ bs)
     | None \<Rightarrow> (False, snd (parseHex_loop hex i n out)))"
  using assms
proof (induction n arbitrary: i out)
  case (Suc n)
  define hi where "hi = hexValue (hex ! (i * 2))"
  define lo where "lo = hexValue (hex ! (i * 2 + 1))"
  have "drop (2 * i) hex = hex ! (i * 2) # hex ! (i * 2 + 1) # drop (2 * Suc i) hex"
    using Suc.prems(1) by (simp add: Cons_nth_drop_Suc mult.commute)
  then have h: "hex_bytes (drop (2 * i) hex) = (if hi < 0 \<or> lo < 0 then None
      else map_option ((#) (word_of_int (push_bit 4 hi OR lo))) (hex_bytes (drop (2 * Suc i) hex)))"
    by (simp add: hi_def lo_def)
  show ?case
  proof (cases "hi < 0 \<or> lo < 0")
    case True
    then show ?thesis
      unfolding h by (simp add: hi_def lo_def)
  next
    case False
    let ?out = "out[i := word_of_int (push_bit 4 hi OR lo)]"
    have step: "parseHex_loop hex i (Suc n) out = parseHex_loop hex (Suc i) n ?out"
      using False by (simp add: hi_def lo_def)
    have "take (Suc i) ?out = take i out @ [word_of_int (push_bit 4 hi OR lo)]"
      using Suc.prems(2) by (simp add: take_Suc_conv_app_nth)
    with Suc.IH [of "Suc i" ?out] Suc.prems False show ?thesis
      unfolding step h by (auto split: option.splits)
  qed
qed simp

lemma parseHexImpl_iff:
  assumes "length out = N"
  shows "parseHexImpl N hex out = (True, bs) \<longleftrightarrow> hex = toHex bs \<and> length bs = N"
proof (cases "length hex = N * 2")
  case True
  then have p: "parseHexImpl N hex out = (case hex_bytes hex of Some bs \<Rightarrow> (True, bs)
      | None \<Rightarrow> (False, snd (parseHex_loop hex 0 N out)))"
    using parseHex_loop_decodes [of hex 0 N out] assms True
    by (simp add: parseHexImpl_def split: option.splits)
  show ?thesis
    unfolding p using True hex_bytes_Some hex_bytes_toHex by (fastforce split: option.splits)
next
  case False
  then show ?thesis
    by (auto simp: parseHexImpl_def)
qed

section \<open>Transactions\<close>

record Transaction =
  tx_from :: Address
  tx_to :: Address
  tx_amount :: u64
  tx_nonce :: u64

definition vectorToArray :: "nat \<Rightarrow> bytes \<Rightarrow> bytes option" where
  "vectorToArray N v = (if length v \<noteq> N then None else Some v)"

definition serializeTransaction :: "Transaction \<Rightarrow> bytes" where
  "serializeTransaction tx =
     writeU64 (writeU64 (writeBytes (writeBytes [] (tx_from tx)) (tx_to tx)) (tx_amount tx)) (tx_nonce tx)"

definition parseTransaction :: "bytes \<Rightarrow> Transaction option" where
  "parseTransaction bs =
     dbind (readBytes (decoder_of bs)) (\<lambda>fromBytes d1.
     dbind (readBytes d1) (\<lambda>toBytes d2.
     dbind (readU64 d2) (\<lambda>amount d3.
     dbind (readU64 d3) (\<lambda>nonce d4.
       if \<not> atEnd d4 then None
       else case vectorToArray 20 fromBytes of None \<Rightarrow> None
       | Some f \<Rightarrow> (case vectorToArray 20 toBytes of None \<Rightarrow> None
       | Some t \<Rightarrow> Some \<lparr>tx_from = f, tx_to = t, tx_amount = amount, tx_nonce = nonce\<rparr>)))))"

definition transactionHash :: "Transaction \<Rightarrow> Hash32" where
  "transactionHash tx = sha256 (serializeTransaction tx)"

definition tx_wf :: "Transaction \<Rightarrow> bool" where
  "tx_wf tx \<longleftrightarrow> length (tx_from tx) = 20 \<and> length (tx_to tx) = 20"

lemma serializeTransaction_bytes:
  "serializeTransaction tx = blob (tx_from tx) @ blob (tx_to tx) @ be64 (tx_amount tx) @ be64 (tx_nonce tx)"
  by (simp add: serializeTransaction_def encoder_simps)

lemma array_blob_wf [simp]: "length bs = 20 \<Longrightarrow> blob_wf bs" "length bs = 32 \<Longrightarrow> blob_wf bs"
  by (simp_all add: blob_wf_def)

lemma parseTransaction_serialize:
  assumes "tx_wf tx"
  shows "parseTransaction (serializeTransaction tx) = Some tx"
  unfolding parseTransaction_def
  by (intro blob.dbind_writeI
        [where x = "tx_from tx" and r = "blob (tx_to tx) @ be64 (tx_amount tx) @ be64 (tx_nonce tx)"]
      blob.dbind_writeI [where x = "tx_to tx" and r = "be64 (tx_amount tx) @ be64 (tx_nonce tx)"]
      u64.dbind_writeI [where x = "tx_amount tx" and r = "be64 (tx_nonce tx)"]
      u64.dbind_writeI [where x = "tx_nonce tx" and r = "[]"])
    (use assms in \<open>simp_all add: serializeTransaction_bytes tx_wf_def atEnd_dview vectorToArray_def\<close>)

lemma parseTransaction_Some:
  assumes "parseTransaction bs = Some tx"
  shows "bs = serializeTransaction tx \<and> tx_wf tx"
proof -
  have "dview (decoder_of bs) = Some bs" "dec_ok (decoder_of bs)"
    by simp_all
  with assms show ?thesis
    unfolding parseTransaction_def
    by (elim blob.dbind_SomeE u64.dbind_SomeE)
      (auto simp: serializeTransaction_bytes tx_wf_def atEnd_dview vectorToArray_def split: if_splits)
qed

section \<open>Blocks\<close>

record BlockHeader =
  bh_height :: u64
  bh_previousHash :: Hash32
  bh_stateRoot :: Hash32
  bh_txRoot :: Hash32

record Block =
  blk_header :: BlockHeader
  blk_transactions :: "Transaction list"

definition serializeBlockHeader :: "BlockHeader \<Rightarrow> bytes" where
  "serializeBlockHeader h =
     writeBytes (writeBytes (writeBytes (writeU64 [] (bh_height h)) (bh_previousHash h)) (bh_stateRoot h))
       (bh_txRoot h)"

definition parseBlockHeader :: "bytes \<Rightarrow> BlockHeader option" where
  "parseBlockHeader bs =
     dbind (readU64 (decoder_of bs)) (\<lambda>height d1.
     dbind (readBytes d1) (\<lambda>prevBytes d2.
     dbind (readBytes d2) (\<lambda>stateBytes d3.
     dbind (readBytes d3) (\<lambda>txBytes d4.
       if \<not> atEnd d4 then None
       else case vectorToArray 32 prevBytes of None \<Rightarrow> None
       | Some p \<Rightarrow> (case vectorToArray 32 stateBytes of None \<Rightarrow> None
       | Some s \<Rightarrow> (case vectorToArray 32 txBytes of None \<Rightarrow> None
       | Some t \<Rightarrow> Some \<lparr>bh_height = height, bh_previousHash = p, bh_stateRoot = s, bh_txRoot = t\<rparr>))))))"

definition serializeBlock :: "Block \<Rightarrow> bytes" where
  "serializeBlock b =
     foldl (\<lambda>e tx. writeBytes e (serializeTransaction tx))
       (writeU32 (writeBytes [] (serializeBlockHeader (blk_header b)))
          (word_of_nat (length (blk_transactions b))))
       (blk_transactions b)"

fun parse_txs :: "nat \<Rightarrow> decoder \<Rightarrow> (Transaction list \<times> decoder) option" where
  "parse_txs 0 d = Some ([], d)"
| "parse_txs (Suc n) d =
     dbind (readBytes d) (\<lambda>txBytes d1.
       case parseTransaction txBytes of None \<Rightarrow> None
       | Some tx \<Rightarrow> (case parse_txs n d1 of None \<Rightarrow> None | Some (txs, d2) \<Rightarrow> Some (tx # txs, d2)))"

definition parseBlock :: "bytes \<Rightarrow> Block option" where
  "parseBlock bs =
     dbind (readBytes (decoder_of bs)) (\<lambda>headerBytes d1.
       case parseBlockHeader headerBytes of None \<Rightarrow> None
       | Some header \<Rightarrow>
           dbind (readU32 d1) (\<lambda>txCount d2.
             case parse_txs (unat txCount) d2 of None \<Rightarrow> None
             | Some (txs, d3) \<Rightarrow>
                 if \<not> atEnd d3 then None
                 else Some \<lparr>blk_header = header, blk_transactions = txs\<rparr>))"

definition blockHash :: "BlockHeader \<Rightarrow> Hash32" where
  "blockHash h = sha256 (serializeBlockHeader h)"

definition computeTxRoot :: "Transaction list \<Rightarrow> Hash32" where
  "computeTxRoot txs = fst (sha_finish (foldl (\<lambda>s tx. sha_update s (serializeTransaction tx)) sha_init txs))"

definition header_wf :: "BlockHeader \<Rightarrow> bool" where
  "header_wf h \<longleftrightarrow> length (bh_previousHash h) = 32 \<and> length (bh_stateRoot h) = 32 \<and> length (bh_txRoot h) = 32"

definition block_wf :: "Block \<Rightarrow> bool" where
  "block_wf b \<longleftrightarrow> header_wf (blk_header b) \<and> list_all tx_wf (blk_transactions b) \<and>
     length (blk_transactions b) < 2 ^ 32"

lemma serializeBlockHeader_bytes:
  "serializeBlockHeader h = be64 (bh_height h) @ blob (bh_previousHash h) @ blob (bh_stateRoot h) @ blob (bh_txRoot h)"
  by (simp add: serializeBlockHeader_def encoder_simps)

lemma parseBlockHeader_serialize:
  assumes "header_wf h"
  shows "parseBlockHeader (serializeBlockHeader h) = Some h"
  unfolding parseBlockHeader_def
  by (intro u64.dbind_writeI
        [where x = "bh_height h" and r = "blob (bh_previousHash h) @ blob (bh_stateRoot h) @ blob (bh_txRoot h)"]
      blob.dbind_writeI [where x = "bh_previousHash h" and r = "blob (bh_stateRoot h) @ blob (bh_txRoot h)"]
      blob.dbind_writeI [where x = "bh_stateRoot h" and r = "blob (bh_txRoot h)"]
      blob.dbind_writeI [where x = "bh_txRoot h" and r = "[]"])
    (use assms in \<open>simp_all add: serializeBlockHeader_bytes header_wf_def atEnd_dview vectorToArray_def\<close>)

lemma parseBlockHeader_Some:
  assumes "parseBlockHeader bs = Some h"
  shows "bs = serializeBlockHeader h \<and> header_wf h"
proof -
  have "dview (decoder_of bs) = Some bs" "dec_ok (decoder_of bs)"
    by simp_all
  with assms show ?thesis
    unfolding parseBlockHeader_def
    by (elim blob.dbind_SomeE u64.dbind_SomeE)
      (auto simp: serializeBlockHeader_bytes header_wf_def atEnd_dview vectorToArray_def split: if_splits)
qed

definition tx_blobs :: "Transaction list \<Rightarrow> bytes" where
  "tx_blobs txs = concat (map (\<lambda>tx. blob (serializeTransaction tx)) txs)"

lemma tx_blobs_simps [simp]: "tx_blobs [] = []" "tx_blobs (tx # txs) = blob (serializeTransaction tx) @ tx_blobs txs"
  by (simp_all add: tx_blobs_def)

lemma write_txs: "foldl (\<lambda>e tx. writeBytes e (serializeTransaction tx)) e txs = e @ tx_blobs txs"
  by (induction txs arbitrary: e) (simp_all add: encoder_simps)

lemma serializeBlock_bytes:
  "serializeBlock b = blob (serializeBlockHeader (blk_header b)) @
     be32 (word_of_nat (length (blk_transactions b))) @ tx_blobs (blk_transactions b)"
  unfolding serializeBlock_def write_txs by (simp add: encoder_simps)

lemma tx_blob_wf [simp]: "tx_wf tx \<Longrightarrow> blob_wf (serializeTransaction tx)"
  by (simp add: tx_wf_def blob_wf_def serializeTransaction_bytes)

lemma header_blob_wf [simp]: "header_wf h \<Longrightarrow> blob_wf (serializeBlockHeader h)"
  by (simp add: header_wf_def blob_wf_def serializeBlockHeader_bytes)

lemma parse_txs_serialize:
  assumes "list_all tx_wf txs" "dec_ok d" "dview d = Some (tx_blobs txs @ r)"
  shows "\<exists>d'. parse_txs (length txs) d = Some (txs, d') \<and> dec_ok d' \<and> dview d' = Some r"
  using assms
proof (induction txs arbitrary: d)
  case (Cons tx txs)
  have tx: "tx_wf tx" "list_all tx_wf txs"
    using Cons.prems(1) by simp_all
  have "dview d = Some (blob (serializeTransaction tx) @ tx_blobs txs @ r)"
    using Cons.prems(3) by simp
  from blob.read_write [OF Cons.prems(2) this tx_blob_wf [OF tx(1)]] blob.read_ok [OF Cons.prems(2)]
  obtain d1 where d1: "readBytes d = (Some (serializeTransaction tx), d1)" "dec_ok d1"
    "dview d1 = Some (tx_blobs txs @ r)"
    by (metis prod.collapse)
  from Cons.IH [OF tx(2) d1(2,3)] show ?case
    by (auto simp: d1(1) dbind_def parseTransaction_serialize [OF tx(1)])
qed auto

lemma parse_txs_Some:
  assumes "parse_txs n d = Some (txs, d')" "dec_ok d"
  shows "length txs = n \<and> list_all tx_wf txs \<and> dec_ok d' \<and>
    (\<exists>r. dview d' = Some r \<and> dview d = Some (tx_blobs txs @ r)) \<or> n = 0 \<and> txs = [] \<and> d' = d"
  using assms
proof (induction n arbitrary: d txs d')
  case (Suc n)
  then obtain bs r d1 where d1: "blob_wf bs" "dview d = Some (blob bs @ r)" "dec_ok d1" "dview d1 = Some r"
    and k: "(case parseTransaction bs of None \<Rightarrow> None
       | Some tx \<Rightarrow> (case parse_txs n d1 of None \<Rightarrow> None | Some (txs, d2) \<Rightarrow> Some (tx # txs, d2))) = Some (txs, d')"
    by (auto elim: blob.dbind_SomeE)
  from k obtain tx txs' where tx: "parseTransaction bs = Some tx" "parse_txs n d1 = Some (txs', d')" "txs = tx # txs'"
    by (auto split: option.splits prod.splits)
  from parseTransaction_Some [OF tx(1)] Suc.IH [OF tx(2) d1(3)] d1 show ?case
    by (auto simp: tx(3))
qed simp

lemma parseBlock_serialize:
  assumes "block_wf b"
  shows "parseBlock (serializeBlock b) = Some b"
proof -
  let ?h = "blk_header b" and ?txs = "blk_transactions b"
  have wf: "header_wf ?h" "list_all tx_wf ?txs" "unat (word_of_nat (length ?txs) :: u32) = length ?txs"
    using assms by (simp_all add: block_wf_def unat_word_of_nat_32)
  show ?thesis
    unfolding parseBlock_def serializeBlock_bytes
  proof (rule blob.dbind_writeI [where x = "serializeBlockHeader ?h"
        and r = "be32 (word_of_nat (length ?txs)) @ tx_blobs ?txs"]; simp add: wf parseBlockHeader_serialize)
    fix d1
    assume "dec_ok d1" "dview d1 = Some (be32 (word_of_nat (length ?txs)) @ tx_blobs ?txs)"
    then show "dbind (readU32 d1) (\<lambda>txCount d2. case parse_txs (unat txCount) d2 of None \<Rightarrow> None
        | Some (txs, d3) \<Rightarrow> if \<not> atEnd d3 then None else Some \<lparr>blk_header = ?h, blk_transactions = txs\<rparr>) = Some b"
    proof (rule u32.dbind_writeI)
      fix d2
      assume "dec_ok d2" "dview d2 = Some (tx_blobs ?txs)"
      with parse_txs_serialize [OF wf(2), of d2 "[]"] wf(3)
      show "(case parse_txs (unat (word_of_nat (length ?txs) :: u32)) d2 of None \<Rightarrow> None
        | Some (txs, d3) \<Rightarrow> if \<not> atEnd d3 then None else Some \<lparr>blk_header = ?h, blk_transactions = txs\<rparr>) = Some b"
        by (auto simp: atEnd_dview)
    qed simp
  qed
qed

lemma parseBlock_Some:
  assumes "parseBlock bs = Some b"
  shows "bs = serializeBlock b \<and> block_wf b"
proof -
  have "dview (decoder_of bs) = Some bs" "dec_ok (decoder_of bs)"
    by simp_all
  with assms obtain hb h r1 n d2 r2 txs d3 where
    h: "bs = blob hb @ r1" "parseBlockHeader hb = Some h"
    and n: "r1 = be32 n @ r2" "dview d2 = Some r2" "dec_ok d2"
    and txs: "parse_txs (unat n) d2 = Some (txs, d3)" "atEnd d3" "b = \<lparr>blk_header = h, blk_transactions = txs\<rparr>"
    unfolding parseBlock_def
    by (elim blob.dbind_SomeE) (auto elim!: u32.dbind_SomeE split: option.splits if_splits prod.splits)
  have hb: "hb = serializeBlockHeader h" "header_wf h"
    using parseBlockHeader_Some [OF h(2)] by simp_all
  have "dec_ok d3" "length txs = unat n" "list_all tx_wf txs" "r2 = tx_blobs txs"
    using parse_txs_Some [OF txs(1) n(3)] txs(2) n(2,3) by (auto simp: atEnd_dview)
  then show ?thesis
    using h(1) n(1) hb unsigned_less [of n] by (auto simp: txs(3) serializeBlock_bytes block_wf_def)
qed

lemma computeTxRoot_sha256: "computeTxRoot txs = sha256 (concat (map serializeTransaction txs))"
proof -
  have "foldl (\<lambda>s tx. sha_update s (serializeTransaction tx)) sha_init txs =
      foldl sha_update sha_init (map serializeTransaction txs)"
    by (simp add: foldl_map)
  then show ?thesis
    using sha.digest_rep [OF sha.rep_foldl [OF sha.rep_fresh, of "map serializeTransaction txs"]]
    by (simp add: computeTxRoot_def)
qed

lemma length_hashes [simp]:
  "length (blockHash h) = 32" "length (computeTxRoot txs) = 32" "length (transactionHash tx) = 32"
  by (simp_all add: blockHash_def computeTxRoot_sha256 transactionHash_def length_sha256)

section \<open>Properties\<close>

text \<open>
  C16. Hexadecimal text: \<^verbatim>\<open>parseAddress\<close> and \<^verbatim>\<open>parseHash32\<close> succeed exactly on the text that
  \<^verbatim>\<open>toHex\<close> prints for an array of the right size (lower case, no other spelling), and then
  leave that array in the output parameter, whatever it held before.
\<close>

theorem hex_text_roundtrip:
  assumes "length out20 = 20" "length out32 = 32"
  shows "(parseAddress hex out20 = (True, a) \<longleftrightarrow> hex = toHex a \<and> length a = 20) \<and>
    (parseHash32 hex out32 = (True, a) \<longleftrightarrow> hex = toHex a \<and> length a = 32)"
  using assms by (simp add: parseAddress_def parseHash32_def parseHexImpl_iff)

theorem hex_text_roundtrip_witness:
  "(parseAddress (toHex ZERO_ADDRESS) ZERO_ADDRESS = (True, ZERO_ADDRESS) \<longleftrightarrow>
     toHex ZERO_ADDRESS = toHex ZERO_ADDRESS \<and> length ZERO_ADDRESS = 20) \<and>
   (parseHash32 (toHex ZERO_ADDRESS) ZERO_HASH32 = (True, ZERO_ADDRESS) \<longleftrightarrow>
     toHex ZERO_ADDRESS = toHex ZERO_ADDRESS \<and> length ZERO_ADDRESS = 32)"
  by (rule hex_text_roundtrip) (simp_all add: ZERO_ADDRESS_def ZERO_HASH32_def)

text \<open>
  A rejected text can still change the output parameter: forty characters whose digits are
  valid except for the last pair make \<^verbatim>\<open>parseAddress\<close> return false after it has overwritten the
  first nineteen bytes.
\<close>

theorem parseAddress_failure_overwrites:
  "parseAddress (replicate 38 (CHR ''f'') @ ''zz'') ZERO_ADDRESS = (False, replicate 19 0xFF @ [0])"
  by (simp add: parseAddress_def parseHexImpl_def ZERO_ADDRESS_def numeral_eq_Suc hexValue_def)

text \<open>
  C18. Blocks and transactions on the wire: the parsers accept a byte string exactly when it is the
  serialization of a well-formed value, and return that value. So a stored block reads back
  unchanged, no trailing bytes are ignored, and two different blocks never serialize alike.
\<close>

theorem block_wire_format:
  "(parseBlock bs = Some b \<longleftrightarrow> bs = serializeBlock b \<and> block_wf b) \<and>
   (parseTransaction bs = Some tx \<longleftrightarrow> bs = serializeTransaction tx \<and> tx_wf tx)"
  using parseBlock_serialize parseBlock_Some parseTransaction_serialize parseTransaction_Some by blast

end
