(* ===== verification/OrderedMap.thy ===== *)
theory OrderedMap
  imports Prelude "HOL-Library.List_Lexorder"
begin

text \<open>
  \<^verbatim>\<open>std::map\<close> as a strictly sorted association list: iteration order is list order, the order of
  byte-array keys is the lexicographic one, and two maps with the same entries are the same list.
  The locale \<open>ordered_map\<close> is the interface its clients use.
\<close>

fun map_set :: "'k::linorder \<Rightarrow> 'v \<Rightarrow> ('k \<times> 'v) list \<Rightarrow> ('k \<times> 'v) list" where
  "map_set k v [] = [(k, v)]"
| "map_set k v ((k', v') # m) =
     (if k < k' then (k, v) # (k', v') # m
      else if k = k' then (k, v) # m
      else (k', v') # map_set k v m)"

definition map_find :: "('k \<times> 'v) list \<Rightarrow> 'k \<Rightarrow> 'v option" where
  "map_find m k = map_of m k"

definition map_erase :: "'k \<Rightarrow> ('k \<times> 'v) list \<Rightarrow> ('k \<times> 'v) list" where
  "map_erase k m = filter (\<lambda>(k', v). k' \<noteq> k) m"

definition map_sorted :: "('k::linorder \<times> 'v) list \<Rightarrow> bool" where
  "map_sorted m \<longleftrightarrow> sorted_wrt (<) (map fst m)"

lemma map_sorted_simps [simp]:
  "map_sorted []" "map_sorted ((k, v) # m) \<longleftrightarrow> (\<forall>k' \<in> fst ` set m. k < k') \<and> map_sorted m"
  by (simp_all add: map_sorted_def)

lemma keys_map_set [simp]: "fst ` set (map_set k v m) = insert k (fst ` set m)"
  by (induction k v m rule: map_set.induct) (simp_all add: insert_commute)

lemma map_sorted_set: "map_sorted m \<Longrightarrow> map_sorted (map_set k v m)"
  by (induction m) (fastforce simp: not_less_iff_gr_or_eq)+

lemma map_of_fresh: "map_sorted ((k, v) # m) \<Longrightarrow> map_of m k = None"
  by (force simp: map_of_eq_None_iff)

lemma map_of_map_set: "map_sorted m \<Longrightarrow> map_of (map_set k v m) = (map_of m)(k \<mapsto> v)"
  by (induction m) (auto simp: fun_eq_iff)

lemma map_sorted_erase: "map_sorted m \<Longrightarrow> map_sorted (map_erase k m)"
  by (induction m) (auto simp: map_erase_def)

lemma map_of_erase: "map_of (map_erase k m) = (map_of m)(k := None)"
  by (induction m) (auto simp: map_erase_def fun_eq_iff)

lemma map_sorted_distinct: "map_sorted m \<Longrightarrow> distinct (map fst m)"
  by (simp add: map_sorted_def strict_sorted_iff)

text \<open>The list is determined by its entries.\<close>

lemma map_sorted_ext:
  assumes "map_sorted m" "map_sorted m'" "map_of m = map_of m'"
  shows "m = m'"
proof -
  have "map fst m = map fst m'"
  proof (rule sorted_distinct_set_unique)
    show "set (map fst m) = set (map fst m')"
      using assms(3) by (metis dom_map_of_conv_image_fst list.set_map)
  qed (use assms map_sorted_distinct in \<open>auto simp: map_sorted_def strict_sorted_iff\<close>)
  moreover have "map snd m = map snd m'"
    using map_sorted_distinct [OF assms(1)] map_sorted_distinct [OF assms(2)] calculation assms(3)
    by (intro nth_equalityI) (auto dest: map_eq_imp_length_eq, metis length_map map_of_eq_Some_iff nth_map nth_mem option.inject prod.collapse)
  ultimately show ?thesis
    by (metis zip_map_fst_snd)
qed

text \<open>Assigning the entries of a map one by one into an empty map rebuilds it.\<close>

lemma map_set_last:
  "(\<forall>k' \<in> fst ` set m. k' < k) \<Longrightarrow> map_set k v m = m @ [(k, v)]"
  by (induction m) auto

lemma map_rebuild:
  assumes "map_sorted m"
  shows "foldl (\<lambda>acc (k, v). map_set k v acc) [] m = m"
  using assms
proof (induction m rule: rev_induct)
  case (snoc e m)
  then have "map_sorted m" "\<forall>k' \<in> fst ` set m. k' < fst e"
    by (auto simp: map_sorted_def sorted_wrt_append)
  with snoc.IH show ?case
    by (cases e) (simp add: map_set_last)
qed simp

lemma map_find_fun: "map_find m = map_of m"
  by (simp add: fun_eq_iff map_find_def)

locale ordered_map =
  fixes empty :: 'm and find :: "'m \<Rightarrow> 'k \<Rightarrow> 'v option" and assign :: "'k \<Rightarrow> 'v \<Rightarrow> 'm \<Rightarrow> 'm"
    and erase :: "'k \<Rightarrow> 'm \<Rightarrow> 'm" and inv :: "'m \<Rightarrow> bool"
  assumes inv_empty: "inv empty" and find_empty: "find empty k = None"
    and inv_assign: "inv m \<Longrightarrow> inv (assign k v m)"
    and find_assign: "inv m \<Longrightarrow> find (assign k v m) = (find m)(k \<mapsto> v)"
    and inv_erase: "inv m \<Longrightarrow> inv (erase k m)"
    and find_erase: "inv m \<Longrightarrow> find (erase k m) = (find m)(k := None)"
    and ext: "inv m \<Longrightarrow> inv m' \<Longrightarrow> find m = find m' \<Longrightarrow> m = m'"
begin

lemma assign_swap: "inv m \<Longrightarrow> k \<noteq> k' \<Longrightarrow> assign k v (assign k' v' m) = assign k' v' (assign k v m)"
  by (rule ext) (simp_all add: inv_assign find_assign fun_upd_twist)

lemma assign_over: "inv m \<Longrightarrow> assign k v (assign k v' m) = assign k v m"
  by (rule ext) (simp_all add: inv_assign find_assign)

lemma erase_assign: "inv m \<Longrightarrow> find m k = None \<Longrightarrow> erase k (assign k v m) = m"
  by (rule ext) (auto simp: inv_assign find_assign inv_erase find_erase fun_eq_iff)

end

interpretation stdmap: ordered_map "[]" map_find map_set map_erase map_sorted
  by unfold_locales
    (simp_all add: map_sorted_set map_of_map_set map_sorted_erase map_of_erase
      map_sorted_ext map_find_fun)

end
