(* ===== verification/Ledger.thy ===== *)
theory Ledger
  imports L1Types OrderedMap
begin

text \<open>
  The account ledger \<^verbatim>\<open>23-blockchain/l1/ledger.cpp\<close>: the state-transition function, the state root
  and whole-state snapshots, over the sorted map of \<open>OrderedMap\<close>. The abstract ledger is the
  function from addresses to account states (\<open>ledger_get\<close>).
\<close>

record AccountState =
  acc_balance :: u64
  acc_nonce :: u64

definition empty_account :: AccountState where
  "empty_account = \<lparr>acc_balance = 0, acc_nonce = 0\<rparr>"

datatype TxResult = TxOk | InsufficientBalance | InvalidNonce

type_synonym ledger = "(Address \<times> AccountState) list"

definition ledger_get :: "ledger \<Rightarrow> Address \<Rightarrow> AccountState" where
  "ledger_get L addr = (case map_find L addr of None \<Rightarrow> empty_account | Some s \<Rightarrow> s)"

definition ledger_apply :: "ledger \<Rightarrow> Transaction \<Rightarrow> TxResult \<times> ledger" where
  "ledger_apply L tx =
     (let sender = ledger_get L (tx_from tx) in
      if tx_nonce tx \<noteq> acc_nonce sender then (InvalidNonce, L)
      else if acc_balance sender < tx_amount tx then (InsufficientBalance, L)
      else
        let L1 = map_set (tx_from tx)
                   (sender\<lparr>acc_balance := acc_balance sender - tx_amount tx, acc_nonce := acc_nonce sender + 1\<rparr>) L;
            recipient = ledger_get L1 (tx_to tx)
        in (TxOk, map_set (tx_to tx) (recipient\<lparr>acc_balance := acc_balance recipient + tx_amount tx\<rparr>) L1))"

definition root_step :: "sha256_state \<Rightarrow> Address \<times> AccountState \<Rightarrow> sha256_state" where
  "root_step h = (\<lambda>(addr, s).
     sha_update (sha_update (sha_update h addr) (be64 (acc_balance s))) (be64 (acc_nonce s)))"

definition computeStateRoot :: "ledger \<Rightarrow> Hash32" where
  "computeStateRoot L = fst (sha_finish (foldl root_step sha_init L))"

definition snapshot :: "ledger \<Rightarrow> (Address \<times> AccountState) list" where
  "snapshot L = L"

definition loadSnapshot :: "(Address \<times> AccountState) list \<Rightarrow> ledger" where
  "loadSnapshot entries = foldl (\<lambda>acc (addr, s). map_set addr s acc) [] entries"

section \<open>The state transition\<close>

lemma ledger_get_Nil [simp]: "ledger_get [] a = empty_account"
  by (simp add: ledger_get_def map_find_def)

lemma ledger_get_set:
  "map_sorted L \<Longrightarrow> ledger_get (map_set k v L) = (ledger_get L)(k := v)"
  by (auto simp: fun_eq_iff ledger_get_def stdmap.find_assign)

text \<open>What a successful transaction does to the abstract ledger; a transfer to oneself only
  advances the nonce.\<close>

definition transfer :: "(Address \<Rightarrow> AccountState) \<Rightarrow> Transaction \<Rightarrow> (Address \<Rightarrow> AccountState)" where
  "transfer f tx = (\<lambda>a.
     \<lparr>acc_balance = acc_balance (f a) - (if a = tx_from tx then tx_amount tx else 0)
                      + (if a = tx_to tx then tx_amount tx else 0),
      acc_nonce = acc_nonce (f a) + (if a = tx_from tx then 1 else 0)\<rparr>)"

definition tx_valid :: "(Address \<Rightarrow> AccountState) \<Rightarrow> Transaction \<Rightarrow> TxResult" where
  "tx_valid f tx =
     (if tx_nonce tx \<noteq> acc_nonce (f (tx_from tx)) then InvalidNonce
      else if acc_balance (f (tx_from tx)) < tx_amount tx then InsufficientBalance
      else TxOk)"

lemma ledger_apply_result: "fst (ledger_apply L tx) = tx_valid (ledger_get L) tx"
  by (simp add: ledger_apply_def tx_valid_def Let_def)

lemma ledger_apply_rejects: "fst (ledger_apply L tx) \<noteq> TxOk \<Longrightarrow> snd (ledger_apply L tx) = L"
  by (auto simp: ledger_apply_def Let_def split: if_splits)

lemma ledger_apply_ok:
  assumes "map_sorted L" "fst (ledger_apply L tx) = TxOk"
  shows "map_sorted (snd (ledger_apply L tx))" "ledger_get (snd (ledger_apply L tx)) = transfer (ledger_get L) tx"
proof -
  have v: "tx_nonce tx = acc_nonce (ledger_get L (tx_from tx))" "\<not> acc_balance (ledger_get L (tx_from tx)) < tx_amount tx"
    using assms(2) by (auto simp: ledger_apply_result tx_valid_def split: if_splits)
  then show "map_sorted (snd (ledger_apply L tx))"
    using assms(1) by (simp add: ledger_apply_def Let_def map_sorted_set)
  show "ledger_get (snd (ledger_apply L tx)) = transfer (ledger_get L) tx"
    using v assms(1)
    by (auto simp: ledger_apply_def Let_def ledger_get_set map_sorted_set transfer_def fun_eq_iff)
qed

section \<open>Conservation\<close>

definition total_supply :: "ledger \<Rightarrow> nat" where
  "total_supply L = sum_list (map (\<lambda>(a, s). unat (acc_balance s)) L)"

lemma total_supply_simps [simp]: "total_supply [] = 0" "total_supply ((a, s) # L) = unat (acc_balance s) + total_supply L"
  by (simp_all add: total_supply_def)

lemma total_supply_set:
  "map_sorted L \<Longrightarrow>
   total_supply (map_set k v L) + unat (acc_balance (ledger_get L k)) = total_supply L + unat (acc_balance v)"
proof (induction L)
  case (Cons e L)
  then show ?case
    using map_of_fresh [of "fst e" "snd e" L]
    by (cases e) (auto simp: ledger_get_def map_find_def empty_account_def split: option.splits
        dest!: map_of_SomeD)
qed (simp add: ledger_get_def map_find_def empty_account_def)

lemma balance_le_total: "map_sorted L \<Longrightarrow> unat (acc_balance (ledger_get L k)) \<le> total_supply L"
  using total_supply_set [of L k empty_account] by (simp add: empty_account_def)

text \<open>The sum of all balances is conserved as long as it fits 64 bits: no credit wraps around.\<close>

lemma ledger_apply_conserves:
  assumes L: "map_sorted L" "total_supply L < 2 ^ 64" and ok: "fst (ledger_apply L tx) = TxOk"
  shows "total_supply (snd (ledger_apply L tx)) = total_supply L"
proof -
  let ?s = "ledger_get L (tx_from tx)"
  define L1 where "L1 = map_set (tx_from tx)
     (?s\<lparr>acc_balance := acc_balance ?s - tx_amount tx, acc_nonce := acc_nonce ?s + 1\<rparr>) L"
  let ?r = "ledger_get L1 (tx_to tx)"
  have v: "tx_nonce tx = acc_nonce ?s" "tx_amount tx \<le> acc_balance ?s"
    using ok by (auto simp: ledger_apply_result tx_valid_def split: if_splits)
  then have sub: "unat (acc_balance ?s - tx_amount tx) = unat (acc_balance ?s) - unat (tx_amount tx)"
    "unat (tx_amount tx) \<le> unat (acc_balance ?s)"
    by (simp_all add: unat_sub word_le_nat_alt)
  have "total_supply L1 + unat (acc_balance ?s) = total_supply L + unat (acc_balance ?s - tx_amount tx)"
    using total_supply_set [OF L(1), of "tx_from tx"
        "?s\<lparr>acc_balance := acc_balance ?s - tx_amount tx, acc_nonce := acc_nonce ?s + 1\<rparr>"]
    by (simp add: L1_def)
  with sub have L1: "map_sorted L1" "total_supply L1 + unat (tx_amount tx) = total_supply L"
    using map_sorted_set [OF L(1)] by (simp_all add: L1_def)
  have "unat (acc_balance ?r) + unat (tx_amount tx) < 2 ^ 64"
    using balance_le_total [OF L1(1), of "tx_to tx"] L1(2) L(2) by linarith
  then have "unat (acc_balance ?r + tx_amount tx) = unat (acc_balance ?r) + unat (tx_amount tx)"
    by (simp add: unat_word_ariths)
  with total_supply_set [OF L1(1), of "tx_to tx" "?r\<lparr>acc_balance := acc_balance ?r + tx_amount tx\<rparr>"] L1(2)
  have "total_supply (map_set (tx_to tx) (?r\<lparr>acc_balance := acc_balance ?r + tx_amount tx\<rparr>) L1) = total_supply L"
    by simp
  then show ?thesis
    using v by (simp add: ledger_apply_def Let_def L1_def)
qed

lemma apply_all_conserves:
  assumes "map_sorted L" "total_supply L < 2 ^ 64"
  shows "total_supply (foldl (\<lambda>L tx. snd (ledger_apply L tx)) L txs) = total_supply L \<and>
    map_sorted (foldl (\<lambda>L tx. snd (ledger_apply L tx)) L txs)"
  using assms
proof (induction txs arbitrary: L)
  case (Cons tx txs)
  have "total_supply (snd (ledger_apply L tx)) = total_supply L \<and> map_sorted (snd (ledger_apply L tx))"
  proof (cases "fst (ledger_apply L tx) = TxOk")
    case True
    then show ?thesis
      using ledger_apply_conserves ledger_apply_ok(1) Cons.prems by blast
  next
    case False
    then show ?thesis
      using ledger_apply_rejects Cons.prems by simp
  qed
  with Cons show ?case
    by simp
qed simp

section \<open>State root and snapshots\<close>

definition account_bytes :: "Address \<times> AccountState \<Rightarrow> bytes" where
  "account_bytes = (\<lambda>(addr, s). addr @ be64 (acc_balance s) @ be64 (acc_nonce s))"

lemma computeStateRoot_sha256: "computeStateRoot L = sha256 (concat (map account_bytes L))"
proof -
  have "sha_represents (foldl root_step h L) (m @ concat (map account_bytes L))" if "sha_represents h m" for h m
    using that
  proof (induction L arbitrary: h m)
    case (Cons e L)
    obtain a s where e: "e = (a, s)"
      by fastforce
    have "sha_represents (root_step h e) (m @ account_bytes e)"
      using sha.rep_feed [OF sha.rep_feed [OF sha.rep_feed [OF Cons.prems, of a], of "be64 (acc_balance s)"],
          of "be64 (acc_nonce s)"]
      by (simp add: e root_step_def account_bytes_def)
    from Cons.IH [OF this] show ?case
      by simp
  qed simp
  from sha.digest_rep [OF this [OF sha.rep_fresh]] show ?thesis
    by (simp add: computeStateRoot_def)
qed

lemma length_computeStateRoot [simp]: "length (computeStateRoot L) = 32"
  by (simp add: computeStateRoot_sha256 length_sha256)

lemma loadSnapshot_snapshot: "map_sorted L \<Longrightarrow> loadSnapshot (snapshot L) = L"
  by (simp add: loadSnapshot_def snapshot_def map_rebuild)

definition ledger_ok :: "ledger \<Rightarrow> bool" where
  "ledger_ok L \<longleftrightarrow> map_sorted L \<and> (\<forall>a \<in> fst ` set L. length a = 20)"

lemma ledger_ok_set: "ledger_ok L \<Longrightarrow> length k = 20 \<Longrightarrow> ledger_ok (map_set k v L)"
  using map_sorted_set [of L k v] unfolding ledger_ok_def keys_map_set by simp

lemma ledger_ok_apply: "ledger_ok L \<Longrightarrow> tx_wf tx \<Longrightarrow> ledger_ok (snd (ledger_apply L tx))"
  by (simp add: ledger_apply_def Let_def tx_wf_def ledger_ok_set)

lemma length_map_set: "length (map_set k v m) \<le> Suc (length m)"
  by (induction k v m rule: map_set.induct) auto

lemma length_ledger_apply: "length (snd (ledger_apply L tx)) \<le> length L + 2"
proof -
  have "length (map_set k v (map_set k' v' L)) \<le> length L + 2" for k v k' v'
    using length_map_set [of k v "map_set k' v' L"] length_map_set [of k' v' L] by simp
  then show ?thesis
    by (simp add: ledger_apply_def Let_def)
qed

section \<open>Properties\<close>

text \<open>
  C19. \<^verbatim>\<open>Ledger::apply\<close> implements the abstract transition on every branch: the verdict depends on
  the sender's nonce first and on its balance second; a rejected transaction changes nothing; an
  accepted one debits the sender, advances its nonce by one and credits the recipient, and leaves
  every other account as it was; submitting the same transaction again is then rejected for its nonce.
\<close>

theorem ledger_apply_refines_transfer:
  assumes "map_sorted L" "ledger_apply L tx = (r, L')"
  shows "r = tx_valid (ledger_get L) tx \<and> map_sorted L' \<and>
    ledger_get L' = (if r = TxOk then transfer (ledger_get L) tx else ledger_get L) \<and>
    (r \<noteq> TxOk \<or> ledger_apply L' tx = (InvalidNonce, L'))"
proof (cases "r = TxOk")
  case True
  then have ok: "fst (ledger_apply L tx) = TxOk"
    using assms(2) by simp
  note L' = ledger_apply_ok [OF assms(1) ok, unfolded assms(2), simplified]
  have "tx_nonce tx = acc_nonce (ledger_get L (tx_from tx))"
    using ok by (auto simp: ledger_apply_result tx_valid_def split: if_splits)
  then have "tx_nonce tx \<noteq> acc_nonce (ledger_get L' (tx_from tx))"
    by (simp add: L'(2) transfer_def)
  with True L' ok show ?thesis
    by (simp add: ledger_apply_result) (simp add: ledger_apply_def)
next
  case False
  then have "L' = L"
    using ledger_apply_rejects [of L tx] assms(2) by simp
  with False assms show ?thesis
    using ledger_apply_result [of L tx] by simp
qed

theorem ledger_apply_refines_transfer_witness:
  "let L = [([1], \<lparr>acc_balance = 10, acc_nonce = 0\<rparr>)];
       tx = \<lparr>tx_from = [1], tx_to = [2], tx_amount = 4, tx_nonce = 0\<rparr>;
       L' = snd (ledger_apply L tx)
   in TxOk = tx_valid (ledger_get L) tx \<and> ledger_get L' = transfer (ledger_get L) tx \<and>
      ledger_apply L' tx = (InvalidNonce, L')"
proof -
  define L where "L = [([1 :: u8], \<lparr>acc_balance = 10, acc_nonce = 0\<rparr>)]"
  define tx where "tx = \<lparr>tx_from = [1], tx_to = [2], tx_amount = 4, tx_nonce = 0\<rparr>"
  have "fst (ledger_apply L tx) = TxOk"
    by (simp add: L_def tx_def ledger_apply_result tx_valid_def ledger_get_def map_find_def)
  then have "ledger_apply L tx = (TxOk, snd (ledger_apply L tx))"
    by (metis prod.collapse)
  from ledger_apply_refines_transfer [OF _ this] show ?thesis
    by (simp add: L_def tx_def Let_def)
qed

text \<open>
  C20. Money is conserved: over any sequence of transactions, accepted or not, applied to a ledger
  whose balances sum to less than \<open>2 ^ 64\<close>, the sum stays the same; so no balance ever wraps around.
\<close>

theorem ledger_conserves_supply:
  assumes "map_sorted L" "total_supply L < 2 ^ 64"
  shows "total_supply (foldl (\<lambda>L tx. snd (ledger_apply L tx)) L txs) = total_supply L \<and>
    map_sorted (foldl (\<lambda>L tx. snd (ledger_apply L tx)) L txs)"
  by (rule apply_all_conserves [OF assms])

theorem ledger_conserves_supply_witness:
  "total_supply (foldl (\<lambda>L tx. snd (ledger_apply L tx)) [([1], \<lparr>acc_balance = 10, acc_nonce = 0\<rparr>)]
     [\<lparr>tx_from = [1], tx_to = [2], tx_amount = 4, tx_nonce = 0\<rparr>]) =
   total_supply [([1], \<lparr>acc_balance = 10, acc_nonce = 0\<rparr>)] \<and>
   map_sorted (foldl (\<lambda>L tx. snd (ledger_apply L tx)) [([1], \<lparr>acc_balance = 10, acc_nonce = 0\<rparr>)]
     [\<lparr>tx_from = [1], tx_to = [2], tx_amount = 4, tx_nonce = 0\<rparr>])"
  by (rule ledger_conserves_supply) simp_all

text \<open>
  C21. The state root is SHA-256 over the accounts in address order, and it is canonical: two
  ledgers with the same accounts have the same root, however they were built.
\<close>

theorem state_root_canonical:
  assumes "map_sorted L" "map_sorted L'" "map_find L = map_find L'"
  shows "computeStateRoot L = sha256 (concat (map account_bytes L)) \<and> computeStateRoot L = computeStateRoot L'"
  using stdmap.ext [OF assms] by (simp add: computeStateRoot_sha256)

theorem state_root_canonical_witness:
  "computeStateRoot (map_set [2] empty_account (map_set [1] empty_account [])) =
     sha256 (concat (map account_bytes (map_set [2] empty_account (map_set [1] empty_account [])))) \<and>
   computeStateRoot (map_set [2] empty_account (map_set [1] empty_account [])) =
     computeStateRoot (map_set [1] empty_account (map_set [2] empty_account []))"
  by (rule state_root_canonical) (auto simp: map_find_def fun_eq_iff)

end
