(* ===== verification/Chain.thy ===== *)
theory Chain
  imports Ledger KvStore
begin

text \<open>
  The single-node chain \<^verbatim>\<open>23-blockchain/l1/chain.cpp\<close>: an in-memory ledger with a queue of applied
  transactions, persisted block by block in the key-value store. Every \<^verbatim>\<open>kv.put\<close> takes the outcome
  of its log write as an argument (\<open>io\<close>); like the code, the chain ignores whether a write succeeded.
\<close>

record Chain =
  ch_kv :: kv_store
  ch_ledger :: ledger
  ch_pending :: "Transaction list"
  ch_height :: u64
  ch_tip :: Hash32

definition blockKey :: "u64 \<Rightarrow> string" where
  "blockKey height = ''block:'' @ to_string (unat height)"

definition persistBlock :: "io_outcome \<Rightarrow> Chain \<Rightarrow> Block \<Rightarrow> Chain" where
  "persistBlock io c b =
     c\<lparr>ch_kv := snd (kv_put io (ch_kv c) (blockKey (bh_height (blk_header b))) (serializeBlock b))\<rparr>"

definition encode_snapshot :: "(Address \<times> AccountState) list \<Rightarrow> bytes" where
  "encode_snapshot entries =
     foldl (\<lambda>e (addr, s). writeU64 (writeU64 (writeBytes e addr) (acc_balance s)) (acc_nonce s))
       (writeU32 [] (word_of_nat (length entries))) entries"

definition persistSnapshotAndTip :: "(nat \<Rightarrow> io_outcome) \<Rightarrow> Chain \<Rightarrow> Chain" where
  "persistSnapshotAndTip io c =
     (let kv1 = snd (kv_put (io 0) (ch_kv c) ''height'' (writeU64 [] (ch_height c)));
          kv2 = snd (kv_put (io 1) kv1 ''tip'' (ch_tip c));
          kv3 = snd (kv_put (io 2) kv2 ''state_snapshot'' (encode_snapshot (snapshot (ch_ledger c))))
      in c\<lparr>ch_kv := kv3\<rparr>)"

text \<open>The loading loop: a short read ends it, an address of the wrong size is skipped.\<close>

fun load_entries :: "nat \<Rightarrow> decoder \<Rightarrow> (Address \<times> AccountState) list" where
  "load_entries 0 d = []"
| "load_entries (Suc n) d =
     (case readBytes d of (None, _) \<Rightarrow> []
      | (Some addrBytes, d1) \<Rightarrow>
     (case readU64 d1 of (None, _) \<Rightarrow> []
      | (Some balance, d2) \<Rightarrow>
     (case readU64 d2 of (None, _) \<Rightarrow> []
      | (Some nonce, d3) \<Rightarrow>
          (case vectorToArray 20 addrBytes of
             None \<Rightarrow> load_entries n d3
           | Some addr \<Rightarrow> (addr, \<lparr>acc_balance = balance, acc_nonce = nonce\<rparr>) # load_entries n d3))))"

definition load_snapshot_bytes :: "bytes \<Rightarrow> ledger" where
  "load_snapshot_bytes bs =
     (case readU32 (decoder_of bs) of
        (None, _) \<Rightarrow> loadSnapshot []
      | (Some count, d) \<Rightarrow> loadSnapshot (load_entries (unat count) d))"

definition genesis_header :: "ledger \<Rightarrow> BlockHeader" where
  "genesis_header L = \<lparr>bh_height = 0, bh_previousHash = ZERO_HASH32, bh_stateRoot = computeStateRoot L,
     bh_txRoot = computeTxRoot []\<rparr>"

definition initializeGenesisOrLoad :: "(nat \<Rightarrow> io_outcome) \<Rightarrow> Chain \<Rightarrow> Chain" where
  "initializeGenesisOrLoad io c =
     (case kv_get (ch_kv c) ''height'' of
        Some heightBytes \<Rightarrow>
          (let c1 = c\<lparr>ch_height := (case fst (readU64 (decoder_of heightBytes)) of None \<Rightarrow> 0 | Some h \<Rightarrow> h)\<rparr>;
               c2 = (case kv_get (ch_kv c) ''tip'' of
                       None \<Rightarrow> c1
                     | Some tipBytes \<Rightarrow> (case vectorToArray 32 tipBytes of None \<Rightarrow> c1 | Some t \<Rightarrow> c1\<lparr>ch_tip := t\<rparr>))
           in case kv_get (ch_kv c) ''state_snapshot'' of
                None \<Rightarrow> c2
              | Some bs \<Rightarrow> c2\<lparr>ch_ledger := load_snapshot_bytes bs\<rparr>)
      | None \<Rightarrow>
          (let header = genesis_header (ch_ledger c);
               c1 = persistBlock (io 0) c \<lparr>blk_header = header, blk_transactions = []\<rparr>
           in persistSnapshotAndTip (\<lambda>i. io (Suc i)) (c1\<lparr>ch_height := 0, ch_tip := blockHash header\<rparr>)))"

definition new_Chain :: "(nat \<Rightarrow> io_outcome) \<Rightarrow> bytes option \<Rightarrow> Chain" where
  "new_Chain io file =
     initializeGenesisOrLoad io
       \<lparr>ch_kv = kv_open file, ch_ledger = [], ch_pending = [], ch_height = 0, ch_tip = ZERO_HASH32\<rparr>"

definition submitTransaction :: "Chain \<Rightarrow> Transaction \<Rightarrow> TxResult \<times> Chain" where
  "submitTransaction c tx =
     (case ledger_apply (ch_ledger c) tx of (result, L) \<Rightarrow>
        (result, if result = TxOk then c\<lparr>ch_ledger := L, ch_pending := ch_pending c @ [tx]\<rparr>
                 else c\<lparr>ch_ledger := L\<rparr>))"

definition next_header :: "Chain \<Rightarrow> BlockHeader" where
  "next_header c = \<lparr>bh_height = ch_height c + 1, bh_previousHash = ch_tip c,
     bh_stateRoot = computeStateRoot (ch_ledger c), bh_txRoot = computeTxRoot (ch_pending c)\<rparr>"

definition produceBlock :: "(nat \<Rightarrow> io_outcome) \<Rightarrow> Chain \<Rightarrow> Block \<times> Chain" where
  "produceBlock io c =
     (let header = next_header c;
          block = \<lparr>blk_header = header, blk_transactions = ch_pending c\<rparr>;
          c1 = persistBlock (io 0) c block;
          c2 = persistSnapshotAndTip (\<lambda>i. io (Suc i)) (c1\<lparr>ch_height := ch_height c + 1, ch_tip := blockHash header\<rparr>)
      in (block, c2\<lparr>ch_pending := []\<rparr>))"

definition getAccount :: "Chain \<Rightarrow> Address \<Rightarrow> AccountState" where
  "getAccount c addr = ledger_get (ch_ledger c) addr"

definition getBlock :: "Chain \<Rightarrow> u64 \<Rightarrow> Block option" where
  "getBlock c atHeight =
     (case kv_get (ch_kv c) (blockKey atHeight) of None \<Rightarrow> None | Some bs \<Rightarrow> parseBlock bs)"

section \<open>Snapshots read back\<close>

definition snap_entry :: "Address \<times> AccountState \<Rightarrow> bytes" where
  "snap_entry = (\<lambda>(addr, s). blob addr @ be64 (acc_balance s) @ be64 (acc_nonce s))"

lemma encode_snapshot_bytes:
  "encode_snapshot es = be32 (word_of_nat (length es)) @ concat (map snap_entry es)"
proof -
  have "foldl (\<lambda>e (addr, s). writeU64 (writeU64 (writeBytes e addr) (acc_balance s)) (acc_nonce s)) e es =
      e @ concat (map snap_entry es)" for e
    by (induction es arbitrary: e) (auto simp: snap_entry_def encoder_simps)
  then show ?thesis
    by (simp add: encode_snapshot_def encoder_simps)
qed

lemma load_entries_encoded:
  assumes "\<forall>a \<in> fst ` set es. length a = 20" "dec_ok d" "dview d = Some (concat (map snap_entry es) @ r)"
  shows "load_entries (length es) d = es"
  using assms
proof (induction es arbitrary: d)
  case (Cons e es)
  obtain a s where e: "e = (a, s)" "length a = 20"
    using Cons.prems(1) by (cases e) simp
  let ?rest = "concat (map snap_entry es) @ r"
  have v: "dview d = Some (blob a @ be64 (acc_balance s) @ be64 (acc_nonce s) @ ?rest)"
    using Cons.prems(3) by (simp add: e(1) snap_entry_def)
  obtain d1 where d1: "readBytes d = (Some a, d1)" "dec_ok d1" "dview d1 = Some (be64 (acc_balance s) @ be64 (acc_nonce s) @ ?rest)"
    using blob.read_write [OF Cons.prems(2) v] blob.read_ok [OF Cons.prems(2)] e(2) by (metis array_blob_wf(1) prod.collapse)
  obtain d2 where d2: "readU64 d1 = (Some (acc_balance s), d2)" "dec_ok d2" "dview d2 = Some (be64 (acc_nonce s) @ ?rest)"
    using u64.read_write [OF d1(2,3)] u64.read_ok [OF d1(2)] by (metis prod.collapse)
  obtain d3 where d3: "readU64 d2 = (Some (acc_nonce s), d3)" "dec_ok d3" "dview d3 = Some ?rest"
    using u64.read_write [OF d2(2,3)] u64.read_ok [OF d2(2)] by (metis prod.collapse)
  have "load_entries (length es) d3 = es"
    using Cons.IH [OF _ d3(2,3)] Cons.prems(1) by simp
  then show ?case
    by (simp add: d1(1) d2(1) d3(1) vectorToArray_def e)
qed simp

lemma load_snapshot_encode:
  assumes "ledger_ok L" "length L < 2 ^ 32"
  shows "load_snapshot_bytes (encode_snapshot (snapshot L)) = L"
proof -
  have "dview (decoder_of (encode_snapshot L)) = Some (be32 (word_of_nat (length L)) @ concat (map snap_entry L) @ [])"
    by (simp add: encode_snapshot_bytes)
  from u32.read_write [OF _ this] u32.read_ok [of "decoder_of (encode_snapshot L)"]
  obtain d where d: "readU32 (decoder_of (encode_snapshot L)) = (Some (word_of_nat (length L)), d)" "dec_ok d"
    "dview d = Some (concat (map snap_entry L) @ [])"
    by (metis dec_ok_mk(1) prod.collapse)
  have "load_entries (length L) d = L"
    using load_entries_encoded [OF _ d(2,3)] assms(1) by (simp add: ledger_ok_def)
  with d(1) assms show ?thesis
    using loadSnapshot_snapshot by (simp add: load_snapshot_bytes_def snapshot_def unat_word_of_nat_32 ledger_ok_def)
qed

section \<open>The invariant of a chain\<close>

definition replay :: "Transaction list \<Rightarrow> ledger" where
  "replay txs = foldl (\<lambda>L tx. snd (ledger_apply L tx)) [] txs"

definition linked :: "Block list \<Rightarrow> bool" where
  "linked bs \<longleftrightarrow> bs \<noteq> [] \<and> length bs \<le> 2 ^ 64 \<and>
     (\<forall>i < length bs. block_wf (bs ! i) \<and> bh_height (blk_header (bs ! i)) = word_of_nat i \<and>
        bh_previousHash (blk_header (bs ! i)) =
          (if i = 0 then ZERO_HASH32 else blockHash (blk_header (bs ! (i - 1)))) \<and>
        bh_txRoot (blk_header (bs ! i)) = sha256 (concat (map serializeTransaction (blk_transactions (bs ! i)))))"

definition block_txs :: "Block list \<Rightarrow> Transaction list" where
  "block_txs bs = concat (map blk_transactions bs)"

text \<open>
  The blocks \<open>bs\<close> are linked and stored under their heights; height, tip and snapshot in the store
  describe the last of them; the ledger in memory is the replay of all their transactions followed
  by the pending ones.
\<close>

definition stored :: "Block list \<Rightarrow> kv_store \<Rightarrow> bool" where
  "stored bs kv \<longleftrightarrow> kv_inv kv \<and>
     (\<forall>i < length bs. kv_get kv (blockKey (word_of_nat i)) = Some (serializeBlock (bs ! i))) \<and>
     kv_get kv ''height'' = Some (be64 (word_of_nat (length bs - 1))) \<and>
     kv_get kv ''tip'' = Some (blockHash (blk_header (last bs))) \<and>
     kv_get kv ''state_snapshot'' = Some (encode_snapshot (replay (block_txs bs)))"

definition chain_ok :: "Block list \<Rightarrow> Chain \<Rightarrow> bool" where
  "chain_ok bs c \<longleftrightarrow> linked bs \<and> stored bs (ch_kv c) \<and>
     ch_height c = word_of_nat (length bs - 1) \<and> ch_tip c = blockHash (blk_header (last bs)) \<and>
     bh_stateRoot (blk_header (last bs)) = computeStateRoot (replay (block_txs bs)) \<and>
     list_all tx_wf (block_txs bs @ ch_pending c) \<and> ch_ledger c = replay (block_txs bs @ ch_pending c)"

lemma replay_snoc: "replay (txs @ [tx]) = snd (ledger_apply (replay txs) tx)"
  by (simp add: replay_def)

lemma ledger_ok_replay: "list_all tx_wf txs \<Longrightarrow> ledger_ok (replay txs)"
proof (induction txs rule: rev_induct)
  case Nil
  then show ?case
    by (simp add: replay_def ledger_ok_def)
next
  case (snoc tx txs)
  then show ?case
    by (simp add: replay_snoc ledger_ok_apply)
qed

lemma length_replay: "length (replay txs) \<le> 2 * length txs"
proof (induction txs rule: rev_induct)
  case (snoc tx txs)
  then show ?case
    using length_ledger_apply [of "replay txs" tx] by (simp add: replay_snoc)
qed (simp add: replay_def)

lemma replay_balance_0: "acc_balance (ledger_get (replay txs) a) = 0"
proof -
  have "map_sorted (replay txs)" "total_supply (replay txs) = 0"
    using apply_all_conserves [of "[]" txs] by (simp_all add: replay_def)
  then show ?thesis
    using balance_le_total [of "replay txs" a] by (simp add: unat_eq_zero)
qed

lemma blockKey_inj: "i < 2 ^ 64 \<Longrightarrow> j < 2 ^ 64 \<Longrightarrow> blockKey (word_of_nat i) = blockKey (word_of_nat j) \<longleftrightarrow> i = j"
  by (simp add: blockKey_def unat_of_nat)

lemma blockKey_other [simp]:
  "blockKey h \<noteq> ''height''" "blockKey h \<noteq> ''tip''" "blockKey h \<noteq> ''state_snapshot''"
  "''height'' \<noteq> blockKey h" "''tip'' \<noteq> blockKey h" "''state_snapshot'' \<noteq> blockKey h"
  by (simp_all add: blockKey_def)

section \<open>Sizes\<close>

lemma length_blockKey: "length (blockKey h) \<le> 26"
proof -
  have "unat h < 10 ^ Suc 19"
    using unsigned_less [of h] by (rule order_less_le_trans) simp
  then show ?thesis
    using length_to_string [of "unat h" 19] by (simp add: blockKey_def)
qed

lemma length_serializeTransaction: "tx_wf tx \<Longrightarrow> length (serializeTransaction tx) = 64"
  by (simp add: tx_wf_def serializeTransaction_bytes)

lemma length_serializeBlock:
  assumes "header_wf (blk_header b)" "list_all tx_wf (blk_transactions b)"
  shows "length (serializeBlock b) = 124 + 68 * length (blk_transactions b)"
proof -
  have "length (tx_blobs txs) = 68 * length txs" if "list_all tx_wf txs" for txs
    using that by (induction txs) (simp_all add: length_serializeTransaction)
  with assms show ?thesis
    by (simp add: serializeBlock_bytes serializeBlockHeader_bytes header_wf_def)
qed

lemma length_encode_snapshot:
  "ledger_ok L \<Longrightarrow> length (encode_snapshot L) = 4 + 40 * length L"
proof -
  assume "ledger_ok L"
  then have "\<forall>e \<in> set L. length (snap_entry e) = 40"
    by (auto simp: ledger_ok_def snap_entry_def)
  then have "length (concat (map snap_entry L)) = 40 * length L"
    by (induction L) simp_all
  then show ?thesis
    by (simp add: encode_snapshot_bytes)
qed

lemma fits_block:
  "header_wf (blk_header b) \<Longrightarrow> list_all tx_wf (blk_transactions b) \<Longrightarrow> length (blk_transactions b) < 2 ^ 24 \<Longrightarrow>
   kv_fits (Put (blockKey h) (serializeBlock b))"
  using length_blockKey [of h] by (simp add: kv_fits_simps length_serializeBlock)

lemma fits_snapshot:
  assumes "list_all tx_wf txs" "length txs < 2 ^ 24"
  shows "kv_fits (Put ''state_snapshot'' (encode_snapshot (replay txs)))"
  using length_encode_snapshot [OF ledger_ok_replay [OF assms(1)]] length_replay [of txs] assms(2)
  by (simp add: kv_fits_simps)

section \<open>Operations keep the invariant\<close>

text \<open>The four writes of a block, all successful.\<close>

definition put_block :: "kv_store \<Rightarrow> Block \<Rightarrow> ledger \<Rightarrow> kv_store" where
  "put_block kv b L =
     foldl (\<lambda>kv (k, v). snd (kv_put Io_ok kv k v)) kv
       [(blockKey (bh_height (blk_header b)), serializeBlock b),
        (''height'', be64 (bh_height (blk_header b))), (''tip'', blockHash (blk_header b)),
        (''state_snapshot'', encode_snapshot L)]"

lemma persist_block_ok:
  "persistSnapshotAndTip (\<lambda>i. Io_ok) ((persistBlock Io_ok c b)\<lparr>ch_height := bh_height (blk_header b),
     ch_tip := blockHash (blk_header b)\<rparr>) =
   c\<lparr>ch_kv := put_block (ch_kv c) b (ch_ledger c), ch_height := bh_height (blk_header b),
     ch_tip := blockHash (blk_header b)\<rparr>"
  by (simp add: persistSnapshotAndTip_def persistBlock_def put_block_def Let_def snapshot_def encoder_simps)

lemma kv_get_put_block:
  "kv_get (put_block kv b L) k =
     (if k = ''state_snapshot'' then Some (encode_snapshot L)
      else if k = ''tip'' then Some (blockHash (blk_header b))
      else if k = ''height'' then Some (be64 (bh_height (blk_header b)))
      else if k = blockKey (bh_height (blk_header b)) then Some (serializeBlock b)
      else kv_get kv k)"
  by (simp add: put_block_def kv.lookup_store)

lemma stored_snoc:
  assumes kv: "kv_inv kv" "\<forall>i < length bs. kv_get kv (blockKey (word_of_nat i)) = Some (serializeBlock (bs ! i))"
    and len: "length bs < 2 ^ 64" and h: "bh_height (blk_header b) = word_of_nat (length bs)"
    and b: "header_wf (blk_header b)" "list_all tx_wf (block_txs (bs @ [b]))" "length (block_txs (bs @ [b])) < 2 ^ 24"
  shows "stored (bs @ [b]) (put_block kv b (replay (block_txs (bs @ [b]))))"
  unfolding stored_def
proof (intro conjI allI impI)
  have txs: "list_all tx_wf (blk_transactions b)" "length (blk_transactions b) < 2 ^ 24"
    using b(2,3) by (simp_all add: block_txs_def)
  show "kv_inv (put_block kv b (replay (block_txs (bs @ [b]))))"
    unfolding put_block_def
    by (rule kv.good_stores [OF kv(1)])
      (use fits_block [OF b(1) txs] fits_snapshot [OF b(2,3)] in \<open>simp add: kv_fits_simps(1) [of "''height''"] kv_fits_simps(1) [of "''tip''"]\<close>)
  fix i
  assume "i < length (bs @ [b])"
  then show "kv_get (put_block kv b (replay (block_txs (bs @ [b])))) (blockKey (word_of_nat i)) =
      Some (serializeBlock ((bs @ [b]) ! i))"
    using kv(2) len blockKey_inj [of i "length bs"] by (auto simp: kv_get_put_block h nth_append)
qed (simp_all add: kv_get_put_block h)

lemma linked_snoc:
  assumes "bs = [] \<or> linked bs" "length bs < 2 ^ 64" "block_wf b" "bh_height (blk_header b) = word_of_nat (length bs)"
    and "bh_previousHash (blk_header b) = (if bs = [] then ZERO_HASH32 else blockHash (blk_header (last bs)))"
    and "bh_txRoot (blk_header b) = computeTxRoot (blk_transactions b)"
  shows "linked (bs @ [b])"
  using assms
  by (auto simp: linked_def nth_append last_conv_nth computeTxRoot_sha256 less_Suc_eq
      dest: less_imp_diff_less)

lemma chain_ok_new: "chain_ok [\<lparr>blk_header = genesis_header [], blk_transactions = []\<rparr>] (new_Chain (\<lambda>i. Io_ok) None)"
proof -
  let ?b = "\<lparr>blk_header = genesis_header [], blk_transactions = []\<rparr>"
  let ?c = "\<lparr>ch_kv = kv_open None, ch_ledger = [], ch_pending = [], ch_height = 0, ch_tip = ZERO_HASH32\<rparr>"
  have wf: "header_wf (genesis_header [])"
    by (simp add: header_wf_def genesis_header_def ZERO_HASH32_def)
  have replay: "replay (block_txs [?b]) = []"
    by (simp add: replay_def block_txs_def)
  have "stored ([] @ [?b]) (put_block (kv_open None) ?b (replay (block_txs ([] @ [?b]))))"
    by (rule stored_snoc) (use kv_inv_open_new wf in \<open>simp_all add: genesis_header_def block_txs_def\<close>)
  moreover have "linked ([] @ [?b])"
    by (rule linked_snoc) (use wf in \<open>simp_all add: genesis_header_def block_wf_def\<close>)
  moreover have "new_Chain (\<lambda>i. Io_ok) None =
      ?c\<lparr>ch_kv := put_block (kv_open None) ?b [], ch_height := bh_height (blk_header ?b), ch_tip := blockHash (blk_header ?b)\<rparr>"
    using persist_block_ok [where c = ?c and b = ?b] kv_inv_open_new(2)
    by (simp add: new_Chain_def initializeGenesisOrLoad_def kv_get_def Let_def genesis_header_def)
  ultimately show ?thesis
    by (simp add: chain_ok_def replay) (simp add: genesis_header_def replay_def block_txs_def)
qed

lemma chain_ok_submit:
  assumes "chain_ok bs c" "tx_wf tx"
  shows "chain_ok bs (snd (submitTransaction c tx))"
  using assms ledger_apply_rejects [of "ch_ledger c" tx]
  by (cases "ledger_apply (ch_ledger c) tx")
    (auto simp: chain_ok_def submitTransaction_def replay_snoc [of "block_txs bs @ ch_pending c", simplified])

lemma chain_ok_produce:
  assumes c: "chain_ok bs c" and len: "length bs < 2 ^ 64" and txs: "length (block_txs bs @ ch_pending c) < 2 ^ 24"
  shows "chain_ok (bs @ [fst (produceBlock (\<lambda>i. Io_ok) c)]) (snd (produceBlock (\<lambda>i. Io_ok) c))"
    "ch_pending (snd (produceBlock (\<lambda>i. Io_ok) c)) = []"
proof -
  define b where "b = \<lparr>blk_header = next_header c, blk_transactions = ch_pending c\<rparr>"
  have bs: "bs \<noteq> []" "ch_height c = word_of_nat (length bs - 1)" "ch_tip c = blockHash (blk_header (last bs))"
    and wf: "list_all tx_wf (block_txs bs @ ch_pending c)" and L: "ch_ledger c = replay (block_txs bs @ ch_pending c)"
    and kv: "stored bs (ch_kv c)" and lk: "linked bs"
    using c by (simp_all add: chain_ok_def linked_def)
  have all: "block_txs (bs @ [b]) = block_txs bs @ ch_pending c"
    by (simp add: block_txs_def b_def)
  have h: "bh_height (blk_header b) = word_of_nat (length bs)" "ch_height c + 1 = bh_height (blk_header b)"
    using bs(1,2) by (cases bs; simp add: b_def next_header_def)+
  have hwf: "header_wf (blk_header b)"
    by (simp add: b_def header_wf_def next_header_def bs(3))
  have st: "stored (bs @ [b]) (put_block (ch_kv c) b (ch_ledger c))"
    using stored_snoc [of "ch_kv c" bs b] kv len h(1) hwf wf txs by (simp add: all L stored_def)
  have "linked (bs @ [b])"
    by (rule linked_snoc) (use lk len h(1) hwf wf txs bs in \<open>auto simp: b_def next_header_def block_wf_def\<close>)
  moreover have res: "produceBlock (\<lambda>i. Io_ok) c =
      (b, c\<lparr>ch_kv := put_block (ch_kv c) b (ch_ledger c), ch_height := bh_height (blk_header b),
            ch_tip := blockHash (blk_header b), ch_pending := []\<rparr>)"
    using persist_block_ok [where c = c and b = b] h(2)
    by (simp add: produceBlock_def Let_def b_def [symmetric]) (simp add: b_def)
  ultimately show "chain_ok (bs @ [fst (produceBlock (\<lambda>i. Io_ok) c)]) (snd (produceBlock (\<lambda>i. Io_ok) c))"
    using st wf L h(1) by (simp add: chain_ok_def all) (simp add: b_def next_header_def)
  show "ch_pending (snd (produceBlock (\<lambda>i. Io_ok) c)) = []"
    by (simp add: res)
qed

section \<open>Restart\<close>

text \<open>Opening the file of a valid chain loads the state of its last block; pending transactions are gone.\<close>

lemma chain_reopen:
  assumes c: "chain_ok bs c" and txs: "length (block_txs bs) < 2 ^ 24"
  shows "new_Chain io (Some (kv_wal (ch_kv c))) = c\<lparr>ch_ledger := replay (block_txs bs), ch_pending := []\<rparr>"
proof -
  have kv: "kv_open (Some (kv_wal (ch_kv c))) = ch_kv c"
    using c kv.reopen_good by (simp add: chain_ok_def stored_def)
  have h: "fst (readU64 (decoder_of (be64 w))) = Some w" for w
    using u64.read_write [of "decoder_of (be64 w)" w "[]"] by simp
  have wf: "list_all tx_wf (block_txs bs)"
    using c by (simp add: chain_ok_def)
  have "length (replay (block_txs bs)) < 2 ^ 32"
    using length_replay [of "block_txs bs"] txs by simp
  from load_snapshot_encode [OF ledger_ok_replay [OF wf] this]
  have "load_snapshot_bytes (encode_snapshot (replay (block_txs bs))) = replay (block_txs bs)"
    by (simp add: snapshot_def)
  with c show ?thesis
    by (simp add: new_Chain_def kv initializeGenesisOrLoad_def chain_ok_def stored_def h vectorToArray_def Let_def)
qed

section \<open>Runs\<close>

text \<open>
  The runs of this section are runs in which every disk write succeeds: \<open>chain_step\<close> and \<open>fresh_run\<close> pass
  the outcome \<open>Io_ok\<close> to each write of the constructor and of \<open>produceBlock\<close>. This is an assumption on the
  disk, not something the code enforces: \<open>produceBlock\<close> takes the outcome of each of its writes as an
  argument, and the code ignores it. What is shown of fresh runs is not true when a write fails; C25 says
  what happens then.
\<close>

datatype chain_event = Submit Transaction | Produce

fun chain_step :: "Chain \<Rightarrow> chain_event \<Rightarrow> Chain" where
  "chain_step c (Submit tx) = snd (submitTransaction c tx)"
| "chain_step c Produce = snd (produceBlock (\<lambda>i. Io_ok) c)"

definition fresh_run :: "chain_event list \<Rightarrow> Chain" where
  "fresh_run es = foldl chain_step (new_Chain (\<lambda>i. Io_ok) None) es"

fun event_wf :: "chain_event \<Rightarrow> bool" where
  "event_wf (Submit tx) = tx_wf tx"
| "event_wf Produce = True"

lemma chain_run_ok:
  assumes "list_all event_wf es" "length es < 2 ^ 24"
  shows "\<exists>bs. chain_ok bs (fresh_run es) \<and> length bs \<le> Suc (length es) \<and>
    length (block_txs bs @ ch_pending (fresh_run es)) \<le> length es"
  using assms
proof (induction es rule: rev_induct)
  case Nil
  have "ch_pending (new_Chain (\<lambda>i. Io_ok) None) = []"
    using chain_ok_new
    by (simp add: new_Chain_def initializeGenesisOrLoad_def kv_get_def kv_inv_open_new persistBlock_def
        persistSnapshotAndTip_def Let_def)
  with chain_ok_new show ?case
    by (intro exI [where x = "[\<lparr>blk_header = genesis_header [], blk_transactions = []\<rparr>]"])
      (simp add: fresh_run_def block_txs_def)
next
  case (snoc e es)
  then obtain bs where bs: "chain_ok bs (fresh_run es)" "length bs \<le> Suc (length es)"
    "length (block_txs bs @ ch_pending (fresh_run es)) \<le> length es"
    by auto
  show ?case
  proof (cases e)
    case (Submit tx)
    then have "chain_ok bs (fresh_run (es @ [e]))"
      using chain_ok_submit [OF bs(1)] snoc.prems(1) by (simp add: fresh_run_def)
    moreover have "length (ch_pending (fresh_run (es @ [e]))) \<le> Suc (length (ch_pending (fresh_run es)))"
      by (simp add: fresh_run_def Submit submitTransaction_def split: prod.split)
    ultimately show ?thesis
      using bs(2,3) by (intro exI [where x = bs]) simp
  next
    case Produce
    define c where "c = fresh_run es"
    have bound: "length bs < 2 ^ 64" "length (block_txs bs @ ch_pending c) < 2 ^ 24"
      using bs(2,3) snoc.prems(2) by (simp_all add: c_def)
    note p = chain_ok_produce [OF bs(1) [folded c_def] bound]
    have run: "fresh_run (es @ [e]) = snd (produceBlock (\<lambda>i. Io_ok) c)"
      by (simp add: fresh_run_def c_def Produce)
    have "blk_transactions (fst (produceBlock (\<lambda>i. Io_ok) c)) = ch_pending c"
      by (simp add: produceBlock_def Let_def)
    with p bs(2,3) show ?thesis
      unfolding run by (intro exI [where x = "bs @ [fst (produceBlock (\<lambda>i. Io_ok) c)]"]) (simp add: block_txs_def c_def)
  qed
qed

section \<open>Properties\<close>

text \<open>
  C22. A chain is a hash chain of the blocks it stored, as long as every disk write succeeds: after any
  run of fewer than 2 to the 24 submissions and block productions on a fresh chain in which all writes succeed there are blocks such that every height up to the current one reads
  back its block, each block's previous hash is the hash of the block below it (zero for
  the genesis block), its transaction root is the SHA-256 of its transactions, the tip is the hash
  of the last block, and the last state root is the root of the ledger obtained by replaying all
  transactions of all blocks from nothing.
\<close>

theorem chain_is_linked:
  assumes "list_all event_wf es" "length es < 2 ^ 24" "c = fresh_run es"
  shows "\<exists>bs. linked bs \<and> ch_height c = word_of_nat (length bs - 1) \<and>
    ch_tip c = blockHash (blk_header (last bs)) \<and>
    map (\<lambda>i. getBlock c (word_of_nat i)) [0..<length bs] = map Some bs \<and>
    bh_stateRoot (blk_header (last bs)) = computeStateRoot (replay (block_txs bs))"
proof -
  obtain bs where bs: "chain_ok bs c"
    using chain_run_ok [OF assms(1,2)] assms(3) by blast
  have "getBlock c (word_of_nat i) = Some (bs ! i)" if "i < length bs" for i
    using bs that by (simp add: getBlock_def chain_ok_def stored_def linked_def parseBlock_serialize)
  then have "map (\<lambda>i. getBlock c (word_of_nat i)) [0..<length bs] = map Some bs"
    by (intro nth_equalityI) simp_all
  with bs show ?thesis
    by (auto simp: chain_ok_def)
qed

theorem chain_is_linked_witness:
  "\<exists>bs. linked bs \<and> ch_height (fresh_run [Submit \<lparr>tx_from = ZERO_ADDRESS, tx_to = ZERO_ADDRESS, tx_amount = 0, tx_nonce = 0\<rparr>, Produce]) =
      word_of_nat (length bs - 1)"
  using chain_is_linked [OF _ _ refl, of "[Submit \<lparr>tx_from = ZERO_ADDRESS, tx_to = ZERO_ADDRESS, tx_amount = 0, tx_nonce = 0\<rparr>, Produce]"]
  by (auto simp: tx_wf_def ZERO_ADDRESS_def)

text \<open>
  C23. Restart: on a run in which every disk write succeeded (and of fewer than 2 to the 24 steps), close the
  chain right after a block was produced and open its file again: the new chain object is the old one, with the same height, tip, account states, stored blocks and no
  pending transactions.
\<close>

theorem chain_restart:
  assumes "list_all event_wf es" "Suc (length es) < 2 ^ 24" "c = fresh_run (es @ [Produce])"
  shows "new_Chain io (Some (kv_wal (ch_kv c))) = c"
proof -
  have "list_all event_wf (es @ [Produce])" "length (es @ [Produce]) < 2 ^ 24"
    using assms(1,2) by simp_all
  from chain_run_ok [OF this] obtain bs where bs: "chain_ok bs c" "length (block_txs bs @ ch_pending c) \<le> Suc (length es)"
    unfolding assms(3) by auto
  have none: "ch_pending c = []"
    by (simp add: assms(3) fresh_run_def produceBlock_def Let_def)
  with bs(1) have "ch_ledger c = replay (block_txs bs)"
    by (simp add: chain_ok_def)
  with chain_reopen [OF bs(1), of io] bs(2) assms(2) none show ?thesis
    by simp
qed

theorem chain_restart_witness:
  "new_Chain (\<lambda>i. Io_open_failed) (Some (kv_wal (ch_kv (fresh_run ([Produce] @ [Produce]))))) = fresh_run ([Produce] @ [Produce])"
  by (rule chain_restart [where es = "[Produce]"]) simp_all

text \<open>
  C24. A chain has no money: the genesis ledger is empty and no operation issues balance, so on
  every run on a fresh chain (its writes succeeding) every account has balance 0 and a transfer of a positive amount is never accepted.
\<close>

theorem chain_never_funds:
  assumes "list_all event_wf es" "length es < 2 ^ 24"
  shows "acc_balance (getAccount (fresh_run es) a) = 0 \<and>
    (tx_amount tx = 0 \<or> fst (submitTransaction (fresh_run es) tx) \<noteq> TxOk)"
proof -
  obtain bs where "chain_ok bs (fresh_run es)"
    using chain_run_ok [OF assms] by blast
  then have z: "acc_balance (ledger_get (ch_ledger (fresh_run es)) x) = 0" for x
    by (simp add: chain_ok_def replay_balance_0)
  have "fst (ledger_apply (ch_ledger (fresh_run es)) tx) \<noteq> TxOk" if "tx_amount tx \<noteq> 0"
    using that by (auto simp: ledger_apply_result tx_valid_def z word_gt_0)
  with z show ?thesis
    by (auto simp: getAccount_def submitTransaction_def split: prod.splits)
qed

theorem chain_never_funds_witness:
  "acc_balance (getAccount (fresh_run [Produce]) ZERO_ADDRESS) = 0 \<and>
   fst (submitTransaction (fresh_run [Produce]) \<lparr>tx_from = ZERO_ADDRESS, tx_to = ZERO_ADDRESS, tx_amount = 5, tx_nonce = 0\<rparr>) \<noteq> TxOk"
  using chain_never_funds [of "[Produce]" ZERO_ADDRESS
      "\<lparr>tx_from = ZERO_ADDRESS, tx_to = ZERO_ADDRESS, tx_amount = 5, tx_nonce = 0\<rparr>"] by simp

text \<open>
  C25. Producing a block is not atomic, and the outcome of its writes is ignored. After any run whose
  writes succeeded: if the write of the tip fails after those of the block and
  of the height succeeded, the chain reopens with the new height but the old tip and the old
  accounts, and the next block it produces names the same predecessor as the block before it.
\<close>

theorem torn_block_breaks_the_chain:
  assumes "list_all event_wf es" "length es < 2 ^ 24" "c = fresh_run es"
    and "io = (\<lambda>i. if i \<le> 1 then Io_ok else Io_open_failed)"
    and "produceBlock io c = (b, c')" "r = new_Chain io (Some (kv_wal (ch_kv c')))"
  shows "ch_height r = ch_height c + 1 \<and> ch_tip r = ch_tip c \<and>
    bh_height (blk_header (fst (produceBlock io r))) = bh_height (blk_header b) + 1 \<and>
    bh_previousHash (blk_header (fst (produceBlock io r))) = bh_previousHash (blk_header b)"
proof -
  obtain bs where bs: "chain_ok bs c" "length (block_txs bs @ ch_pending c) \<le> length es"
    using chain_run_ok [OF assms(1,2)] assms(3) by blast
  define b1 where "b1 = \<lparr>blk_header = next_header c, blk_transactions = ch_pending c\<rparr>"
  define kv1 where "kv1 = snd (kv_put Io_ok (ch_kv c) (blockKey (ch_height c + 1)) (serializeBlock b1))"
  define kv2 where "kv2 = snd (kv_put Io_ok kv1 ''height'' (be64 (ch_height c + 1)))"
  have wf: "header_wf (next_header c)" "list_all tx_wf (ch_pending c)" "length (ch_pending c) < 2 ^ 24"
    using bs assms(2) by (simp_all add: chain_ok_def header_wf_def next_header_def)
  have "kv_fits (Put (blockKey (ch_height c + 1)) (serializeBlock b1))"
    using fits_block [of b1] wf by (simp add: b1_def)
  then have inv: "kv_inv kv2"
    using bs(1) kv.good_store by (simp add: kv2_def kv1_def chain_ok_def stored_def kv_fits_simps(1) [of "''height''"])
  have get: "kv_get kv2 ''height'' = Some (be64 (ch_height c + 1))" "kv_get kv2 ''tip'' = Some (ch_tip c)"
    using bs(1) by (simp_all add: kv2_def kv1_def kv.lookup_store chain_ok_def stored_def)
  have p: "b = b1" "ch_kv c' = kv2"
    using assms(5) by (auto simp: produceBlock_def persistBlock_def persistSnapshotAndTip_def Let_def assms(4)
        b1_def kv1_def kv2_def next_header_def kv_put_def [of Io_open_failed] wal_append_def encoder_simps)
  have h: "fst (readU64 (decoder_of (be64 w))) = Some w" for w
    using u64.read_write [of "decoder_of (be64 w)" w "[]"] by simp
  have len: "length (ch_tip c) = 32"
    using bs(1) by (simp add: chain_ok_def)
  have r: "ch_height r = ch_height c + 1" "ch_tip r = ch_tip c"
    using get len by (simp_all add: assms(6) p(2) new_Chain_def kv.reopen_good [OF inv]
        initializeGenesisOrLoad_def h vectorToArray_def Let_def split: option.splits)
  then show ?thesis
    by (simp add: p(1) b1_def produceBlock_def next_header_def Let_def)
qed

theorem torn_block_breaks_the_chain_witness:
  "let c = fresh_run [Produce]; io = (\<lambda>i. if i \<le> 1 then Io_ok else Io_open_failed);
       r = new_Chain io (Some (kv_wal (ch_kv (snd (produceBlock io c)))))
   in ch_height r = ch_height c + 1 \<and> ch_tip r = ch_tip c"
  using torn_block_breaks_the_chain [of "[Produce]" _ _ "fst (produceBlock (\<lambda>i. if i \<le> 1 then Io_ok else Io_open_failed) (fresh_run [Produce]))"
      "snd (produceBlock (\<lambda>i. if i \<le> 1 then Io_ok else Io_open_failed) (fresh_run [Produce]))", OF _ _ refl refl _ refl]
  by (simp add: Let_def)

end
