(* ===== verification/Protocols.thy ===== *)
theory Protocols
  imports Prelude
begin

text \<open>
  The wire-format layer \<^verbatim>\<open>06-networking/protocols/protocols.cpp\<close>: Ethernet, ARP, IPv4, ICMP echo and
  UDP headers and the Internet checksum. Parsers read a buffer by offset and return an error or the
  header; serializers write into the caller's buffer and return the byte count with the new
  contents. A write outside the buffer is the value \<^const>\<open>None\<close>.

  The locale \<open>header_codec\<close> is the contract of a fixed-size header; the checksum is related to
  one's-complement arithmetic on natural numbers (\<open>oc\<close>).
\<close>

section \<open>Byte access\<close>

definition net_readU16 :: "bytes \<Rightarrow> nat \<Rightarrow> u16" where
  "net_readU16 p off = word16_be (p ! off) (p ! (off + 1))"

definition net_readU32 :: "bytes \<Rightarrow> nat \<Rightarrow> u32" where
  "net_readU32 p off = word32_be (p ! off) (p ! (off + 1)) (p ! (off + 2)) (p ! (off + 3))"

text \<open>Storing consecutive bytes from an offset on, inside the buffer.\<close>

definition poke :: "bytes \<Rightarrow> nat \<Rightarrow> bytes \<Rightarrow> bytes" where
  "poke out off bs = take off out @ bs @ drop (off + length bs) out"

definition net_writeU16 :: "bytes \<Rightarrow> nat \<Rightarrow> u16 \<Rightarrow> bytes" where
  "net_writeU16 out off v = poke out off [byte_at 8 v, byte_at 0 v]"

definition net_writeU32 :: "bytes \<Rightarrow> nat \<Rightarrow> u32 \<Rightarrow> bytes" where
  "net_writeU32 out off v = poke out off [byte_at 24 v, byte_at 16 v, byte_at 8 v, byte_at 0 v]"

type_synonym MacAddress = bytes

definition readMac :: "bytes \<Rightarrow> nat \<Rightarrow> MacAddress" where
  "readMac p off = map (\<lambda>i. p ! (off + i)) [0..<6]"

definition writeMac :: "bytes \<Rightarrow> nat \<Rightarrow> MacAddress \<Rightarrow> bytes" where
  "writeMac out off mac = poke out off mac"

definition macEquals :: "MacAddress \<Rightarrow> MacAddress \<Rightarrow> bool" where
  "macEquals a b \<longleftrightarrow> list_all (\<lambda>i. a ! i = b ! i) [0..<6]"

section \<open>Headers\<close>

definition ETHERNET_HEADER_SIZE :: nat where "ETHERNET_HEADER_SIZE = 14"
definition ETHERTYPE_IPV4 :: u16 where "ETHERTYPE_IPV4 = 0x0800"
definition ETHERTYPE_ARP :: u16 where "ETHERTYPE_ARP = 0x0806"

record EthernetHeader =
  eth_destination :: MacAddress
  eth_source :: MacAddress
  eth_etherType :: u16

definition ARP_PACKET_SIZE :: nat where "ARP_PACKET_SIZE = 28"
definition ARP_HTYPE_ETHERNET :: u16 where "ARP_HTYPE_ETHERNET = 1"

datatype ArpOperation = ArpRequest | ArpReply

fun arp_code :: "ArpOperation \<Rightarrow> u16" where
  "arp_code ArpRequest = 1"
| "arp_code ArpReply = 2"

record ArpPacket =
  arp_operation :: ArpOperation
  arp_senderMac :: MacAddress
  arp_senderIp :: u32
  arp_targetMac :: MacAddress
  arp_targetIp :: u32

definition IPV4_MIN_HEADER_SIZE :: nat where "IPV4_MIN_HEADER_SIZE = 20"
definition IPV4_VERSION :: u8 where "IPV4_VERSION = 4"
definition IPV4_PROTO_ICMP :: u8 where "IPV4_PROTO_ICMP = 1"
definition IPV4_PROTO_UDP :: u8 where "IPV4_PROTO_UDP = 17"

record Ipv4Header =
  ip_ttl :: u8
  ip_protocol :: u8
  ip_identification :: u16
  ip_flagsAndFragmentOffset :: u16
  ip_totalLength :: u16
  ip_sourceIp :: u32
  ip_destIp :: u32

definition ICMP_ECHO_HEADER_SIZE :: nat where "ICMP_ECHO_HEADER_SIZE = 8"

record IcmpEchoMessage =
  icmp_type :: u8
  icmp_code :: u8
  icmp_identifier :: u16
  icmp_sequenceNumber :: u16

definition UDP_HEADER_SIZE :: nat where "UDP_HEADER_SIZE = 8"

record UdpHeader =
  udp_sourcePort :: u16
  udp_destPort :: u16
  udp_length :: u16

datatype ParseError = BufferTooSmall | UnsupportedVersion | HeaderLengthInvalid | TotalLengthInvalid
  | UnsupportedHardwareType | InvalidHardwareAddressLength | InvalidProtocolAddressLength
  | UnsupportedOperation | ChecksumMismatch

section \<open>The Internet checksum\<close>

fun sum_words :: "u32 \<Rightarrow> bytes \<Rightarrow> u32" where
  "sum_words s (a # b # bs) = sum_words (s + (push_bit 8 (ucast a) OR ucast b)) bs"
| "sum_words s [a] = s + push_bit 8 (ucast a)"
| "sum_words s [] = s"

text \<open>One round of folding on numbers.\<close>

lemma fold_round:
  fixes s :: u32
  shows "unat (drop_bit 16 s) = unat s div 65536" "unat (s AND 0xFFFF) = unat s mod 65536"
    "unat ((s AND 0xFFFF) + drop_bit 16 s) = unat s mod 65536 + unat s div 65536"
proof -
  show d: "unat (drop_bit 16 s) = unat s div 65536"
    unfolding unat_drop_bit_eq by (simp add: drop_bit_eq_div)
  have "(0xFFFF :: u32) = mask 16"
    by (simp add: mask_eq_exp_minus_1)
  then have "s AND 0xFFFF = take_bit 16 s"
    by (simp only: take_bit_eq_mask)
  then show m: "unat (s AND 0xFFFF) = unat s mod 65536"
    by (simp only: unsigned_take_bit_eq) (simp add: take_bit_eq_mod)
  have "unat s < 2 ^ 32"
    by (rule order_less_le_trans [OF unsigned_less]) simp
  then have "unat s mod 65536 + unat s div 65536 < 2 ^ 32"
    by (auto intro!: order_less_le_trans [OF add_less_mono [of _ 65536 _ 65536]])
  then show "unat ((s AND 0xFFFF) + drop_bit 16 s) = unat s mod 65536 + unat s div 65536"
    by (simp add: unat_word_ariths d m)
qed

function fold_carry :: "u32 \<Rightarrow> u32" where
  "fold_carry s = (if drop_bit 16 s = 0 then s else fold_carry ((s AND 0xFFFF) + drop_bit 16 s))"
  by pat_completeness auto

termination
proof (relation "measure unat")
  fix s :: u32
  assume "drop_bit 16 s \<noteq> 0"
  then have "unat s div 65536 \<noteq> 0"
    using fold_round(1) [of s] by (metis unat_eq_zero)
  then have "unat s mod 65536 + unat s div 65536 < unat s"
    using div_mult_mod_eq [of "unat s" 65536] by linarith
  then show "((s AND 0xFFFF) + drop_bit 16 s, s) \<in> measure unat"
    by (simp only: in_measure fold_round(3))
qed simp

declare fold_carry.simps [simp del]

definition finish_sum :: "u32 \<Rightarrow> u16" where
  "finish_sum s = ucast (NOT (fold_carry s) AND 0xFFFF)"

definition internetChecksum :: "bytes \<Rightarrow> u16" where
  "internetChecksum data = finish_sum (sum_words 0 data)"

section \<open>Parsers and serializers\<close>

definition parseEthernetHeader :: "bytes \<Rightarrow> ParseError + EthernetHeader" where
  "parseEthernetHeader buffer =
     (if length buffer < ETHERNET_HEADER_SIZE then Inl BufferTooSmall
      else Inr \<lparr>eth_destination = readMac buffer 0, eth_source = readMac buffer 6,
                eth_etherType = net_readU16 buffer 12\<rparr>)"

definition serializeEthernetHeader :: "EthernetHeader \<Rightarrow> bytes \<Rightarrow> nat \<times> bytes" where
  "serializeEthernetHeader h out =
     (if length out < ETHERNET_HEADER_SIZE then (0, out)
      else (ETHERNET_HEADER_SIZE,
            net_writeU16 (writeMac (writeMac out 0 (eth_destination h)) 6 (eth_source h)) 12 (eth_etherType h)))"

definition parseArpPacket :: "bytes \<Rightarrow> ParseError + ArpPacket" where
  "parseArpPacket buffer =
     (if length buffer < ARP_PACKET_SIZE then Inl BufferTooSmall
      else if net_readU16 buffer 0 \<noteq> ARP_HTYPE_ETHERNET then Inl UnsupportedHardwareType
      else if net_readU16 buffer 2 \<noteq> ETHERTYPE_IPV4 then Inl UnsupportedHardwareType
      else if buffer ! 4 \<noteq> 6 then Inl InvalidHardwareAddressLength
      else if buffer ! 5 \<noteq> 4 then Inl InvalidProtocolAddressLength
      else if net_readU16 buffer 6 \<noteq> arp_code ArpRequest \<and> net_readU16 buffer 6 \<noteq> arp_code ArpReply
        then Inl UnsupportedOperation
      else Inr \<lparr>arp_operation = (if net_readU16 buffer 6 = arp_code ArpRequest then ArpRequest else ArpReply),
                arp_senderMac = readMac buffer 8, arp_senderIp = net_readU32 buffer 14,
                arp_targetMac = readMac buffer 18, arp_targetIp = net_readU32 buffer 24\<rparr>)"

definition serializeArpPacket :: "ArpPacket \<Rightarrow> bytes \<Rightarrow> nat \<times> bytes" where
  "serializeArpPacket p out =
     (if length out < ARP_PACKET_SIZE then (0, out)
      else
        let o1 = net_writeU16 out 0 ARP_HTYPE_ETHERNET;
            o2 = net_writeU16 o1 2 ETHERTYPE_IPV4;
            o3 = poke o2 4 [6];
            o4 = poke o3 5 [4];
            o5 = net_writeU16 o4 6 (arp_code (arp_operation p));
            o6 = writeMac o5 8 (arp_senderMac p);
            o7 = net_writeU32 o6 14 (arp_senderIp p);
            o8 = writeMac o7 18 (arp_targetMac p)
        in (ARP_PACKET_SIZE, net_writeU32 o8 24 (arp_targetIp p)))"

definition parseIpv4Header :: "bytes \<Rightarrow> ParseError + Ipv4Header" where
  "parseIpv4Header buffer =
     (if length buffer < IPV4_MIN_HEADER_SIZE then Inl BufferTooSmall
      else
        let version = drop_bit 4 (buffer ! 0); ihl = buffer ! 0 AND 0x0F in
        if version \<noteq> IPV4_VERSION then Inl UnsupportedVersion
        else if ihl \<noteq> 5 then Inl HeaderLengthInvalid
        else
          let totalLength = net_readU16 buffer 2 in
          if unat totalLength < IPV4_MIN_HEADER_SIZE \<or> unat totalLength > length buffer then Inl TotalLengthInvalid
          else
            let verifySum = internetChecksum (take IPV4_MIN_HEADER_SIZE buffer) in
            if verifySum \<noteq> 0 \<and> verifySum \<noteq> 0xFFFF then Inl ChecksumMismatch
            else Inr \<lparr>ip_ttl = buffer ! 8, ip_protocol = buffer ! 9, ip_identification = net_readU16 buffer 4,
                      ip_flagsAndFragmentOffset = net_readU16 buffer 6, ip_totalLength = totalLength,
                      ip_sourceIp = net_readU32 buffer 12, ip_destIp = net_readU32 buffer 16\<rparr>)"

definition serializeIpv4Header :: "Ipv4Header \<Rightarrow> bytes \<Rightarrow> nat \<times> bytes" where
  "serializeIpv4Header h out =
     (if length out < IPV4_MIN_HEADER_SIZE then (0, out)
      else
        let o1 = poke out 0 [push_bit 4 IPV4_VERSION OR 5];
            o2 = poke o1 1 [0];
            o3 = net_writeU16 o2 2 (ip_totalLength h);
            o4 = net_writeU16 o3 4 (ip_identification h);
            o5 = net_writeU16 o4 6 (ip_flagsAndFragmentOffset h);
            o6 = poke o5 8 [ip_ttl h];
            o7 = poke o6 9 [ip_protocol h];
            o8 = net_writeU16 o7 10 0;
            o9 = net_writeU32 o8 12 (ip_sourceIp h);
            o10 = net_writeU32 o9 16 (ip_destIp h)
        in (IPV4_MIN_HEADER_SIZE, net_writeU16 o10 10 (internetChecksum (take IPV4_MIN_HEADER_SIZE o10))))"



text \<open>
  The serializers with a payload compute the total length in 32 bits; the copy loop stores
  \<open>8 + length payload\<close> bytes. Result \<^const>\<open>None\<close>: a store outside the buffer.
\<close>

definition serializeIcmpEcho :: "IcmpEchoMessage \<Rightarrow> bytes \<Rightarrow> bytes \<Rightarrow> (u32 \<times> bytes) option" where
  "serializeIcmpEcho m payload out =
     (let totalLength = word_of_nat ICMP_ECHO_HEADER_SIZE + word_of_nat (length payload) :: u32 in
      if length out < unat totalLength then Some (0, out)
      else if length out < ICMP_ECHO_HEADER_SIZE + length payload then None
      else
        let o1 = poke out 0 [icmp_type m];
            o2 = poke o1 1 [icmp_code m];
            o3 = net_writeU16 o2 2 0;
            o4 = net_writeU16 o3 4 (icmp_identifier m);
            o5 = net_writeU16 o4 6 (icmp_sequenceNumber m);
            o6 = poke o5 ICMP_ECHO_HEADER_SIZE payload
        in Some (totalLength, net_writeU16 o6 2 (internetChecksum (take (unat totalLength) o6))))"


definition pseudo_header :: "u32 \<Rightarrow> u32 \<Rightarrow> nat \<Rightarrow> bytes" where
  "pseudo_header sourceIp destIp len =
     be32 sourceIp @ be32 destIp @ [0, IPV4_PROTO_UDP] @ be16 (word_of_nat len)"

definition udpChecksumWithPseudoHeader :: "u32 \<Rightarrow> u32 \<Rightarrow> bytes \<Rightarrow> u16" where
  "udpChecksumWithPseudoHeader sourceIp destIp datagram =
     finish_sum (sum_words (sum_words 0 (pseudo_header sourceIp destIp (length datagram))) datagram)"


definition serializeUdpDatagramIpv4 :: "UdpHeader \<Rightarrow> bytes \<Rightarrow> u32 \<Rightarrow> u32 \<Rightarrow> bytes \<Rightarrow> (u32 \<times> bytes) option" where
  "serializeUdpDatagramIpv4 h payload sourceIp destIp out =
     (let totalLength = word_of_nat UDP_HEADER_SIZE + word_of_nat (length payload) :: u32 in
      if length out < unat totalLength then Some (0, out)
      else if length out < UDP_HEADER_SIZE + length payload then None
      else
        let o1 = net_writeU16 out 0 (udp_sourcePort h);
            o2 = net_writeU16 o1 2 (udp_destPort h);
            o3 = net_writeU16 o2 4 (ucast totalLength);
            o4 = net_writeU16 o3 6 0;
            o5 = poke o4 UDP_HEADER_SIZE payload;
            checksum = udpChecksumWithPseudoHeader sourceIp destIp (take (unat totalLength) o5);
            checksum' = (if checksum = 0 then 0xFFFF else checksum)
        in Some (totalLength, net_writeU16 o5 6 checksum'))"

section \<open>One's-complement arithmetic\<close>

text \<open>The sum of the 16-bit words, an odd last byte being the high byte of its word.\<close>

fun words_sum :: "bytes \<Rightarrow> nat" where
  "words_sum (a # b # bs) = 256 * unat a + unat b + words_sum bs"
| "words_sum [a] = 256 * unat a"
| "words_sum [] = 0"

text \<open>The one's-complement representative of a number: 0 only for 0, otherwise between 1 and 65535.\<close>

definition oc :: "nat \<Rightarrow> nat" where
  "oc n = (if n = 0 then 0 else (n - 1) mod 65535 + 1)"

lemma oc_small: "n < 65536 \<Longrightarrow> oc n = n"
  by (cases n) (simp_all add: oc_def)

lemma oc_le: "oc n \<le> 65535"
  using mod_less_divisor [of 65535 "n - 1"] by (auto simp: oc_def)

lemma oc_round: "0 < n div 65536 \<Longrightarrow> oc (n mod 65536 + n div 65536) = oc n"
proof -
  assume q: "0 < n div 65536"
  have "n = (n mod 65536 + n div 65536) + 65535 * (n div 65536)"
    using div_mult_mod_eq [of n 65536] by linarith
  then have "n - 1 = (n mod 65536 + n div 65536 - 1) + 65535 * (n div 65536)"
    using q by linarith
  then have "(n - 1) mod 65535 = (n mod 65536 + n div 65536 - 1) mod 65535"
    by (metis mod_mult_self2)
  with q show ?thesis
    by (auto simp: oc_def)
qed

lemma unat_fold_carry: "unat (fold_carry s) = oc (unat s)"
proof (induction s rule: fold_carry.induct)
  case (1 s)
  show ?case
  proof (cases "drop_bit 16 s = 0")
    case True
    then have "unat s div 65536 = 0"
      using fold_round(1) [of s] by simp
    then have "unat s < 65536"
      by simp
    then show ?thesis
      using True by (subst fold_carry.simps) (simp add: oc_small)
  next
    case False
    then have "0 < unat s div 65536"
      using fold_round(1) [of s] by (metis neq0_conv unat_eq_zero)
    then show ?thesis
      using 1 [OF False] False oc_round [of "unat s"] fold_round(3) [of s]
      by (subst fold_carry.simps) (simp only: if_False)
  qed
qed

lemma unat_finish_sum: "unat (finish_sum s) = 65535 - oc (unat s)"
proof -
  let ?f = "fold_carry s"
  have f: "unat ?f \<le> 65535"
    using oc_le [of "unat s"] by (simp only: unat_fold_carry)
  have "unat (NOT ?f) = unat (- 1 - ?f)"
    by (subst minus_diff_commute) (simp only: not_eq_complement)
  also have "\<dots> = unat (- 1 :: u32) - unat ?f"
    by (rule unat_sub) simp
  also have "\<dots> = (65535 - unat ?f) + 65535 * 65536"
    using f by (simp add: unsigned_minus_1_eq_mask mask_eq_exp_minus_1)
  finally have e: "unat (NOT ?f) = (65535 - unat ?f) + 65535 * 65536" .
  have "unat (NOT ?f AND 0xFFFF) = 65535 - unat ?f"
    unfolding fold_round(2) e mod_mult_self1 by simp
  then show ?thesis
    by (simp add: finish_sum_def unsigned_ucast_eq take_bit_nat_eq_self unat_fold_carry)
qed

lemma unat_byte_less: "unat (b :: u8) < 256"
  by (rule order_less_le_trans [OF unsigned_less]) simp

lemma unat_ucast_byte [simp]: "unat (ucast (b :: u8) :: u32) = unat b"
  using unat_byte_less [of b] by (simp add: unsigned_ucast_eq take_bit_nat_eq_self)

lemma unat_high: "unat (push_bit 8 (ucast a) :: u32) = 256 * unat (a :: u8)"
  using unat_byte_less [of a] by (simp add: push_bit_eq_mult unat_word_ariths)

lemma unat_pair: "unat (push_bit 8 (ucast a) OR ucast b :: u32) = 256 * unat a + unat (b :: u8)" for a :: u8
proof -
  have "(push_bit 8 (ucast a) OR ucast b :: u32) = push_bit 8 (ucast a) + ucast b"
    by (rule disjunctive_add_eq_or [symmetric], rule bit_word_eqI)
      (auto simp: bit_and_iff bit_push_bit_iff bit_ucast_iff dest: bit_imp_le_length)
  then show ?thesis
    using unat_byte_less [of a] unat_byte_less [of b] unat_high [of a] by (simp add: unat_word_ariths)
qed

lemma unat_sum_words:
  "unat s + words_sum bs < 2 ^ 32 \<Longrightarrow> unat (sum_words s bs) = unat s + words_sum bs"
proof (induction s bs rule: sum_words.induct)
  case (1 s a b bs)
  have "unat (s + (push_bit 8 (ucast a) OR ucast b)) = unat s + (256 * unat a + unat b)"
    using 1(2) by (simp add: unat_word_ariths unat_pair)
  with 1 show ?case
    by simp
next
  case (2 s a)
  then show ?case
    by (simp add: unat_word_ariths unat_high)
qed simp

lemma words_sum_le: "words_sum bs \<le> 65535 * (length bs div 2) + 65280 * (length bs mod 2)"
proof (induction bs rule: words_sum.induct)
  case (1 a b bs)
  then show ?case
    using unat_byte_less [of a] unat_byte_less [of b] by simp
next
  case (2 a)
  then show ?case
    using unat_byte_less [of a] by simp
qed simp

text \<open>Up to 131074 bytes the 32-bit sum cannot overflow.\<close>

lemma words_sum_bound: "length bs \<le> 131074 \<Longrightarrow> words_sum bs < 2 ^ 32"
proof -
  assume "length bs \<le> 131074"
  then have "length bs div 2 \<le> 65536 \<or> length bs div 2 = 65537 \<and> length bs mod 2 = 0" "length bs mod 2 \<le> 1"
    by presburger+
  then show ?thesis
    using words_sum_le [of bs] by auto
qed

lemma unat_internetChecksum:
  "words_sum bs < 2 ^ 32 \<Longrightarrow> unat (internetChecksum bs) = 65535 - oc (words_sum bs)"
  using unat_sum_words [of 0 bs] by (simp add: internetChecksum_def unat_finish_sum)

lemma words_sum_append: "even (length xs) \<Longrightarrow> words_sum (xs @ ys) = words_sum xs + words_sum ys"
  by (induction xs rule: words_sum.induct) auto

text \<open>Replacing a zero checksum field by the complement makes the sum a non-zero multiple of 65535.\<close>

lemma oc_complement: "oc (n + (65535 - oc n)) = 65535"
proof (cases "n = 0")
  case False
  then have "oc n = (n - 1) mod 65535 + 1"
    by (simp add: oc_def)
  then have "n + (65535 - oc n) - 1 = 65535 * ((n - 1) div 65535) + 65534"
    using False mult_div_mod_eq [of 65535 "n - 1"] oc_le [of n] by linarith
  then show ?thesis
    using False by (simp add: oc_def)
qed (simp add: oc_def)

section \<open>Consecutive stores\<close>

lemma poke_0: "poke out 0 bs = bs @ drop (length bs) out"
  by (simp add: poke_def)

lemma poke_mid: "length pre = n \<Longrightarrow> length xs = length ys \<Longrightarrow> poke (pre @ xs @ post) n ys = pre @ ys @ post"
  by (simp add: poke_def)

fun store_all :: "bytes list \<Rightarrow> nat \<Rightarrow> bytes \<Rightarrow> bytes" where
  "store_all [] n out = out"
| "store_all (b # bs) n out = store_all bs (n + length b) (poke out n b)"

lemma store_all_poke: "n + length (concat bs) \<le> length out \<Longrightarrow> store_all bs n out = poke out n (concat bs)"
proof (induction bs arbitrary: n out)
  case (Cons b bs)
  then have "store_all (b # bs) n out = poke (poke out n b) (n + length b) (concat bs)"
    by (simp add: poke_def)
  also have "\<dots> = poke out n (concat (b # bs))"
    using Cons.prems by (simp add: poke_def ac_simps)
  finally show ?case .
qed (simp add: poke_def)

lemma store_all_0:
  "length (concat bs) \<le> length out \<Longrightarrow> store_all bs 0 out = concat bs @ drop (length (concat bs)) out"
  by (simp add: store_all_poke poke_0)

lemma store_be: "net_writeU16 out off v = poke out off (be16 v)" "net_writeU32 out off w = poke out off (be32 w)"
  by (simp_all add: net_writeU16_def net_writeU32_def be16_def be32_def)

lemmas store_simps = store_be writeMac_def numeral_2_eq_2 [symmetric]

lemma readMac_nth: "length mac = 6 \<Longrightarrow> readMac (pre @ mac @ post) (length pre) = mac"
  by (auto simp: readMac_def nth_append intro!: nth_equalityI)

section \<open>What the serializers store\<close>

definition ethernet_bytes :: "EthernetHeader \<Rightarrow> bytes" where
  "ethernet_bytes h = eth_destination h @ eth_source h @ be16 (eth_etherType h)"

definition ethernet_wf :: "EthernetHeader \<Rightarrow> bool" where
  "ethernet_wf h \<longleftrightarrow> length (eth_destination h) = 6 \<and> length (eth_source h) = 6"

lemma serializeEthernetHeader_bytes:
  assumes "ethernet_wf h" "14 \<le> length out"
  shows "serializeEthernetHeader h out = (14, ethernet_bytes h @ drop 14 out)"
  using assms store_all_0 [of "[eth_destination h, eth_source h, be16 (eth_etherType h)]" out]
  by (simp add: serializeEthernetHeader_def ethernet_wf_def ethernet_bytes_def ETHERNET_HEADER_SIZE_def store_simps)

definition arp_bytes :: "ArpPacket \<Rightarrow> bytes" where
  "arp_bytes p = be16 ARP_HTYPE_ETHERNET @ be16 ETHERTYPE_IPV4 @ [6, 4] @ be16 (arp_code (arp_operation p)) @
     arp_senderMac p @ be32 (arp_senderIp p) @ arp_targetMac p @ be32 (arp_targetIp p)"

definition arp_wf :: "ArpPacket \<Rightarrow> bool" where
  "arp_wf p \<longleftrightarrow> length (arp_senderMac p) = 6 \<and> length (arp_targetMac p) = 6"

lemma serializeArpPacket_bytes:
  assumes "arp_wf p" "28 \<le> length out"
  shows "serializeArpPacket p out = (28, arp_bytes p @ drop 28 out)"
  using assms store_all_0 [of "[be16 ARP_HTYPE_ETHERNET, be16 ETHERTYPE_IPV4, [6], [4], be16 (arp_code (arp_operation p)),
      arp_senderMac p, be32 (arp_senderIp p), arp_targetMac p, be32 (arp_targetIp p)]" out]
  by (simp add: serializeArpPacket_def arp_wf_def arp_bytes_def ARP_PACKET_SIZE_def Let_def store_simps)

definition ipv4_front :: "Ipv4Header \<Rightarrow> bytes" where
  "ipv4_front h = [0x45, 0] @ be16 (ip_totalLength h) @ be16 (ip_identification h) @
     be16 (ip_flagsAndFragmentOffset h) @ [ip_ttl h, ip_protocol h]"

definition ipv4_back :: "Ipv4Header \<Rightarrow> bytes" where
  "ipv4_back h = be32 (ip_sourceIp h) @ be32 (ip_destIp h)"

definition ipv4_bytes :: "Ipv4Header \<Rightarrow> bytes" where
  "ipv4_bytes h = ipv4_front h @ be16 (internetChecksum (ipv4_front h @ [0, 0] @ ipv4_back h)) @ ipv4_back h"

lemma length_ipv4 [simp]: "length (ipv4_front h) = 10" "length (ipv4_back h) = 8" "length (ipv4_bytes h) = 20"
  by (simp_all add: ipv4_front_def ipv4_back_def ipv4_bytes_def)

lemma be16_0 [simp]: "be16 0 = [0, 0]"
  by (simp add: be16_def byte_at_def)

lemma serializeIpv4Header_bytes:
  assumes "20 \<le> length out"
  shows "serializeIpv4Header h out = (20, ipv4_bytes h @ drop 20 out)"
proof -
  define o10 where "o10 = store_all [[push_bit 4 IPV4_VERSION OR 5], [0], be16 (ip_totalLength h), be16 (ip_identification h),
      be16 (ip_flagsAndFragmentOffset h), [ip_ttl h], [ip_protocol h], be16 0, be32 (ip_sourceIp h), be32 (ip_destIp h)] 0 out"
  have first: "push_bit 4 IPV4_VERSION OR 5 = (0x45 :: u8)"
    by (simp add: IPV4_VERSION_def push_bit_eq_mult)
  have o10: "o10 = ipv4_front h @ [0, 0] @ ipv4_back h @ drop 20 out"
    unfolding o10_def using assms by (subst store_all_0) (simp_all add: first ipv4_front_def ipv4_back_def)
  have "serializeIpv4Header h out = (20, net_writeU16 o10 10 (internetChecksum (take 20 o10)))"
    using assms by (simp add: serializeIpv4Header_def IPV4_MIN_HEADER_SIZE_def Let_def o10_def store_simps del: be16_0)
  also have "net_writeU16 o10 10 (internetChecksum (take 20 o10)) = ipv4_bytes h @ drop 20 out"
    using poke_mid [of "ipv4_front h" 10 "[0, 0]" "be16 c" for c]
    by (simp add: o10 store_be ipv4_bytes_def)
  finally show ?thesis .
qed

section \<open>The contract of a header format\<close>

locale header_codec =
  fixes size :: nat and encode :: "'h \<Rightarrow> bytes" and parse :: "bytes \<Rightarrow> ParseError + 'h"
    and serialize :: "'h \<Rightarrow> bytes \<Rightarrow> nat \<times> bytes" and fits :: "'h \<Rightarrow> bytes \<Rightarrow> bool"
  assumes length_encode: "fits h rest \<Longrightarrow> length (encode h) = size"
    and parse_encode: "fits h rest \<Longrightarrow> parse (encode h @ rest) = Inr h"
    and parse_short: "length buffer < size \<Longrightarrow> parse buffer = Inl BufferTooSmall"
    and serialize_encode: "fits h rest \<Longrightarrow> size \<le> length out \<Longrightarrow> serialize h out = (size, encode h @ drop size out)"
    and serialize_short: "length out < size \<Longrightarrow> serialize h out = (0, out)"
begin

lemma roundtrip:
  assumes "size \<le> length out" "fits h (drop size out)"
  shows "fst (serialize h out) = size \<and> parse (snd (serialize h out)) = Inr h \<and>
    length (snd (serialize h out)) = length out"
  using serialize_encode [OF assms(2,1)] parse_encode [OF assms(2)] length_encode [OF assms(2)] assms(1) by simp

lemma encode_inj: "fits h rest \<Longrightarrow> fits h' rest \<Longrightarrow> encode h = encode h' \<Longrightarrow> h = h'"
  using parse_encode by (metis sum.inject(2))

lemma truncated: "fits h rest \<Longrightarrow> n < size \<Longrightarrow> parse (take n (encode h)) = Inl BufferTooSmall"
  by (rule parse_short) (simp add: length_encode)

end

lemma read_be [simp]:
  "net_readU16 (be16 v @ r) 0 = v" "net_readU32 (be32 w @ r) 0 = w"
  by (simp_all add: net_readU16_def net_readU32_def be16_def be32_def)

lemma nth_skip: "length p = n \<Longrightarrow> n \<le> off \<Longrightarrow> (p @ r) ! (off + k) = r ! (off - n + k)"
  by (simp add: nth_append)

lemma read_skip:
  assumes "length p = n" "n \<le> off"
  shows "net_readU16 (p @ r) off = net_readU16 r (off - n)"
    "net_readU32 (p @ r) off = net_readU32 r (off - n)" "readMac (p @ r) off = readMac r (off - n)"
  unfolding net_readU16_def net_readU32_def readMac_def
  using nth_skip [OF assms, of r 0] nth_skip [OF assms, of r 1] nth_skip [OF assms, of r 2]
    nth_skip [OF assms, of r 3] nth_skip [OF assms] by simp_all

lemma read_Cons:
  assumes "0 < off"
  shows "net_readU16 (x # r) off = net_readU16 r (off - 1)"
    "net_readU32 (x # r) off = net_readU32 r (off - 1)" "readMac (x # r) off = readMac r (off - 1)"
  using read_skip [of "[x]" 1 off r] assms by simp_all

lemma readMac_0: "length m = 6 \<Longrightarrow> readMac (m @ r) 0 = m"
  using readMac_nth [of m "[]" r] by simp

interpretation ethernet: header_codec 14 ethernet_bytes parseEthernetHeader serializeEthernetHeader "\<lambda>h r. ethernet_wf h"
proof unfold_locales
  fix h :: EthernetHeader and rest :: bytes
  assume wf: "ethernet_wf h"
  then show "length (ethernet_bytes h) = 14"
    by (simp add: ethernet_wf_def ethernet_bytes_def)
  show "parseEthernetHeader (ethernet_bytes h @ rest) = Inr h"
    using wf
    by (simp add: parseEthernetHeader_def ethernet_wf_def ethernet_bytes_def ETHERNET_HEADER_SIZE_def
        read_skip(1) [of _ 6] read_skip(3) [of _ 6] readMac_0)
  show "serializeEthernetHeader h out = (14, ethernet_bytes h @ drop 14 out)" if "14 \<le> length out" for out
    by (rule serializeEthernetHeader_bytes [OF wf that])
qed (simp_all add: parseEthernetHeader_def serializeEthernetHeader_def ETHERNET_HEADER_SIZE_def)

interpretation arp: header_codec 28 arp_bytes parseArpPacket serializeArpPacket "\<lambda>p r. arp_wf p"
proof unfold_locales
  fix p :: ArpPacket and rest :: bytes
  assume wf: "arp_wf p"
  then show "length (arp_bytes p) = 28"
    by (simp add: arp_wf_def arp_bytes_def)
  have "(if arp_code (arp_operation p) = 1 then ArpRequest else ArpReply) = arp_operation p"
    by (cases "arp_operation p") simp_all
  moreover have "arp_code (arp_operation p) = 1 \<or> arp_code (arp_operation p) = 2"
    by (cases "arp_operation p") simp_all
  ultimately show "parseArpPacket (arp_bytes p @ rest) = Inr p"
    using wf
    by (simp add: parseArpPacket_def arp_wf_def arp_bytes_def ARP_PACKET_SIZE_def nth_append
        read_skip(1) [of _ 2] read_skip(2) [of _ 2] read_skip(3) [of _ 2]
        read_skip(2) [of _ 4] read_skip(3) [of _ 4] read_skip(2) [of _ 6] read_skip(3) [of _ 6]
        read_Cons readMac_0)
  show "serializeArpPacket p out = (28, arp_bytes p @ drop 28 out)" if "28 \<le> length out" for out
    by (rule serializeArpPacket_bytes [OF wf that])
qed (simp_all add: parseArpPacket_def serializeArpPacket_def ARP_PACKET_SIZE_def)

lemma words_sum_be16 [simp]: "words_sum (be16 c) = unat c"
proof -
  have "unat (byte_at 8 c) = unat c div 256" "unat (byte_at 0 c) = unat c mod 256"
  proof -
    have "unat c < 65536"
      by (rule order_less_le_trans [OF unsigned_less]) simp
    have m: "(0xFF :: u16) = mask 8"
      by (simp add: mask_eq_exp_minus_1)
    show "unat (byte_at 8 c) = unat c div 256"
      unfolding byte_at_def m take_bit_eq_mask [symmetric]
      using \<open>unat c < 65536\<close>
      by (simp only: unsigned_ucast_eq unsigned_take_bit_eq unat_drop_bit_eq) (simp add: drop_bit_eq_div take_bit_eq_mod)
    show "unat (byte_at 0 c) = unat c mod 256"
      unfolding byte_at_def m take_bit_eq_mask [symmetric]
      by (simp only: unsigned_ucast_eq unsigned_take_bit_eq drop_bit_0 id_apply) (simp add: take_bit_eq_mod)
  qed
  then show ?thesis
    by (simp add: be16_def)
qed

text \<open>A message whose checksum field holds the complement verifies to 0.\<close>

lemma filled_checksum:
  assumes "even (length pre)" "words_sum pre + words_sum post < 2 ^ 32 - 65536"
    and "c = internetChecksum (pre @ [0, 0] @ post)"
  shows "internetChecksum (pre @ be16 c @ post) = 0"
proof -
  let ?n = "words_sum pre + words_sum post"
  have "words_sum (pre @ [0, 0] @ post) = ?n"
    using assms(1) by (simp add: words_sum_append)
  then have c: "unat c = 65535 - oc ?n"
    using assms(2,3) unat_internetChecksum [of "pre @ [0, 0] @ post"] by simp
  have s: "words_sum (pre @ be16 c @ post) = ?n + (65535 - oc ?n)"
    using assms(1) words_sum_append [of "be16 c" post] by (simp add: words_sum_append c)
  then have "unat (internetChecksum (pre @ be16 c @ post)) = 65535 - oc (?n + (65535 - oc ?n))"
    using unat_internetChecksum [of "pre @ be16 c @ post"] assms(2) by simp
  then show ?thesis
    by (simp add: oc_complement unat_eq_zero)
qed

lemma ipv4_checksum_ok: "internetChecksum (ipv4_bytes h) = 0"
  unfolding ipv4_bytes_def
proof (rule filled_checksum [OF _ _ refl])
  show "words_sum (ipv4_front h) + words_sum (ipv4_back h) < 2 ^ 32 - 65536"
    using words_sum_le [of "ipv4_front h"] words_sum_le [of "ipv4_back h"] by simp
qed simp

definition ipv4_fits :: "Ipv4Header \<Rightarrow> bytes \<Rightarrow> bool" where
  "ipv4_fits h rest \<longleftrightarrow> 20 \<le> unat (ip_totalLength h) \<and> unat (ip_totalLength h) \<le> 20 + length rest"

interpretation ipv4: header_codec 20 ipv4_bytes parseIpv4Header serializeIpv4Header ipv4_fits
proof unfold_locales
  fix h :: Ipv4Header and rest :: bytes
  assume fits: "ipv4_fits h rest"
  define c where "c = internetChecksum (ipv4_front h @ [0, 0] @ ipv4_back h)"
  let ?b = "ipv4_bytes h @ rest"
  have b: "?b = [0x45, 0] @ be16 (ip_totalLength h) @ be16 (ip_identification h) @ be16 (ip_flagsAndFragmentOffset h) @
      [ip_ttl h, ip_protocol h] @ be16 c @ be32 (ip_sourceIp h) @ be32 (ip_destIp h) @ rest"
    by (simp add: ipv4_bytes_def c_def) (simp add: ipv4_front_def ipv4_back_def)
  have first: "?b ! 0 = 0x45" "?b ! 8 = ip_ttl h" "?b ! 9 = ip_protocol h"
    unfolding b by (simp_all add: nth_append)
  have fields: "net_readU16 ?b 2 = ip_totalLength h" "net_readU16 ?b 4 = ip_identification h"
    "net_readU16 ?b 6 = ip_flagsAndFragmentOffset h" "net_readU32 ?b 12 = ip_sourceIp h" "net_readU32 ?b 16 = ip_destIp h"
    unfolding b by (simp_all add: read_Cons read_skip(1) [of _ 2] read_skip(2) [of _ 2] read_skip(2) [of _ 4])
  have nibbles: "drop_bit 4 (0x45 :: u8) = 4" "(0x45 :: u8) AND 0x0F = 5"
    by (simp_all add: drop_bit_eq_div)
  have "internetChecksum (take 20 ?b) = 0"
    by (simp add: ipv4_checksum_ok)
  with fits show "parseIpv4Header ?b = Inr h"
    unfolding parseIpv4Header_def IPV4_MIN_HEADER_SIZE_def IPV4_VERSION_def Let_def first fields nibbles
    by (simp add: ipv4_fits_def)
  show "serializeIpv4Header h out = (20, ipv4_bytes h @ drop 20 out)" if "20 \<le> length out" for out
    by (rule serializeIpv4Header_bytes [OF that])
qed (simp_all add: parseIpv4Header_def serializeIpv4Header_def IPV4_MIN_HEADER_SIZE_def)

section \<open>ICMP and UDP messages\<close>










lemma length_pseudo_header [simp]: "length (pseudo_header src dst n) = 12"
  by (simp add: pseudo_header_def)










section \<open>Properties\<close>

text \<open>
  C26. The Internet checksum is the RFC 1071 sum: for every buffer of up to 131074 bytes, odd lengths
  included, the result is the complement of the one's-complement sum of its 16-bit words, and the
  carry-folding loop ends.
\<close>

theorem internetChecksum_rfc1071:
  assumes "length data \<le> 131074"
  shows "unat (internetChecksum data) = 65535 - oc (words_sum data)"
  by (rule unat_internetChecksum [OF words_sum_bound [OF assms]])

theorem internetChecksum_rfc1071_witness:
  "unat (internetChecksum [0x12, 0x34, 0xFF]) = 65535 - oc (words_sum [0x12, 0x34, 0xFF])"
  by (rule internetChecksum_rfc1071) simp

text \<open>
  Ethernet and ARP frames round trip: serializing into any buffer that is large enough writes
  exactly the header, keeps the rest of the buffer, and parses back to the same header; a buffer that
  is too small is left alone with result 0.
\<close>

theorem frame_roundtrip:
  assumes "ethernet_wf h" "arp_wf p"
  shows "(if 14 \<le> length out
          then fst (serializeEthernetHeader h out) = 14 \<and> drop 14 (snd (serializeEthernetHeader h out)) = drop 14 out \<and>
               parseEthernetHeader (snd (serializeEthernetHeader h out)) = Inr h
          else serializeEthernetHeader h out = (0, out)) \<and>
    (if 28 \<le> length out
     then fst (serializeArpPacket p out) = 28 \<and> drop 28 (snd (serializeArpPacket p out)) = drop 28 out \<and>
          parseArpPacket (snd (serializeArpPacket p out)) = Inr p
     else serializeArpPacket p out = (0, out))"
  using ethernet.roundtrip [of out h] ethernet.serialize_encode [of h out] ethernet.length_encode [of h]
    ethernet.serialize_short [of out h] arp.roundtrip [of out p] arp.serialize_encode [of p out]
    arp.length_encode [of p] arp.serialize_short [of out p] assms
  by (simp add: not_le)

theorem frame_roundtrip_witness:
  "parseEthernetHeader (snd (serializeEthernetHeader
      \<lparr>eth_destination = replicate 6 0xFF, eth_source = replicate 6 2, eth_etherType = ETHERTYPE_ARP\<rparr> (replicate 60 0))) =
    Inr \<lparr>eth_destination = replicate 6 0xFF, eth_source = replicate 6 2, eth_etherType = ETHERTYPE_ARP\<rparr>"
  using frame_roundtrip [of "\<lparr>eth_destination = replicate 6 0xFF, eth_source = replicate 6 2, eth_etherType = ETHERTYPE_ARP\<rparr>"
      "\<lparr>arp_operation = ArpReply, arp_senderMac = replicate 6 1, arp_senderIp = 5, arp_targetMac = replicate 6 2, arp_targetIp = 9\<rparr>"
      "replicate 60 0"]
  by (simp add: ethernet_wf_def arp_wf_def)

text \<open>
  C28. IPv4 headers round trip with a checksum that verifies: serializing a header into a buffer and
  parsing the result gives the header back whenever its total length is at least 20 and at most the
  size of the buffer.
\<close>

theorem ipv4_roundtrip:
  assumes "20 \<le> length out" "20 \<le> unat (ip_totalLength h)" "unat (ip_totalLength h) \<le> length out"
  shows "fst (serializeIpv4Header h out) = 20 \<and> parseIpv4Header (snd (serializeIpv4Header h out)) = Inr h \<and>
    length (snd (serializeIpv4Header h out)) = length out"
  using ipv4.roundtrip [of out h] assms by (simp add: ipv4_fits_def)

theorem ipv4_roundtrip_witness:
  "let h = \<lparr>ip_ttl = 64, ip_protocol = IPV4_PROTO_UDP, ip_identification = 7, ip_flagsAndFragmentOffset = 0,
            ip_totalLength = 40, ip_sourceIp = 0x0A000001, ip_destIp = 0x0A000002\<rparr>
   in parseIpv4Header (snd (serializeIpv4Header h (replicate 40 0))) = Inr h"
  using ipv4_roundtrip [of "replicate 40 0" "\<lparr>ip_ttl = 64, ip_protocol = IPV4_PROTO_UDP, ip_identification = 7,
      ip_flagsAndFragmentOffset = 0, ip_totalLength = 40, ip_sourceIp = 0x0A000001, ip_destIp = 0x0A000002\<rparr>"]
  by (simp add: Let_def)

text \<open>
  C29. What an accepted IPv4 header guarantees, for arbitrary bytes: the buffer has at least 20 bytes,
  the version is 4 without options, the claimed total length lies between 20 and the real length of
  the buffer (so reading that many bytes stays inside it), and the 16-bit words of the header sum to
  a multiple of 65535.
\<close>

theorem ipv4_accepts_only_bounded:
  assumes "parseIpv4Header buffer = Inr h"
  shows "20 \<le> length buffer \<and> drop_bit 4 (buffer ! 0) = 4 \<and> buffer ! 0 AND 0x0F = 5 \<and>
    20 \<le> unat (ip_totalLength h) \<and> unat (ip_totalLength h) \<le> length buffer \<and>
    words_sum (take 20 buffer) mod 65535 = 0"
proof -
  have acc: "20 \<le> length buffer" "drop_bit 4 (buffer ! 0) = 4" "buffer ! 0 AND 0x0F = 5"
    "20 \<le> unat (ip_totalLength h)" "unat (ip_totalLength h) \<le> length buffer"
    "internetChecksum (take 20 buffer) = 0 \<or> internetChecksum (take 20 buffer) = 0xFFFF"
    using assms by (auto simp: parseIpv4Header_def IPV4_MIN_HEADER_SIZE_def IPV4_VERSION_def Let_def split: if_splits)
  let ?s = "words_sum (take 20 buffer)"
  have "unat (internetChecksum (take 20 buffer)) = 65535 - oc ?s"
    by (rule unat_internetChecksum, rule words_sum_bound) simp
  with acc(6) oc_le [of ?s] have "oc ?s = 65535 \<or> oc ?s = 0"
    by auto
  then have "?s mod 65535 = 0"
    by (cases ?s) (auto simp: oc_def mod_Suc split: if_splits)
  with acc(1-5) show ?thesis
    by simp
qed

theorem ipv4_accepts_only_bounded_witness:
  "20 \<le> unat (ip_totalLength \<lparr>ip_ttl = 64, ip_protocol = 17, ip_identification = 7, ip_flagsAndFragmentOffset = 0,
     ip_totalLength = 20, ip_sourceIp = 1, ip_destIp = 2\<rparr>)"
  using ipv4_accepts_only_bounded [OF ipv4.parse_encode [of "\<lparr>ip_ttl = 64, ip_protocol = 17, ip_identification = 7,
     ip_flagsAndFragmentOffset = 0, ip_totalLength = 20, ip_sourceIp = 1, ip_destIp = 2\<rparr>" "[]"]]
  by (simp add: ipv4_fits_def)



text \<open>
  C31. The 32-bit total length can wrap: with a payload of \<open>2 ^ 32 - 8\<close> bytes or more (still a legal
  \<^verbatim>\<open>uint32_t\<close> length) the capacity check of both serializers passes for a tiny buffer and the copy
  loop stores outside it.
\<close>

theorem payload_length_wraps:
  assumes "2 ^ 32 - 8 \<le> length payload" "length payload < 2 ^ 32" "length out = 8"
  shows "serializeIcmpEcho m payload out = None \<and> serializeUdpDatagramIpv4 h payload src dst out = None"
proof -
  have "unat (word_of_nat 8 + word_of_nat (length payload) :: u32) = (8 + length payload) mod 2 ^ 32"
    unfolding of_nat_add [symmetric] unat_of_nat by simp
  also have "\<dots> = 8 + length payload - 2 ^ 32"
    using assms(1,2) by (simp add: mod_if)
  finally have "unat (word_of_nat 8 + word_of_nat (length payload) :: u32) < 8"
    using assms(2) by simp
  then show ?thesis
    using assms by (auto simp: serializeIcmpEcho_def serializeUdpDatagramIpv4_def ICMP_ECHO_HEADER_SIZE_def
        UDP_HEADER_SIZE_def Let_def)
qed

theorem payload_length_wraps_witness:
  "serializeIcmpEcho \<lparr>icmp_type = 8, icmp_code = 0, icmp_identifier = 1, icmp_sequenceNumber = 1\<rparr>
     (replicate 4294967295 0) (replicate 8 0) = None \<and>
   serializeUdpDatagramIpv4 \<lparr>udp_sourcePort = 1, udp_destPort = 2, udp_length = 0\<rparr> (replicate 4294967295 0) 1 2
     (replicate 8 0) = None"
  by (rule payload_length_wraps) (simp_all only: length_replicate; simp)+

end
