(* ===== verification/Frames.thy ===== *)
theory Frames
  imports Prelude
begin

text \<open>
  The physical page allocator \<^verbatim>\<open>22-os/memory/memory.cpp\<close>: a bitmap of 4096 pages with a reserved
  prefix that covers the kernel image. The address of the linker symbol \<^verbatim>\<open>_kernel_end\<close> is an
  argument of \<open>memory_init\<close>. The abstraction is the set of used pages; the locale
  \<open>page_allocator\<close> is the contract the heap, the page tables and the scheduler rely on.
\<close>

definition PAGE_SIZE :: nat where "PAGE_SIZE = 4096"
definition PAGE_COUNT :: nat where "PAGE_COUNT = 4096"
definition BITMAP_SIZE :: nat where "BITMAP_SIZE = 512"

record frames =
  bitmap :: bytes
  allocated_pages :: u32
  reserved_pages :: u32

definition mark_used :: "frames \<Rightarrow> nat \<Rightarrow> frames" where
  "mark_used m page = m\<lparr>bitmap := (bitmap m)[page div 8 := bitmap m ! (page div 8) OR push_bit (page mod 8) 1]\<rparr>"

definition mark_free :: "frames \<Rightarrow> nat \<Rightarrow> frames" where
  "mark_free m page = m\<lparr>bitmap := (bitmap m)[page div 8 := bitmap m ! (page div 8) AND NOT (push_bit (page mod 8) 1)]\<rparr>"

definition is_used :: "frames \<Rightarrow> nat \<Rightarrow> bool" where
  "is_used m page \<longleftrightarrow> bitmap m ! (page div 8) AND push_bit (page mod 8) 1 \<noteq> 0"

definition memory_init :: "u32 \<Rightarrow> frames" where
  "memory_init kernelEnd =
     (let reservedBytes = (if kernelEnd > 1024 * 1024 then kernelEnd else 1024 * 1024);
          r = (reservedBytes + 4096 - 1) div 4096;
          r' = (if unat r > PAGE_COUNT then word_of_nat PAGE_COUNT else r);
          m = foldl mark_used \<lparr>bitmap = replicate BITMAP_SIZE 0, allocated_pages = 0, reserved_pages = r'\<rparr> [0..<unat r']
      in m\<lparr>allocated_pages := r'\<rparr>)"

fun alloc_scan :: "frames \<Rightarrow> nat list \<Rightarrow> u32 \<times> frames" where
  "alloc_scan m [] = (0, m)"
| "alloc_scan m (page # ps) =
     (if \<not> is_used m page
      then (word_of_nat page * 4096, (mark_used m page)\<lparr>allocated_pages := allocated_pages m + 1\<rparr>)
      else alloc_scan m ps)"

definition memory_alloc_page :: "frames \<Rightarrow> u32 \<times> frames" where
  "memory_alloc_page m = alloc_scan m [0..<PAGE_COUNT]"

definition memory_free_page :: "frames \<Rightarrow> u32 \<Rightarrow> frames" where
  "memory_free_page m address =
     (if address = 0 then m
      else if address mod 4096 \<noteq> 0 then m
      else
        let page = unat (address div 4096) in
        if page \<ge> PAGE_COUNT then m
        else if \<not> is_used m page then m
        else if page < unat (reserved_pages m) then m
        else
          let m1 = mark_free m page
          in if allocated_pages m1 > 0 then m1\<lparr>allocated_pages := allocated_pages m1 - 1\<rparr> else m1)"

definition memory_used_pages :: "frames \<Rightarrow> u32" where
  "memory_used_pages m = allocated_pages m"

definition memory_free_pages :: "frames \<Rightarrow> u32" where
  "memory_free_pages m = word_of_nat PAGE_COUNT - allocated_pages m"

section \<open>The set of used pages\<close>

lemma bit_mask_byte: "bit (push_bit k 1 :: u8) j \<longleftrightarrow> j = k \<and> k < 8"
  by (auto simp: bit_exp_iff possible_bit_word)

lemma is_used_bit: "is_used m p \<longleftrightarrow> bit (bitmap m ! (p div 8)) (p mod 8)"
proof -
  define k where "k = p mod 8"
  define b where "b = bitmap m ! (p div 8)"
  have "bit (b AND push_bit k 1) j \<longleftrightarrow> j = k \<and> bit b k" for j
    unfolding bit_and_iff bit_mask_byte by (auto simp: k_def)
  then have "b AND push_bit k 1 = 0 \<longleftrightarrow> \<not> bit b k"
    by (metis bit_0_eq bit_eqI bot_apply bot_bool_def)
  then show ?thesis
    unfolding is_used_def k_def b_def by simp
qed

lemma page_bit_eq: "p div 8 = q div 8 \<Longrightarrow> p mod 8 = q mod 8 \<Longrightarrow> p = (q :: nat)"
  by (metis div_mult_mod_eq)

lemma is_used_mark:
  assumes "length (bitmap m) = 512" "p < 4096"
  shows "is_used (mark_used m p) q \<longleftrightarrow> q = p \<or> is_used m q"
    "is_used (mark_free m p) q \<longleftrightarrow> q \<noteq> p \<and> is_used m q"
proof -
  have len: "p div 8 < length (bitmap m)"
    using assms by simp
  have set: "bit (b OR push_bit (p mod 8) 1) j \<longleftrightarrow> bit b j \<or> j = p mod 8" for b :: u8 and j
    unfolding bit_or_iff bit_mask_byte by auto
  have clear: "bit (b AND NOT (push_bit (p mod 8) 1)) j \<longleftrightarrow> bit b j \<and> j \<noteq> p mod 8" for b :: u8 and j
    unfolding bit_and_iff bit_not_iff bit_mask_byte using bit_imp_le_length [of b j] by (auto simp: possible_bit_word)
  have upd: "bitmap (m\<lparr>bitmap := b\<rparr>) = b" for b
    by simp
  have same: "p div 8 = q div 8 \<and> p mod 8 = q mod 8 \<longleftrightarrow> q = p"
    using page_bit_eq by blast
  show "is_used (mark_used m p) q \<longleftrightarrow> q = p \<or> is_used m q"
    unfolding is_used_bit mark_used_def same [symmetric]
    by (simp only: upd nth_list_update [OF len] set split: if_split) auto
  show "is_used (mark_free m p) q \<longleftrightarrow> q \<noteq> p \<and> is_used m q"
    unfolding is_used_bit mark_free_def same [symmetric]
    by (simp only: upd nth_list_update [OF len] clear split: if_split) auto
qed

lemma mark_frame [simp]:
  "length (bitmap (mark_used m p)) = length (bitmap m)" "length (bitmap (mark_free m p)) = length (bitmap m)"
  "allocated_pages (mark_used m p) = allocated_pages m" "allocated_pages (mark_free m p) = allocated_pages m"
  "reserved_pages (mark_used m p) = reserved_pages m" "reserved_pages (mark_free m p) = reserved_pages m"
  by (simp_all add: mark_used_def mark_free_def)

definition used_set :: "frames \<Rightarrow> nat set" where
  "used_set m = {p. p < 4096 \<and> is_used m p}"

lemma finite_used [simp]: "finite (used_set m)"
  by (simp add: used_set_def)

lemma used_set_mark:
  assumes "length (bitmap m) = 512" "p < 4096"
  shows "used_set (mark_used m p) = insert p (used_set m)" "used_set (mark_free m p) = used_set m - {p}"
  using assms by (auto simp: used_set_def is_used_mark)

lemma used_set_allocated [simp]: "used_set (m\<lparr>allocated_pages := n\<rparr>) = used_set m"
  by (simp add: used_set_def is_used_def)

definition frames_ok :: "frames \<Rightarrow> bool" where
  "frames_ok m \<longleftrightarrow> length (bitmap m) = 512 \<and> unat (allocated_pages m) = card (used_set m) \<and>
     0 < unat (reserved_pages m) \<and> {..<unat (reserved_pages m)} \<subseteq> used_set m"

lemma page_index:
  assumes "p < 4096"
  shows "unat (word_of_nat p * 4096 :: u32) = p * 4096" "word_of_nat p * 4096 mod 4096 = (0 :: u32)"
    "unat (word_of_nat p * 4096 div 4096 :: u32) = p"
proof -
  show a: "unat (word_of_nat p * 4096 :: u32) = p * 4096"
    using assms by (simp add: unat_word_ariths unat_of_nat)
  show "word_of_nat p * 4096 mod 4096 = (0 :: u32)"
    by (rule word_unat_eq_iff [THEN iffD2]) (simp only: unat_mod_distrib a, simp)
  show "unat (word_of_nat p * 4096 div 4096 :: u32) = p"
    by (simp only: unat_div_distrib a) simp
qed

lemma unat_numeral_4096: "unat (4096 :: u32) = 4096"
  by simp

lemma of_nat_unat_self: "word_of_nat (unat a) = (a :: u32)"
  by simp

lemma alloc_scan_spec:
  assumes "length (bitmap m) = 512" "set ps \<subseteq> {..<4096}"
  shows "alloc_scan m ps = (0, m) \<and> set ps \<subseteq> used_set m \<or>
    (\<exists>p \<in> set ps - used_set m. alloc_scan m ps = (word_of_nat p * 4096, (mark_used m p)\<lparr>allocated_pages := allocated_pages m + 1\<rparr>))"
  using assms(2) by (induction ps) (auto simp: used_set_def)

text \<open>An allocation takes a free page; it fails only when every page is used.\<close>

lemma memory_alloc_page_spec:
  assumes "length (bitmap m) = 512"
  shows "memory_alloc_page m = (0, m) \<and> used_set m = {..<4096} \<or>
    (\<exists>p < 4096. p \<notin> used_set m \<and> memory_alloc_page m =
       (word_of_nat p * 4096, (mark_used m p)\<lparr>allocated_pages := allocated_pages m + 1\<rparr>))"
proof -
  have sub: "used_set m \<subseteq> {..<4096}"
    by (auto simp: used_set_def)
  have "set [0..<n] = {..<n}" for n :: nat
    by auto
  note ids = this [of PAGE_COUNT, unfolded PAGE_COUNT_def]
  from alloc_scan_spec [OF assms, of "[0..<PAGE_COUNT]"] show ?thesis
    unfolding memory_alloc_page_def PAGE_COUNT_def ids using sub by blast
qed

lemma frames_ok_card: "frames_ok m \<Longrightarrow> unat (allocated_pages m) \<le> 4096"
  using card_mono [of "{..<4096 :: nat}" "used_set m"] by (auto simp: frames_ok_def used_set_def)

lemma frames_ok_take:
  assumes m: "frames_ok m" and p: "p < 4096" "p \<notin> used_set m"
  shows "frames_ok ((mark_used m p)\<lparr>allocated_pages := allocated_pages m + 1\<rparr>)" (is "frames_ok ?m")
    "unat (reserved_pages m) \<le> p" "p \<noteq> 0"
proof -
  have len: "length (bitmap m) = 512"
    using m by (simp add: frames_ok_def)
  have u: "used_set ?m = insert p (used_set m)"
    using used_set_mark(1) [OF len p(1)] by simp
  have "unat (allocated_pages m + 1) = unat (allocated_pages m) + 1"
    using frames_ok_card [OF m] by (simp add: unat_word_ariths)
  then show "frames_ok ?m"
    using m p(2) u by (auto simp: frames_ok_def)
  show "unat (reserved_pages m) \<le> p" "p \<noteq> 0"
    using m p(2) unfolding frames_ok_def by (metis lessThan_iff linorder_not_le subsetD)+
qed

text \<open>The addresses handed out and not yet given back.\<close>

definition live_pages :: "frames \<Rightarrow> u32 set" where
  "live_pages m = {word_of_nat p * 4096 | p. p \<in> used_set m \<and> unat (reserved_pages m) \<le> p}"

lemma page_word_inj: "p < 4096 \<Longrightarrow> q < 4096 \<Longrightarrow> word_of_nat p * 4096 = (word_of_nat q * 4096 :: u32) \<longleftrightarrow> p = q"
  using page_index(3) by metis

lemma alloc_live:
  assumes m: "frames_ok m" and a: "memory_alloc_page m = (a, m')" "a \<noteq> 0"
  shows "frames_ok m'" "a \<notin> live_pages m" "live_pages m' = insert a (live_pages m)" "a mod 4096 = 0"
    "used_set m' = insert (unat a div 4096) (used_set m)" "reserved_pages m' = reserved_pages m" "unat a + 4096 \<le> 2 ^ 24"
proof -
  have len: "length (bitmap m) = 512"
    using m by (simp add: frames_ok_def)
  obtain p where p: "p < 4096" "p \<notin> used_set m" "a = word_of_nat p * 4096"
    "m' = (mark_used m p)\<lparr>allocated_pages := allocated_pages m + 1\<rparr>"
    using memory_alloc_page_spec [OF len] a by auto
  note take = frames_ok_take [OF m p(1,2)]
  show "frames_ok m'"
    using take(1) p(4) by simp
  have u: "used_set m' = insert p (used_set m)"
    using used_set_mark(1) [OF len p(1)] p(4) by simp
  then show "used_set m' = insert (unat a div 4096) (used_set m)"
    using page_index(1) [OF p(1)] p(3) by simp
  show r: "reserved_pages m' = reserved_pages m"
    by (simp add: p(4))
  show "a \<notin> live_pages m"
    using p(1-3) page_word_inj [OF p(1)] by (auto simp: live_pages_def used_set_def)
  show "live_pages m' = insert a (live_pages m)"
    using u r take(2) p(3) by (auto simp: live_pages_def)
  show "a mod 4096 = 0"
    using page_index(2) [OF p(1)] p(3) by simp
  show "unat a + 4096 \<le> 2 ^ 24"
    using page_index(1) [OF p(1)] p(1,3) by simp
qed

lemma free_live:
  assumes m: "frames_ok m"
  shows "frames_ok (memory_free_page m a)" "live_pages (memory_free_page m a) = live_pages m - {a}"
    "reserved_pages (memory_free_page m a) = reserved_pages m"
proof -
  have len: "length (bitmap m) = 512"
    using m by (simp add: frames_ok_def)
  define p where "p = unat (a div 4096)"
  have act: "memory_free_page m a = (if a \<in> live_pages m
      then (mark_free m p)\<lparr>allocated_pages := allocated_pages m - 1\<rparr> else m)"
  proof (cases "a \<in> live_pages m")
    case True
    then obtain q where q: "q < 4096" "is_used m q" "unat (reserved_pages m) \<le> q" "a = word_of_nat q * 4096"
      by (auto simp: live_pages_def used_set_def)
    have "q \<noteq> 0"
      using m q(3) by (auto simp: frames_ok_def)
    then have "a \<noteq> 0"
      using page_index(1) [OF q(1)] q(4) by auto
    have "q \<in> used_set m"
      using q by (simp add: used_set_def)
    then have "allocated_pages m \<noteq> 0"
      using m by (auto simp: frames_ok_def unat_eq_zero card_eq_0_iff)
    with True q \<open>a \<noteq> 0\<close> page_index [OF q(1)] show ?thesis
      by (simp add: memory_free_page_def PAGE_COUNT_def p_def word_gt_0 Let_def)
  next
    case False
    have "a = word_of_nat p * 4096" if "a mod 4096 = 0"
    proof -
      have "unat a mod 4096 = 0"
        using that by (metis unat_mod_distrib unat_numeral_4096 unsigned_0)
      moreover have "p = unat a div 4096"
        by (simp add: p_def unat_div_distrib)
      ultimately have "unat a = p * 4096"
        by (metis add.right_neutral div_mult_mod_eq)
      then show ?thesis
        by (metis of_nat_mult of_nat_numeral of_nat_unat_self)
    qed
    with False have "a mod 4096 \<noteq> 0 \<or> \<not> p < 4096 \<or> \<not> is_used m p \<or> \<not> unat (reserved_pages m) \<le> p"
      unfolding live_pages_def used_set_def mem_Collect_eq by metis
    with False show ?thesis
      unfolding memory_free_page_def PAGE_COUNT_def p_def [symmetric] Let_def not_le [symmetric] by presburger
  qed
  have take: "frames_ok ((mark_free m p)\<lparr>allocated_pages := allocated_pages m - 1\<rparr>)" (is "frames_ok ?m")
    "live_pages ((mark_free m p)\<lparr>allocated_pages := allocated_pages m - 1\<rparr>) = live_pages m - {a}" if live: "a \<in> live_pages m"
  proof -
    obtain q where q: "q < 4096" "q \<in> used_set m" "unat (reserved_pages m) \<le> q" "a = word_of_nat q * 4096"
      using live by (auto simp: live_pages_def used_set_def)
    then have pq: "p = q"
      using page_index(3) [OF q(1)] by (simp add: p_def)
    have u: "used_set ?m = used_set m - {q}"
      using used_set_mark(2) [OF len q(1)] pq by simp
    have pos: "0 < unat (allocated_pages m)"
      using m q(2) by (auto simp: frames_ok_def card_gt_0_iff)
    then have "1 \<le> allocated_pages m"
      by (simp add: word_le_nat_alt)
    from unat_sub [OF this] have "unat (allocated_pages m - 1) = unat (allocated_pages m) - 1"
      by simp
    then show "frames_ok ?m"
      using m q(2,3) u by (auto simp: frames_ok_def)
    show "live_pages ?m = live_pages m - {a}"
      unfolding live_pages_def u using q page_word_inj [OF _ q(1)] by (auto simp: used_set_def)
  qed
  show "frames_ok (memory_free_page m a)" "live_pages (memory_free_page m a) = live_pages m - {a}"
    "reserved_pages (memory_free_page m a) = reserved_pages m"
    using act take m by (simp_all add: Diff_triv)
qed

section \<open>Initialisation\<close>

lemma foldl_mark_used:
  assumes "length (bitmap m) = 512" "n \<le> 4096"
  shows "used_set (foldl mark_used m [0..<n]) = {..<n} \<union> used_set m"
    "length (bitmap (foldl mark_used m [0..<n])) = 512" "reserved_pages (foldl mark_used m [0..<n]) = reserved_pages m"
  using assms(2)
proof (induction n)
  case (Suc n)
  { case 1 then show ?case
      using Suc by (simp add: used_set_mark lessThan_Suc) }
  { case 2 then show ?case
      using Suc by simp }
  { case 3 then show ?case
      using Suc by simp }
qed (use assms in simp_all)

text \<open>The number of pages below the end of the kernel image, at least the first megabyte.\<close>

definition reserved_count :: "u32 \<Rightarrow> nat" where
  "reserved_count e = min 4096 ((max (unat e) (2 ^ 20) + 4095) div 4096)"

lemma memory_init_ok:
  assumes "unat kernelEnd \<le> 2 ^ 32 - 4096"
  shows "frames_ok (memory_init kernelEnd)" "used_set (memory_init kernelEnd) = {..<reserved_count kernelEnd}"
    "unat (reserved_pages (memory_init kernelEnd)) = reserved_count kernelEnd"
    "live_pages (memory_init kernelEnd) = {}"
proof -
  define r where "r = (if kernelEnd > 1024 * 1024 then kernelEnd else 1024 * 1024)"
  define n where "n = (r + 4096 - 1) div 4096"
  define n' where "n' = (if unat n > 4096 then 4096 else n)"
  have r: "unat r = max (unat kernelEnd) (2 ^ 20)"
    by (auto simp: r_def word_less_nat_alt)
  have "r + 4096 - 1 = r + 4095"
    by simp
  moreover have "unat (r + 4095) = unat r + 4095"
    using assms r by (simp add: unat_word_ariths)
  ultimately have "unat n = (unat r + 4095) div 4096"
    by (simp only: n_def unat_div_distrib) simp
  then have n': "unat n' = reserved_count kernelEnd"
    using r by (auto simp: n'_def reserved_count_def)
  define m where "m = \<lparr>bitmap = replicate 512 0, allocated_pages = 0, reserved_pages = n'\<rparr>"
  have len: "length (bitmap m) = 512"
    by (simp add: m_def)
  have "bitmap m ! i = 0" if "i < 512" for i
    using that by (simp only: m_def frames.select_convs nth_replicate)
  then have empty: "used_set m = {}"
    by (auto simp: used_set_def is_used_bit)
  have init: "memory_init kernelEnd = (foldl mark_used m [0..<unat n'])\<lparr>allocated_pages := n'\<rparr>"
    by (simp add: memory_init_def m_def n'_def n_def r_def PAGE_COUNT_def BITMAP_SIZE_def Let_def)
  have le: "unat n' \<le> 4096" "0 < unat n'"
    unfolding n' reserved_count_def by (auto simp: div_greater_zero_iff)
  note f = foldl_mark_used [OF len le(1)]
  show u: "used_set (memory_init kernelEnd) = {..<reserved_count kernelEnd}"
    using f(1) by (simp add: init empty n')
  show rs: "unat (reserved_pages (memory_init kernelEnd)) = reserved_count kernelEnd"
    using f(3) by (simp add: init n' m_def)
  show "frames_ok (memory_init kernelEnd)"
    using u rs f(2) le(2) n' by (simp add: frames_ok_def init)
  show "live_pages (memory_init kernelEnd) = {}"
    using u rs by (auto simp: live_pages_def)
qed

section \<open>The allocator as an interface\<close>

text \<open>
  What the heap, the page tables and the scheduler rely on: a successful allocation returns an
  aligned page that nobody holds, a failed one changes nothing, and giving a page back releases
  exactly that page.
\<close>

locale page_allocator =
  fixes alloc :: "'s \<Rightarrow> u32 \<times> 's" and free :: "'s \<Rightarrow> u32 \<Rightarrow> 's" and live :: "'s \<Rightarrow> u32 set" and ok :: "'s \<Rightarrow> bool"
  assumes alloc_taken: "\<And>s s' a. ok s \<Longrightarrow> alloc s = (a, s') \<Longrightarrow> a \<noteq> 0 \<Longrightarrow>
      ok s' \<and> a \<notin> live s \<and> live s' = insert a (live s) \<and> a mod 4096 = 0"
    and alloc_exhausted: "\<And>s s'. ok s \<Longrightarrow> alloc s = (0, s') \<Longrightarrow> s' = s"
    and free_released: "\<And>s a. ok s \<Longrightarrow> ok (free s a) \<and> live (free s a) = live s - {a}"
    and null_not_live: "\<And>s. ok s \<Longrightarrow> 0 \<notin> live s"
begin

lemma alloc_ok:
  assumes "ok s" "alloc s = (a, s')"
  shows "ok s'" "live s' = (if a = 0 then live s else insert a (live s))"
proof -
  have "ok s' \<and> live s' = (if a = 0 then live s else insert a (live s))"
  proof (cases "a = 0")
    case True
    then show ?thesis
      using alloc_exhausted [OF assms(1)] assms by simp
  next
    case False
    then show ?thesis
      using alloc_taken [OF assms] by simp
  qed
  then show "ok s'" "live s' = (if a = 0 then live s else insert a (live s))"
    by simp_all
qed

lemma alloc_then_free:
  assumes "ok s" "alloc s = (a, s')"
  shows "live (free s' a) = live s" "ok (free s' a)"
proof -
  note r = free_released [OF alloc_ok(1) [OF assms], of a]
  then show "ok (free s' a)"
    by simp
  show "live (free s' a) = live s"
    using r alloc_ok(2) [OF assms] alloc_taken [OF assms] null_not_live [OF assms(1)]
    by (cases "a = 0") simp_all
qed

fun free_list :: "'s \<Rightarrow> u32 list \<Rightarrow> 's" where
  "free_list s [] = s"
| "free_list s (a # as) = free_list (free s a) as"

lemma free_list_live: "ok s \<Longrightarrow> ok (free_list s as) \<and> live (free_list s as) = live s - set as"
  by (induction as arbitrary: s) (auto simp: free_released)

end

lemma memory_alloc_page_exhausted:
  assumes "frames_ok m" "memory_alloc_page m = (0, m')"
  shows "m' = m" "used_set m = {..<4096}"
proof -
  have "p = 0" if "p < 4096" "word_of_nat p * 4096 = (0 :: u32)" for p
    using page_index(1) [OF that(1)] that(2) by simp
  then show "m' = m" "used_set m = {..<4096}"
    using memory_alloc_page_spec [of m] frames_ok_take(3) [OF assms(1)] assms
    by (auto simp: frames_ok_def)
qed

lemma null_not_live_page:
  assumes "frames_ok m"
  shows "0 \<notin> live_pages m"
proof
  assume "0 \<in> live_pages m"
  then obtain p where p: "p < 4096" "unat (reserved_pages m) \<le> p" "word_of_nat p * 4096 = (0 :: u32)"
    by (auto simp: live_pages_def used_set_def)
  then show False
    using page_index(1) [OF p(1)] assms by (simp add: frames_ok_def)
qed

interpretation pages: page_allocator memory_alloc_page memory_free_page live_pages frames_ok
proof unfold_locales
  fix s s' a
  assume "frames_ok s" "memory_alloc_page s = (a, s')" "a \<noteq> 0"
  from alloc_live [OF this] show "frames_ok s' \<and> a \<notin> live_pages s \<and> live_pages s' = insert a (live_pages s) \<and> a mod 4096 = 0"
    by (intro conjI)
qed (use memory_alloc_page_exhausted(1) null_not_live_page free_live in blast)+

section \<open>Runs of the allocator\<close>

datatype page_op = Take_page | Give_back u32

fun page_step :: "frames \<Rightarrow> page_op \<Rightarrow> frames" where
  "page_step m Take_page = snd (memory_alloc_page m)"
| "page_step m (Give_back a) = memory_free_page m a"

definition page_run :: "u32 \<Rightarrow> page_op list \<Rightarrow> frames" where
  "page_run kernelEnd ops = foldl page_step (memory_init kernelEnd) ops"

lemma alloc_keeps_reserved: "frames_ok m \<Longrightarrow> reserved_pages (snd (memory_alloc_page m)) = reserved_pages m"
  using alloc_live(6) [of m] memory_alloc_page_exhausted(1) [of m]
  by (cases "memory_alloc_page m") (metis snd_conv)

lemma page_step_ok:
  assumes "frames_ok m"
  shows "frames_ok (page_step m x)" "reserved_pages (page_step m x) = reserved_pages m"
proof -
  show "frames_ok (page_step m x)"
    using assms pages.alloc_ok(1) [of m] free_live(1) by (cases x; cases "memory_alloc_page m") simp_all
  show "reserved_pages (page_step m x) = reserved_pages m"
    using assms alloc_keeps_reserved free_live(3) by (cases x) simp_all
qed

lemma page_run_ok:
  assumes "unat kernelEnd \<le> 2 ^ 32 - 4096"
  shows "frames_ok (page_run kernelEnd ops) \<and> unat (reserved_pages (page_run kernelEnd ops)) = reserved_count kernelEnd"
proof -
  have "frames_ok (foldl page_step m ops) \<and> reserved_pages (foldl page_step m ops) = reserved_pages m" if "frames_ok m" for m
    using that by (induction ops arbitrary: m) (simp_all add: page_step_ok)
  from this [OF memory_init_ok(1) [OF assms]] show ?thesis
    by (simp add: page_run_def memory_init_ok(3) [OF assms])
qed

lemma frames_ok_count:
  assumes "frames_ok m"
  shows "unat (allocated_pages m) = unat (reserved_pages m) + card (live_pages m)"
proof -
  let ?r = "unat (reserved_pages m)" and ?page = "\<lambda>p. word_of_nat p * 4096 :: u32"
  have "live_pages m = ?page ` (used_set m - {..<?r})"
    by (auto simp: live_pages_def not_less)
  moreover have "inj_on ?page (used_set m - {..<?r})"
    by (intro inj_onI) (auto simp: used_set_def page_word_inj)
  ultimately have "card (live_pages m) = card (used_set m - {..<?r})"
    by (simp only: card_image)
  also have "\<dots> = card (used_set m) - ?r"
    using assms by (subst card_Diff_subset) (auto simp: frames_ok_def)
  finally show ?thesis
    using assms card_mono [of "used_set m" "{..<?r}"] by (simp add: frames_ok_def)
qed

lemma live_page_above:
  assumes "frames_ok m" "a \<in> live_pages m"
  shows "unat (reserved_pages m) * 4096 \<le> unat a" "unat a + 4096 \<le> 2 ^ 24"
  using assms page_index(1) by (auto simp: live_pages_def used_set_def)

lemma kernel_below_reserved: "unat k \<le> 2 ^ 24 \<Longrightarrow> unat k \<le> reserved_count k * 4096"
  by (simp add: reserved_count_def min_def max_def) linarith

lemma alloc_zero_iff_full:
  assumes "frames_ok m"
  shows "fst (memory_alloc_page m) = 0 \<longleftrightarrow> memory_free_pages m = 0"
proof -
  obtain a m' where am: "memory_alloc_page m = (a, m')"
    by (cases "memory_alloc_page m")
  have "memory_free_pages m = 0 \<longleftrightarrow> allocated_pages m = 4096"
    by (auto simp: memory_free_pages_def PAGE_COUNT_def)
  also have "\<dots> \<longleftrightarrow> card (used_set m) = 4096"
    using assms by (auto simp: frames_ok_def word_unat_eq_iff)
  also have "\<dots> \<longleftrightarrow> a = 0"
  proof
    assume full: "card (used_set m) = 4096"
    show "a = 0"
    proof (rule ccontr)
      assume "a \<noteq> 0"
      from alloc_live [OF assms am this] pages.alloc_taken [OF assms am this]
      have "unat (allocated_pages m') = 4096 + 1"
        using frames_ok_count [OF assms] frames_ok_count [of m'] full assms finite_subset [of "live_pages m" UNIV]
        by (simp add: frames_ok_def)
      then show False
        using frames_ok_card [of m'] alloc_live(1) [OF assms am \<open>a \<noteq> 0\<close>] by simp
    qed
  qed (use memory_alloc_page_exhausted(2) [OF assms] am in simp)
  finally show ?thesis
    by (simp add: am)
qed

section \<open>Properties\<close>

text \<open>
  C32. Whatever sequence of allocations and releases the kernel performs after \<open>memory_init\<close>
  (releases of wild, unaligned or already free addresses included), the page counter is the number
  of reserved pages plus the pages handed out and not given back; the next allocation returns a page
  nobody holds, above the kernel image and inside the 16 MiB, or 0 exactly when no page is free and
  then changes nothing; a release gives back at most its own page.
\<close>

theorem page_allocator_sound:
  fixes kernelEnd :: u32 and ops :: "page_op list"
  assumes "unat kernelEnd \<le> 2 ^ 24"
  defines "m \<equiv> page_run kernelEnd ops"
  shows "unat (memory_used_pages m) = reserved_count kernelEnd + card (live_pages m) \<and>
    (case memory_alloc_page m of (a, m') \<Rightarrow>
       (if a = 0 then memory_free_pages m = 0 \<and> m' = m
        else memory_free_pages m \<noteq> 0 \<and> a \<notin> live_pages m \<and> live_pages m' = insert a (live_pages m) \<and>
          a mod 4096 = 0 \<and> unat kernelEnd \<le> unat a \<and> unat a + 4096 \<le> 2 ^ 24)) \<and>
    live_pages (memory_free_page m b) = live_pages m - {b}"
proof -
  have k: "unat kernelEnd \<le> 2 ^ 32 - 4096"
    using assms(1) by simp
  note run = page_run_ok [OF k, of ops, folded m_def]
  obtain a m' where am: "memory_alloc_page m = (a, m')"
    by (cases "memory_alloc_page m")
  have full: "a = 0 \<longleftrightarrow> memory_free_pages m = 0"
    using alloc_zero_iff_full [of m] run am by simp
  show ?thesis
  proof (cases "a = 0")
    case True
    then show ?thesis
      using run full am frames_ok_count [of m] free_live(2) memory_alloc_page_exhausted(1) [of m m']
      by (simp add: memory_used_pages_def)
  next
    case False
    note taken = pages.alloc_taken [OF conjunct1 [OF run] am False]
    have "reserved_pages m' = reserved_pages m"
      using alloc_live(6) run am False by blast
    then have "reserved_count kernelEnd * 4096 \<le> unat a"
      using live_page_above(1) [of m' a] taken run by simp
    then have above: "unat kernelEnd \<le> unat a"
      using kernel_below_reserved [OF assms(1)] by linarith
    have "unat a + 4096 \<le> 2 ^ 24"
      using alloc_live(7) run am False by blast
    with False taken above full show ?thesis
      using run am frames_ok_count [of m] free_live(2) by (simp add: memory_used_pages_def)
  qed
qed

theorem page_allocator_sound_witness:
  "let m = page_run 1100000 [Take_page, Give_back 4096]
   in unat (memory_used_pages m) = reserved_count 1100000 + card (live_pages m)"
  using page_allocator_sound [of 1100000 "[Take_page, Give_back 4096]"] by (simp add: Let_def)

end
