(* ===== verification/Heap.thy ===== *)
theory Heap
  imports Frames "HOL-Library.Monad_Syntax"
begin

text \<open>
  The kernel heap \<^verbatim>\<open>22-os/heap/heap.cpp\<close> on the page allocator. The headers the code writes into the
  pages are a typed store: a map from addresses to \<^verbatim>\<open>BlockHeader\<close>s and one to \<^verbatim>\<open>Segment\<close>s, so that two
  pointers to the same header alias; on the 32-bit target a header takes 16 bytes and a segment 8.
  Reading through a pointer to something that is no header gives \<^const>\<open>None\<close>. Headers that a merge
  leaves behind stay in the store, as they stay in memory.
\<close>

definition HEADER_SIZE :: u32 where "HEADER_SIZE = 16"
definition SEGMENT_SIZE :: u32 where "SEGMENT_SIZE = 8"
definition ALIGNMENT :: u32 where "ALIGNMENT = 8"
definition MIN_SPLIT_PAYLOAD :: u32 where "MIN_SPLIT_PAYLOAD = 8"
definition HEAP_PAGE_SIZE :: u32 where "HEAP_PAGE_SIZE = 4096"

lemmas heap_sizes = HEADER_SIZE_def SEGMENT_SIZE_def ALIGNMENT_def MIN_SPLIT_PAYLOAD_def HEAP_PAGE_SIZE_def

record HeapBlockHeader =
  b_size :: u32
  b_used :: bool
  b_next :: u32
  b_prev :: u32

record Segment =
  s_next :: u32
  firstBlock :: u32

record heap =
  blocks :: "u32 \<rightharpoonup> HeapBlockHeader"
  segs :: "u32 \<rightharpoonup> Segment"
  segments :: u32
  bytesAllocated :: u32
  pages :: frames

definition alignUp :: "u32 \<Rightarrow> u32" where
  "alignUp v = (v + (ALIGNMENT - 1)) AND NOT (ALIGNMENT - 1)"

definition blockPayload :: "u32 \<Rightarrow> u32" where
  "blockPayload b = b + HEADER_SIZE"

definition payloadToBlock :: "u32 \<Rightarrow> u32" where
  "payloadToBlock p = p - HEADER_SIZE"

definition put_header :: "u32 \<Rightarrow> HeapBlockHeader \<Rightarrow> heap \<Rightarrow> heap" where
  "put_header b x h = h\<lparr>blocks := (blocks h)(b \<mapsto> x)\<rparr>"

text \<open>\<^verbatim>\<open>if (next != nullptr) next->prev = b\<close>, where \<^verbatim>\<open>next\<close> is read first.\<close>

definition set_prev :: "u32 \<Rightarrow> u32 \<Rightarrow> heap \<Rightarrow> heap option" where
  "set_prev next b h =
     (if next = 0 then Some h
      else do { y \<leftarrow> blocks h next; Some (put_header next (y\<lparr>b_prev := b\<rparr>) h) })"

definition splitIfWorthwhile :: "u32 \<Rightarrow> u32 \<Rightarrow> heap \<Rightarrow> heap option" where
  "splitIfWorthwhile b n h = do {
     x \<leftarrow> blocks h b;
     let remaining = b_size x - n;
     if remaining < HEADER_SIZE + MIN_SPLIT_PAYLOAD then Some h
     else do {
       let newBlock = blockPayload b + n;
       let h1 = put_header newBlock \<lparr>b_size = remaining - HEADER_SIZE, b_used = False, b_next = b_next x, b_prev = b\<rparr> h;
       h2 \<leftarrow> set_prev (b_next x) newBlock h1;
       x2 \<leftarrow> blocks h2 b;
       Some (put_header b (x2\<lparr>b_next := newBlock, b_size := n\<rparr>) h2)
     }
   }"

definition growHeap :: "heap \<Rightarrow> bool \<times> heap" where
  "growHeap h =
     (let (page, f) = memory_alloc_page (pages h) in
      if page = 0 then (False, h\<lparr>pages := f\<rparr>)
      else
        let block = page + SEGMENT_SIZE;
            h1 = put_header block
                   \<lparr>b_size = HEAP_PAGE_SIZE - SEGMENT_SIZE - HEADER_SIZE, b_used = False, b_next = 0, b_prev = 0\<rparr>
                   (h\<lparr>pages := f\<rparr>)
        in (True, h1\<lparr>segs := (segs h1)(page \<mapsto> \<lparr>s_next = segments h1, firstBlock = block\<rparr>), segments := page\<rparr>))"

text \<open>The two nested loops of \<^verbatim>\<open>findFreeBlock\<close>; a list that runs in a circle has no result.\<close>

partial_function (option) find_block :: "heap \<Rightarrow> u32 \<Rightarrow> u32 \<Rightarrow> u32 option" where
  "find_block h n b =
     (if b = 0 then Some 0
      else do {
        x \<leftarrow> blocks h b;
        if \<not> b_used x \<and> b_size x \<ge> n then Some b else find_block h n (b_next x)
      })"

partial_function (option) find_segment :: "heap \<Rightarrow> u32 \<Rightarrow> u32 \<Rightarrow> u32 option" where
  "find_segment h n s =
     (if s = 0 then Some 0
      else do {
        g \<leftarrow> segs h s;
        b \<leftarrow> find_block h n (firstBlock g);
        if b \<noteq> 0 then Some b else find_segment h n (s_next g)
      })"

definition findFreeBlock :: "heap \<Rightarrow> u32 \<Rightarrow> u32 option" where
  "findFreeBlock h n = find_segment h n (segments h)"

definition heap_init :: "frames \<Rightarrow> heap" where
  "heap_init f = \<lparr>blocks = Map.empty, segs = Map.empty, segments = 0, bytesAllocated = 0, pages = f\<rparr>"

text \<open>The end of \<^verbatim>\<open>kmalloc\<close>, once a block is found.\<close>

definition take_block :: "u32 \<Rightarrow> u32 \<Rightarrow> heap \<Rightarrow> (u32 \<times> heap) option" where
  "take_block b n h = do {
     h1 \<leftarrow> splitIfWorthwhile b n h;
     x \<leftarrow> blocks h1 b;
     Some (blockPayload b,
           (put_header b (x\<lparr>b_used := True\<rparr>) h1)\<lparr>bytesAllocated := bytesAllocated h1 + b_size x\<rparr>)
   }"

definition kmalloc :: "u32 \<Rightarrow> heap \<Rightarrow> (u32 \<times> heap) option" where
  "kmalloc n h =
     (if n = 0 then Some (0, h)
      else do {
        let aligned = alignUp n;
        b \<leftarrow> findFreeBlock h aligned;
        if b \<noteq> 0 then take_block b aligned h
        else (case growHeap h of
            (False, h1) \<Rightarrow> Some (0, h1)
          | (True, h1) \<Rightarrow> do {
              b1 \<leftarrow> findFreeBlock h1 aligned;
              if b1 = 0 then Some (0, h1) else take_block b1 aligned h1
            })
      })"

text \<open>\<open>merge_next a c\<close> is the body of either coalescing step: \<open>a\<close> takes over its neighbour \<open>c\<close>.\<close>

definition merge_next :: "u32 \<Rightarrow> u32 \<Rightarrow> heap \<Rightarrow> heap option" where
  "merge_next a c h = do {
     x \<leftarrow> blocks h a;
     y \<leftarrow> blocks h c;
     set_prev (b_next y) a (put_header a (x\<lparr>b_size := b_size x + (HEADER_SIZE + b_size y), b_next := b_next y\<rparr>) h)
   }"

definition is_free :: "u32 \<Rightarrow> heap \<Rightarrow> bool option" where
  "is_free b h = (if b = 0 then Some False else do { x \<leftarrow> blocks h b; Some (\<not> b_used x) })"

definition kfree :: "u32 \<Rightarrow> heap \<Rightarrow> heap option" where
  "kfree p h =
     (if p = 0 then Some h
      else do {
        let b = payloadToBlock p;
        x \<leftarrow> blocks h b;
        if \<not> b_used x then Some h
        else do {
          let h1 = (put_header b (x\<lparr>b_used := False\<rparr>) h)\<lparr>bytesAllocated := bytesAllocated h - b_size x\<rparr>;
          nf \<leftarrow> is_free (b_next x) h1;
          h2 \<leftarrow> (if nf then merge_next b (b_next x) h1 else Some h1);
          x2 \<leftarrow> blocks h2 b;
          pf \<leftarrow> is_free (b_prev x2) h2;
          if pf then merge_next (b_prev x2) b h2 else Some h2
        }
      })"

definition heap_bytes_allocated :: "heap \<Rightarrow> u32" where
  "heap_bytes_allocated h = bytesAllocated h"

section \<open>The block lists\<close>

text \<open>
  A segment's blocks as a list of address, size and use flag. \<open>lseg m p a bs n\<close>: from \<open>a\<close>, whose
  predecessor is \<open>p\<close>, the links of \<open>m\<close> go through \<open>bs\<close> and end at \<open>n\<close>. \<open>tiled lo hi bs\<close>: the blocks with
  their headers fill \<open>[lo, hi)\<close> without gaps.
\<close>

type_synonym block = "u32 \<times> u32 \<times> bool"

fun lseg :: "(u32 \<rightharpoonup> HeapBlockHeader) \<Rightarrow> u32 \<Rightarrow> u32 \<Rightarrow> block list \<Rightarrow> u32 \<Rightarrow> bool" where
  "lseg m p a [] n \<longleftrightarrow> a = n"
| "lseg m p a ((b, sz, u) # bs) n \<longleftrightarrow>
     a = b \<and> b \<noteq> 0 \<and> (\<exists>x. m b = Some \<lparr>b_size = sz, b_used = u, b_next = x, b_prev = p\<rparr> \<and> lseg m b x bs n)"

fun lastb :: "u32 \<Rightarrow> block list \<Rightarrow> u32" where
  "lastb p [] = p"
| "lastb p ((b, _, _) # bs) = lastb b bs"

fun tiled :: "nat \<Rightarrow> nat \<Rightarrow> block list \<Rightarrow> bool" where
  "tiled lo hi [] \<longleftrightarrow> lo = hi"
| "tiled lo hi ((b, sz, u) # bs) \<longleftrightarrow>
     unat b = lo \<and> 0 < unat sz \<and> 8 dvd unat sz \<and> lo + 16 + unat sz \<le> hi \<and> tiled (lo + 16 + unat sz) hi bs"

lemma lseg_append: "lseg m p a (xs @ ys) n \<longleftrightarrow> (\<exists>x. lseg m p a xs x \<and> lseg m (lastb p xs) x ys n)"
  by (induction m p a xs n rule: lseg.induct) auto

lemma lastb_append [simp]: "lastb p (xs @ ys) = lastb (lastb p xs) ys"
  by (induction p xs rule: lastb.induct) auto

lemma lseg_cong: "(\<And>b. b \<in> fst ` set bs \<Longrightarrow> m' b = m b) \<Longrightarrow> lseg m' p a bs n = lseg m p a bs n"
  by (induction m p a bs n rule: lseg.induct) auto

lemma tiled_append: "tiled lo hi (xs @ ys) \<longleftrightarrow> (\<exists>mid. tiled lo mid xs \<and> tiled mid hi ys \<and> mid \<le> hi)"
proof (induction lo hi xs rule: tiled.induct)
  case (1 lo hi)
  have "lo \<le> hi" if "tiled lo hi ys" for ys
    using that by (induction lo hi ys rule: tiled.induct) auto
  then show ?case
    by auto
next
  case (2 lo hi b sz u bs)
  have "a \<le> c" if "tiled a c zs" for a c zs
    using that by (induction a c zs rule: tiled.induct) auto
  with 2 show ?case
    by fastforce
qed

lemma tiled_le: "tiled lo hi bs \<Longrightarrow> lo \<le> hi"
  by (induction lo hi bs rule: tiled.induct) auto

lemma tiled_bounds: "tiled lo hi bs \<Longrightarrow> (b, sz, u) \<in> set bs \<Longrightarrow> lo \<le> unat b \<and> unat b + 16 + unat sz \<le> hi"
  by (induction lo hi bs rule: tiled.induct) (auto dest: tiled_le)

lemma tiled_addresses: "tiled lo hi bs \<Longrightarrow> b \<in> fst ` set bs \<Longrightarrow> lo \<le> unat b \<and> unat b < hi"
  using tiled_bounds by fastforce

lemma tiled_outside: "tiled lo hi bs \<Longrightarrow> unat k < lo \<or> hi \<le> unat k \<Longrightarrow> k \<notin> fst ` set bs"
  using tiled_addresses by (metis leD)

lemma tiled_distinct: "tiled lo hi bs \<Longrightarrow> distinct (map fst bs)"
proof (induction lo hi bs rule: tiled.induct)
  case (2 lo hi b sz u bs)
  then show ?case
    using tiled_addresses [of "lo + 16 + unat sz" hi bs b] by auto
qed simp

section \<open>Pointer operations as list operations\<close>

definition only_blocks :: "heap \<Rightarrow> heap \<Rightarrow> bool" where
  "only_blocks h h' \<longleftrightarrow> segs h' = segs h \<and> segments h' = segments h \<and>
     bytesAllocated h' = bytesAllocated h \<and> pages h' = pages h"

text \<open>Outside \<open>[lo, hi)\<close> no header changes.\<close>

definition outside_same :: "nat \<Rightarrow> nat \<Rightarrow> heap \<Rightarrow> heap \<Rightarrow> bool" where
  "outside_same lo hi h h' \<longleftrightarrow> (\<forall>c. unat c < lo \<or> hi \<le> unat c \<longrightarrow> blocks h' c = blocks h c)"

lemma only_blocks_put [simp]: "only_blocks h (put_header b x h)"
  by (simp add: only_blocks_def put_header_def)

lemma only_blocks_trans: "only_blocks h h1 \<Longrightarrow> only_blocks h1 h2 \<Longrightarrow> only_blocks h h2"
  by (simp add: only_blocks_def)

lemma blocks_put [simp]: "blocks (put_header b x h) = (blocks h)(b \<mapsto> x)"
  by (simp add: put_header_def)

lemma set_prev_lseg:
  assumes "lseg (blocks h) q a bs 0" "distinct (map fst bs)"
  shows "\<exists>h'. set_prev a p h = Some h' \<and> lseg (blocks h') p a bs 0 \<and> only_blocks h h' \<and>
    (\<forall>c. c \<notin> fst ` set bs \<longrightarrow> blocks h' c = blocks h c)"
proof (cases bs)
  case Nil
  then show ?thesis
    using assms by (simp add: set_prev_def only_blocks_def)
next
  case (Cons x bs')
  obtain b sz u where x: "x = (b, sz, u)"
    by (cases x)
  obtain n where b: "a = b" "b \<noteq> 0" "blocks h b = Some \<lparr>b_size = sz, b_used = u, b_next = n, b_prev = q\<rparr>"
    "lseg (blocks h) b n bs' 0"
    using assms(1) by (auto simp: Cons x)
  let ?h = "put_header b \<lparr>b_size = sz, b_used = u, b_next = n, b_prev = p\<rparr> h"
  have "lseg (blocks ?h) b n bs' 0"
    using b(4) assms(2) by (subst lseg_cong [of bs' _ "blocks h"]) (auto simp: Cons x)
  then show ?thesis
    using b by (intro exI [of _ ?h]) (simp add: set_prev_def Cons x)
qed

lemma lseg_head:
  assumes "lseg m p a (xs @ (b, sz, u) # ys) n"
  obtains y where "b \<noteq> 0" "m b = Some \<lparr>b_size = sz, b_used = u, b_next = y, b_prev = lastb p xs\<rparr>"
    "lseg m p a xs b" "lseg m b y ys n"
  using assms by (auto simp: lseg_append)

lemma lseg_replace:
  assumes "lseg m p a xs b" "\<And>c. c \<in> fst ` set xs \<Longrightarrow> m' c = m c" "lseg m' (lastb p xs) b zs n"
  shows "lseg m' p a (xs @ zs) n"
  using assms(1,3) lseg_cong [of xs m' m p a b] assms(2) by (auto simp: lseg_append)

definition split_block :: "block \<Rightarrow> u32 \<Rightarrow> block list" where
  "split_block x n =
     (case x of (b, sz, u) \<Rightarrow>
        if sz - n < 24 then [(b, sz, u)] else [(b, n, u), (b + 16 + n, sz - n - 16, False)])"

lemma unat_plus:
  assumes "unat (a :: u32) + unat b < 2 ^ 32"
  shows "unat (a + b) = unat a + unat b"
  using assms by (simp add: unat_word_ariths)

lemma block_end:
  assumes "unat (b :: u32) + 16 + unat n < 2 ^ 32"
  shows "unat (b + 16 + n) = unat b + 16 + unat n"
proof -
  have "unat (b + 16) = unat b + 16"
    using unat_plus [of b 16] assms by simp
  then show ?thesis
    using unat_plus [of "b + 16" n] assms by simp
qed

lemma tiled_member: "tiled lo hi (xs @ (b, sz, u) # ys) \<Longrightarrow> lo \<le> unat b \<and> unat b + 16 + unat sz \<le> hi"
  by (rule tiled_bounds) auto

lemma split_address:
  assumes "tiled lo hi (xs @ (b, sz, u) # ys)" "hi \<le> 2 ^ 24" "n \<le> sz"
  shows "unat (b + 16 + n) = unat b + 16 + unat n"
  using tiled_member [OF assms(1)] assms(2,3) by (intro block_end) (simp add: word_le_nat_alt)

lemma split_tiled:
  assumes t: "tiled lo hi (xs @ (b, sz, u) # ys)" and hi: "hi \<le> 2 ^ 24"
    and n: "n \<le> sz" "0 < unat n" "8 dvd unat n"
  shows "tiled lo hi (xs @ split_block (b, sz, u) n @ ys)"
proof (cases "sz - n < 24")
  case True
  then show ?thesis
    using t by (simp add: split_block_def)
next
  case False
  obtain mid where xs: "tiled lo mid xs" "mid \<le> hi" "tiled mid hi ((b, sz, u) # ys)"
    using t unfolding tiled_append by blast
  then have blk: "unat b = mid" "8 dvd unat sz" "mid + 16 + unat sz \<le> hi" "tiled (mid + 16 + unat sz) hi ys"
    by simp_all
  have sz: "unat (sz - n) = unat sz - unat n"
    using n(1) by (rule unat_sub)
  then have big: "24 \<le> unat sz - unat n"
    using False by (simp add: word_less_nat_alt)
  then have "(16 :: u32) \<le> sz - n"
    by (simp add: word_le_nat_alt sz)
  then have rest: "unat (sz - n - 16) = unat sz - unat n - 16"
    by (simp add: unat_sub sz)
  have dvd: "8 dvd unat sz - unat n - 16"
    using blk(2) n(3) by (simp add: dvd_diff_nat)
  have eq: "mid + 16 + unat n + 16 + (unat sz - unat n - 16) = mid + 16 + unat sz"
    using big by simp
  have "tiled mid hi ([(b, n, u), (b + 16 + n, sz - n - 16, False)] @ ys)"
    unfolding append.simps tiled.simps rest eq split_address [OF t hi n(1)]
    using blk big dvd n(2,3) by auto
  then have "tiled lo hi (xs @ [(b, n, u), (b + 16 + n, sz - n - 16, False)] @ ys)"
    unfolding tiled_append [of lo hi xs] using xs by blast
  then show ?thesis
    using False by (simp add: split_block_def)
qed

lemma lseg_put: "lseg (blocks h) p a bs n \<Longrightarrow> c \<notin> fst ` set bs \<Longrightarrow> lseg (blocks (put_header c x h)) p a bs n"
  by (subst lseg_cong [of bs _ "blocks h"]) auto

lemma split_lseg:
  assumes l: "lseg (blocks h) p a (xs @ (b, sz, u) # ys) 0" and t: "tiled lo hi (xs @ (b, sz, u) # ys)"
    and hi: "hi \<le> 2 ^ 24" and n: "n \<le> sz" "0 < unat n" "8 dvd unat n"
  shows "\<exists>h'. splitIfWorthwhile b n h = Some h' \<and> lseg (blocks h') p a (xs @ split_block (b, sz, u) n @ ys) 0 \<and>
    only_blocks h h' \<and> outside_same lo hi h h'"
proof -
  obtain y where b: "b \<noteq> 0" "blocks h b = Some \<lparr>b_size = sz, b_used = u, b_next = y, b_prev = lastb p xs\<rparr>"
    "lseg (blocks h) p a xs b" "lseg (blocks h) b y ys 0"
    using l by (rule lseg_head)
  show ?thesis
  proof (cases "sz - n < 24")
    case True
    then show ?thesis
      using l b by (auto simp: splitIfWorthwhile_def heap_sizes split_block_def only_blocks_def outside_same_def)
  next
    case False
    define c where "c = b + 16 + n"
    let ?new = "[(b, n, u), (c, sz - n - 16, False)] @ ys"
    have t': "tiled lo hi (xs @ ?new)"
      using split_tiled [OF t hi n] False by (simp add: split_block_def c_def)
    have d: "b \<noteq> c" "b \<notin> fst ` set ys" "c \<notin> fst ` set ys" "distinct (map fst ys)"
      "\<And>k. k \<in> fst ` set xs \<Longrightarrow> k \<noteq> b \<and> k \<noteq> c \<and> k \<notin> fst ` set ys"
      using tiled_distinct [OF t'] by auto
    have c0: "c \<noteq> 0"
      using split_address [OF t hi n(1)] by (auto simp: c_def [symmetric])
    let ?h1 = "put_header c \<lparr>b_size = sz - n - 16, b_used = False, b_next = y, b_prev = b\<rparr> h"
    from set_prev_lseg [OF lseg_put [OF b(4) d(3)] d(4), of c] obtain h2 where h2: "set_prev y c ?h1 = Some h2"
      "lseg (blocks h2) c y ys 0" "only_blocks ?h1 h2" "\<And>k. k \<notin> fst ` set ys \<Longrightarrow> blocks h2 k = blocks ?h1 k"
      by blast
    have keep: "blocks h2 b = blocks h b" "blocks h2 c = Some \<lparr>b_size = sz - n - 16, b_used = False, b_next = y, b_prev = b\<rparr>"
      using h2(4) [OF d(2)] h2(4) [OF d(3)] d(1) by simp_all
    let ?h3 = "put_header b \<lparr>b_size = n, b_used = u, b_next = c, b_prev = lastb p xs\<rparr> h2"
    have run: "splitIfWorthwhile b n h = Some ?h3"
      using False b(2) h2(1) keep(1) by (simp add: splitIfWorthwhile_def heap_sizes blockPayload_def Let_def c_def)
    have "lseg (blocks ?h3) (lastb p xs) b ?new 0"
      using keep(2) b(1) c0 d(1) lseg_put [OF h2(2) d(2)] by simp
    then have "lseg (blocks ?h3) p a (xs @ ?new) 0"
      by (rule lseg_replace [OF b(3), rotated]) (use d(5) h2(4) in simp)
    moreover have "outside_same lo hi h ?h3"
      unfolding outside_same_def
    proof (intro allI impI)
      fix k :: u32
      assume "unat k < lo \<or> hi \<le> unat k"
      then have "k \<notin> fst ` set (xs @ ?new)"
        by (rule tiled_outside [OF t'])
      then show "blocks ?h3 k = blocks h k"
        using h2(4) [of k] by (simp add: image_Un)
    qed
    moreover have "only_blocks h ?h3"
      using h2(3) by (simp add: only_blocks_def put_header_def)
    ultimately show ?thesis
      using run False by (simp add: split_block_def c_def)
  qed
qed

lemma put_used_lseg:
  assumes l: "lseg (blocks h) p a (xs @ (b, sz, u) # ys) 0" and d: "distinct (map fst (xs @ (b, sz, u) # ys))"
    and x: "blocks h b = Some x"
  shows "lseg (blocks (put_header b (x\<lparr>b_used := v\<rparr>) h)) p a (xs @ (b, sz, v) # ys) 0 \<and> b_size x = sz"
proof -
  obtain y where b: "b \<noteq> 0" "blocks h b = Some \<lparr>b_size = sz, b_used = u, b_next = y, b_prev = lastb p xs\<rparr>"
    "lseg (blocks h) p a xs b" "lseg (blocks h) b y ys 0"
    using l by (rule lseg_head)
  let ?h = "put_header b (x\<lparr>b_used := v\<rparr>) h"
  have "b \<notin> fst ` set ys" and xs: "\<And>k. k \<in> fst ` set xs \<Longrightarrow> k \<noteq> b"
    using d by auto
  then have "lseg (blocks ?h) (lastb p xs) b ((b, sz, v) # ys) 0"
    using lseg_put [OF b(4)] b(1,2) x by simp
  then have "lseg (blocks ?h) p a (xs @ (b, sz, v) # ys) 0"
    by (rule lseg_replace [OF b(3), rotated]) (use xs in simp)
  then show ?thesis
    using b(2) x by simp
qed

lemma merge_lseg:
  assumes l: "lseg (blocks h) p a (xs @ (b, sz, u) # (c, sc, v) # ys) 0"
    and t: "tiled lo hi (xs @ (b, sz, u) # (c, sc, v) # ys)"
  shows "\<exists>h'. merge_next b c h = Some h' \<and> lseg (blocks h') p a (xs @ (b, sz + (16 + sc), u) # ys) 0 \<and>
    only_blocks h h' \<and> outside_same lo hi h h'"
proof -
  obtain y where b: "b \<noteq> 0" "blocks h b = Some \<lparr>b_size = sz, b_used = u, b_next = y, b_prev = lastb p xs\<rparr>"
    "lseg (blocks h) p a xs b" "lseg (blocks h) b y ((c, sc, v) # ys) 0"
    using l by (rule lseg_head)
  then obtain z where c: "y = c" "c \<noteq> 0" "blocks h c = Some \<lparr>b_size = sc, b_used = v, b_next = z, b_prev = b\<rparr>"
    "lseg (blocks h) c z ys 0"
    by auto
  have d: "b \<noteq> c" "b \<notin> fst ` set ys" "distinct (map fst ys)"
    "\<And>k. k \<in> fst ` set xs \<Longrightarrow> k \<noteq> b \<and> k \<notin> fst ` set ys"
    using tiled_distinct [OF t] by auto
  let ?h1 = "put_header b \<lparr>b_size = sz + (16 + sc), b_used = u, b_next = z, b_prev = lastb p xs\<rparr> h"
  from set_prev_lseg [OF lseg_put [OF c(4) d(2)] d(3), of b] obtain h2 where h2: "set_prev z b ?h1 = Some h2"
    "lseg (blocks h2) b z ys 0" "only_blocks ?h1 h2" "\<And>k. k \<notin> fst ` set ys \<Longrightarrow> blocks h2 k = blocks ?h1 k"
    by blast
  have run: "merge_next b c h = Some h2"
    using b(2) c(3) h2(1) by (simp add: merge_next_def heap_sizes)
  have "lseg (blocks h2) (lastb p xs) b ((b, sz + (16 + sc), u) # ys) 0"
    using h2(2) h2(4) [OF d(2)] b(1) by simp
  then have "lseg (blocks h2) p a (xs @ (b, sz + (16 + sc), u) # ys) 0"
    by (rule lseg_replace [OF b(3), rotated]) (use d(4) h2(4) in simp)
  moreover have "outside_same lo hi h h2"
    unfolding outside_same_def
  proof (intro allI impI)
    fix k :: u32
    assume "unat k < lo \<or> hi \<le> unat k"
    then have "k \<notin> fst ` set (xs @ (b, sz, u) # (c, sc, v) # ys)"
      by (rule tiled_outside [OF t])
    then show "blocks h2 k = blocks h k"
      using h2(4) [of k] by (simp add: image_Un)
  qed
  moreover have "only_blocks h h2"
    using h2(3) by (simp add: only_blocks_def put_header_def)
  ultimately show ?thesis
    using run by blast
qed

lemma merge_tiled:
  assumes t: "tiled lo hi (xs @ (b, sz, u) # (c, sc, v) # ys)" and hi: "hi \<le> 2 ^ 24"
  shows "tiled lo hi (xs @ (b, sz + (16 + sc), w) # ys) \<and> unat (sz + (16 + sc)) = unat sz + 16 + unat sc"
proof -
  obtain mid where xs: "tiled lo mid xs" "mid \<le> hi" "tiled mid hi ((b, sz, u) # (c, sc, v) # ys)"
    using t unfolding tiled_append by blast
  then have small: "unat sz + 16 + unat sc < 2 ^ 32"
    using hi by (auto dest: tiled_le)
  have "unat (16 + sc) = 16 + unat sc"
    using unat_plus [of 16 sc] small by simp
  then have sz: "unat (sz + (16 + sc)) = unat sz + 16 + unat sc"
    using unat_plus [of sz "16 + sc"] small by simp
  have "tiled mid hi ((b, sz + (16 + sc), w) # ys)"
    unfolding tiled.simps sz using xs(3) by (auto simp: algebra_simps dest: tiled_le)
  then show ?thesis
    unfolding tiled_append [of lo hi xs] using xs sz by blast
qed

lemma find_block_list:
  "lseg (blocks h) p a bs 0 \<Longrightarrow>
   find_block h n a = Some (case find (\<lambda>(b, sz, u). \<not> u \<and> n \<le> sz) bs of None \<Rightarrow> 0 | Some (b, _, _) \<Rightarrow> b)"
proof (induction bs arbitrary: p a)
  case Nil
  then show ?case
    by (simp add: find_block.simps)
next
  case (Cons x bs)
  obtain b sz u where x: "x = (b, sz, u)"
    by (cases x)
  show ?case
    using Cons.prems Cons.IH by (subst find_block.simps) (auto simp: x)
qed

section \<open>One page\<close>

definition page_blocks :: "heap \<Rightarrow> u32 \<Rightarrow> block list \<Rightarrow> bool" where
  "page_blocks h pg bs \<longleftrightarrow>
     lseg (blocks h) 0 (pg + 8) bs 0 \<and> tiled (unat pg + 8) (unat pg + 4096) bs \<and> unat pg + 4096 \<le> 2 ^ 24"

definition in_use :: "block \<Rightarrow> bool" where
  "in_use x = snd (snd x)"

definition coalesced :: "block list \<Rightarrow> bool" where
  "coalesced bs = successively (\<lambda>x y. in_use x \<or> in_use y) bs"

definition handed_out :: "block list \<Rightarrow> (u32 \<times> u32) list" where
  "handed_out bs = map (\<lambda>(b, sz, u). (b + 16, sz)) (filter in_use bs)"

lemma in_use_simps [simp]: "in_use (b, sz, u) = u"
  by (simp add: in_use_def)

lemma handed_out_simps [simp]:
  "handed_out [] = []" "handed_out ((b, sz, u) # bs) = (if u then (b + 16, sz) # handed_out bs else handed_out bs)"
  "handed_out (xs @ ys) = handed_out xs @ handed_out ys"
  by (simp_all add: handed_out_def)

lemma coalesced_append:
  "coalesced (xs @ ys) \<longleftrightarrow> coalesced xs \<and> coalesced ys \<and> (xs = [] \<or> ys = [] \<or> in_use (last xs) \<or> in_use (hd ys))"
  by (auto simp: coalesced_def successively_append_iff)

lemma coalesced_Cons: "coalesced (x # ys) \<longleftrightarrow> coalesced ys \<and> (ys = [] \<or> in_use x \<or> in_use (hd ys))"
  using coalesced_append [of "[x]" ys] by (auto simp: coalesced_def)

text \<open>The blocks that replace a free block of which \<open>n\<close> bytes are handed out.\<close>

definition taken :: "u32 \<Rightarrow> u32 \<Rightarrow> u32 \<Rightarrow> block list" where
  "taken b sz n = (if sz - n < 24 then [(b, sz, True)] else [(b, n, True), (b + 16 + n, sz - n - 16, False)])"

lemma taken_facts:
  "handed_out (taken b sz n) = [(b + 16, if sz - n < 24 then sz else n)]"
  "coalesced (taken b sz n)" "hd (taken b sz n) = (b, if sz - n < 24 then sz else n, True)" "taken b sz n \<noteq> []"
  by (simp_all add: taken_def coalesced_def)

lemma outside_trans: "outside_same lo hi h h1 \<Longrightarrow> outside_same lo hi h1 h2 \<Longrightarrow> outside_same lo hi h h2"
  by (simp add: outside_same_def)

lemma outside_put: "lo \<le> unat b \<Longrightarrow> unat b < hi \<Longrightarrow> outside_same lo hi h (put_header b x h)"
  by (auto simp: outside_same_def)

lemma outside_bytes [simp]:
  "outside_same lo hi h (h1\<lparr>bytesAllocated := n\<rparr>) = outside_same lo hi h h1"
  "outside_same lo hi (h\<lparr>bytesAllocated := n\<rparr>) h1 = outside_same lo hi h h1"
  by (simp_all add: outside_same_def)

definition book_kept :: "heap \<Rightarrow> heap \<Rightarrow> bool" where
  "book_kept h h' \<longleftrightarrow> segs h' = segs h \<and> segments h' = segments h \<and> pages h' = pages h"

lemma take_block_page:
  assumes pg: "page_blocks h pg (xs @ (b, sz, False) # ys)" and c: "coalesced (xs @ (b, sz, False) # ys)"
    and n: "n \<le> sz" "0 < unat n" "8 dvd unat n"
  shows "\<exists>h'. take_block b n h = Some (b + 16, h') \<and> page_blocks h' pg (xs @ taken b sz n @ ys) \<and>
    coalesced (xs @ taken b sz n @ ys) \<and> book_kept h h' \<and> outside_same (unat pg + 8) (unat pg + 4096) h h' \<and>
    bytesAllocated h' = bytesAllocated h + (if sz - n < 24 then sz else n)"
proof -
  let ?lo = "unat pg + 8" and ?hi = "unat pg + 4096"
  have l: "lseg (blocks h) 0 (pg + 8) (xs @ (b, sz, False) # ys) 0" and t: "tiled ?lo ?hi (xs @ (b, sz, False) # ys)"
    and hi: "?hi \<le> 2 ^ 24"
    using pg by (simp_all add: page_blocks_def)
  obtain h1 where h1: "splitIfWorthwhile b n h = Some h1"
    "lseg (blocks h1) 0 (pg + 8) (xs @ split_block (b, sz, False) n @ ys) 0" "only_blocks h h1" "outside_same ?lo ?hi h h1"
    using split_lseg [OF l t hi n] by blast
  define m where "m = (if sz - n < 24 then sz else n)"
  define rest where "rest = tl (split_block (b, sz, False) n) @ ys"
  have sp: "split_block (b, sz, False) n @ ys = (b, m, False) # rest"
    and tk: "taken b sz n @ ys = (b, m, True) # rest"
    by (simp_all add: split_block_def taken_def m_def rest_def)
  have t1: "tiled ?lo ?hi (xs @ (b, m, False) # rest)"
    using split_tiled [OF t hi n] by (simp add: sp)
  have l1: "lseg (blocks h1) 0 (pg + 8) (xs @ (b, m, False) # rest) 0"
    using h1(2) by (simp only: sp)
  then obtain x where x: "blocks h1 b = Some x"
    by (rule lseg_head) blast
  let ?h' = "(put_header b (x\<lparr>b_used := True\<rparr>) h1)\<lparr>bytesAllocated := bytesAllocated h1 + b_size x\<rparr>"
  note put = put_used_lseg [OF l1 tiled_distinct [OF t1] x, of True]
  have t2: "tiled ?lo ?hi (xs @ (b, m, True) # rest)"
    using t1 by (simp add: tiled_append)
  have run: "take_block b n h = Some (b + 16, ?h')"
    by (simp add: take_block_def h1(1) x blockPayload_def heap_sizes)
  have "page_blocks ?h' pg (xs @ taken b sz n @ ys)"
    unfolding tk page_blocks_def using put t2 hi by simp
  moreover have "coalesced (xs @ taken b sz n @ ys)"
    using c by (auto simp: coalesced_append coalesced_Cons taken_def coalesced_def [of "[]"])
  moreover have "outside_same ?lo ?hi h ?h'"
    using outside_trans [OF h1(4) outside_put] tiled_member [OF t1] by auto
  moreover have "book_kept h ?h'" "bytesAllocated ?h' = bytesAllocated h + m"
    using h1(3) put by (simp_all add: book_kept_def only_blocks_def put_header_def)
  ultimately show ?thesis
    using run by (auto simp: m_def)
qed

lemma is_free_lseg:
  "lseg (blocks h) p a bs 0 \<Longrightarrow>
   is_free a h = Some (case bs of [] \<Rightarrow> False | x # _ \<Rightarrow> \<not> in_use x)"
  by (cases bs) (auto simp: is_free_def)

text \<open>The first step of \<^verbatim>\<open>kfree\<close> after the flag is cleared: the next block is merged when it is free.\<close>

lemma free_next_page:
  assumes l: "lseg (blocks h) p a (xs @ (b, sz, False) # ys) 0" and t: "tiled lo hi (xs @ (b, sz, False) # ys)"
    and hi: "hi \<le> 2 ^ 24" and c: "coalesced ys" and x: "blocks h b = Some x"
  shows "\<exists>nf h' sz' ys'. is_free (b_next x) h = Some nf \<and>
    (if nf then merge_next b (b_next x) h else Some h) = Some h' \<and>
    lseg (blocks h') p a (xs @ (b, sz', False) # ys') 0 \<and> tiled lo hi (xs @ (b, sz', False) # ys') \<and>
    coalesced ((b, sz', False) # ys') \<and> handed_out ys' = handed_out ys \<and> only_blocks h h' \<and> outside_same lo hi h h'"
proof -
  obtain y where y: "b_next x = y" "lseg (blocks h) b y ys 0"
    using l x by (auto simp: lseg_append)
  note nf = is_free_lseg [OF y(2)]
  show ?thesis
  proof (cases "ys = [] \<or> in_use (hd ys)")
    case True
    then have "is_free y h = Some False"
      using nf by (cases ys) auto
    moreover have "coalesced ((b, sz, False) # ys)"
      using True c by (simp add: coalesced_Cons)
    ultimately show ?thesis
      using l t y(1) by (intro exI [of _ False] exI [of _ h] exI [of _ sz] exI [of _ ys])
        (simp add: only_blocks_def outside_same_def)
  next
    case False
    then obtain d sd zs where ys: "ys = (d, sd, False) # zs"
      by (cases ys) auto
    then have free: "is_free y h = Some True" and yd: "y = d"
      using nf y(2) by auto
    obtain h' where h': "merge_next b d h = Some h'" "lseg (blocks h') p a (xs @ (b, sz + (16 + sd), False) # zs) 0"
      "only_blocks h h'" "outside_same lo hi h h'"
      using merge_lseg [OF l [unfolded ys] t [unfolded ys]] by blast
    have "coalesced ((b, sz + (16 + sd), False) # zs)"
      using c by (auto simp: ys coalesced_Cons)
    then show ?thesis
      using free yd y(1) h' merge_tiled [OF t [unfolded ys] hi, of False]
      by (intro exI [of _ True] exI [of _ h'] exI [of _ "sz + (16 + sd)"] exI [of _ zs]) (simp add: ys)
  qed
qed

lemma free_prev_page:
  assumes l: "lseg (blocks h) 0 a (xs @ (b, sz, False) # ys) 0" and t: "tiled lo hi (xs @ (b, sz, False) # ys)"
    and hi: "hi \<le> 2 ^ 24" and c: "coalesced xs" "coalesced ((b, sz, False) # ys)" and x: "blocks h b = Some x"
  shows "\<exists>pf h' bs'. is_free (b_prev x) h = Some pf \<and>
    (if pf then merge_next (b_prev x) b h else Some h) = Some h' \<and>
    lseg (blocks h') 0 a bs' 0 \<and> tiled lo hi bs' \<and> coalesced bs' \<and>
    handed_out bs' = handed_out xs @ handed_out ys \<and> only_blocks h h' \<and> outside_same lo hi h h'"
proof -
  have prev: "b_prev x = lastb 0 xs"
    using l x by (auto simp: lseg_append)
  show ?thesis
  proof (cases "xs = [] \<or> in_use (last xs)")
    case True
    have "is_free (lastb 0 xs) h = Some False"
    proof (cases xs rule: rev_cases)
      case (snoc ws d)
      then obtain e se u where d: "d = (e, se, u)" "u"
        using True by (cases d) auto
      have "is_free e h = Some (\<not> u)"
        using l unfolding snoc d by (auto simp: lseg_append is_free_def)
      then show ?thesis
        using snoc d by simp
    qed (simp add: is_free_def)
    moreover have "coalesced (xs @ (b, sz, False) # ys)"
      using True c by (auto simp: coalesced_append)
    ultimately show ?thesis
      using l t prev by (intro exI [of _ False] exI [of _ h] exI [of _ "xs @ (b, sz, False) # ys"])
        (simp add: only_blocks_def outside_same_def)
  next
    case False
    then obtain ws d where ws: "xs = ws @ [d]"
      by (metis rev_exhaust)
    obtain e se u where d: "d = (e, se, u)"
      by (cases d)
    have u: "\<not> u"
      using False ws d by simp
    have bs: "xs @ (b, sz, False) # ys = ws @ (e, se, False) # (b, sz, False) # ys"
      using ws d u by simp
    obtain h' where h': "merge_next e b h = Some h'" "lseg (blocks h') 0 a (ws @ (e, se + (16 + sz), False) # ys) 0"
      "only_blocks h h'" "outside_same lo hi h h'"
      using merge_lseg [OF l [unfolded bs] t [unfolded bs]] by blast
    have free: "is_free e h = Some True"
      using l unfolding bs by (auto simp: lseg_append is_free_def)
    have last: "lastb 0 xs = e"
      using ws d by simp
    have "coalesced (ws @ (e, se + (16 + sz), False) # ys)"
      using c u by (auto simp: ws d coalesced_append coalesced_Cons)
    then show ?thesis
      using free h' prev last merge_tiled [OF t [unfolded bs] hi, of False] u
      by (intro exI [of _ True] exI [of _ h'] exI [of _ "ws @ (e, se + (16 + sz), False) # ys"]) (simp add: ws d)
  qed
qed

lemma book_kept_trans: "book_kept h h1 \<Longrightarrow> only_blocks h1 h2 \<Longrightarrow> book_kept h h2"
  by (simp add: book_kept_def only_blocks_def)

lemma kfree_page:
  assumes pg: "page_blocks h pg (xs @ (b, sz, True) # ys)" and c: "coalesced (xs @ (b, sz, True) # ys)"
  shows "\<exists>h' bs'. kfree (b + 16) h = Some h' \<and> page_blocks h' pg bs' \<and> coalesced bs' \<and>
    handed_out bs' = handed_out xs @ handed_out ys \<and> book_kept h h' \<and>
    outside_same (unat pg + 8) (unat pg + 4096) h h' \<and> bytesAllocated h' = bytesAllocated h - sz"
proof -
  let ?lo = "unat pg + 8" and ?hi = "unat pg + 4096"
  have l: "lseg (blocks h) 0 (pg + 8) (xs @ (b, sz, True) # ys) 0" and t: "tiled ?lo ?hi (xs @ (b, sz, True) # ys)"
    and hi: "?hi \<le> 2 ^ 24"
    using pg by (simp_all add: page_blocks_def)
  have cs: "coalesced xs" "coalesced ys"
    using c by (simp_all add: coalesced_append coalesced_Cons)
  obtain y where x: "blocks h b = Some \<lparr>b_size = sz, b_used = True, b_next = y, b_prev = lastb 0 xs\<rparr>"
    using l by (rule lseg_head)
  let ?x = "\<lparr>b_size = sz, b_used = False, b_next = y, b_prev = lastb 0 xs\<rparr>"
  define h1 where "h1 = (put_header b ?x h)\<lparr>bytesAllocated := bytesAllocated h - sz\<rparr>"
  have l1: "lseg (blocks h1) 0 (pg + 8) (xs @ (b, sz, False) # ys) 0"
    using put_used_lseg [OF l tiled_distinct [OF t] x, of False] by (simp add: h1_def)
  have t1: "tiled ?lo ?hi (xs @ (b, sz, False) # ys)"
    using t by (simp add: tiled_append)
  have x1: "blocks h1 b = Some ?x"
    by (simp add: h1_def)
  have start: "book_kept h h1" "outside_same ?lo ?hi h h1" "bytesAllocated h1 = bytesAllocated h - sz"
    using tiled_member [OF t] by (auto simp: h1_def book_kept_def put_header_def outside_same_def)
  obtain nf h2 sz2 ys2 where s2: "is_free (b_next ?x) h1 = Some nf" "(if nf then merge_next b (b_next ?x) h1 else Some h1) = Some h2"
    "lseg (blocks h2) 0 (pg + 8) (xs @ (b, sz2, False) # ys2) 0" "tiled ?lo ?hi (xs @ (b, sz2, False) # ys2)"
    "coalesced ((b, sz2, False) # ys2)" "handed_out ys2 = handed_out ys" "only_blocks h1 h2" "outside_same ?lo ?hi h1 h2"
    using free_next_page [OF l1 t1 hi cs(2) x1] by blast
  obtain x2 where x2: "blocks h2 b = Some x2"
    using s2(3) by (rule lseg_head)
  obtain pf h3 bs' where s3: "is_free (b_prev x2) h2 = Some pf"
    "(if pf then merge_next (b_prev x2) b h2 else Some h2) = Some h3"
    "lseg (blocks h3) 0 (pg + 8) bs' 0" "tiled ?lo ?hi bs'" "coalesced bs'"
    "handed_out bs' = handed_out xs @ handed_out ys2" "only_blocks h2 h3" "outside_same ?lo ?hi h2 h3"
    using free_prev_page [OF s2(3,4) hi cs(1) s2(5) x2] by blast
  have b0: "b + 16 \<noteq> 0"
    using split_address [OF t hi, of 0] by (auto simp: unat_eq_zero)
  have "kfree (b + 16) h = Some h3"
    using b0 x s2(1,2) x2 s3(1,2)
    by (cases nf; cases pf) (simp_all add: kfree_def payloadToBlock_def heap_sizes Let_def h1_def [symmetric])
  then show ?thesis
    using s3 s2(6) hi start book_kept_trans [OF book_kept_trans [OF start(1) s2(7)] s3(7)]
      outside_trans [OF outside_trans [OF start(2) s2(8)] s3(8)] s2(7)
    by (intro exI [of _ h3] exI [of _ bs']) (auto simp: page_blocks_def only_blocks_def)
qed

lemma kfree_idle: "blocks h (p - 16) = Some x \<Longrightarrow> \<not> b_used x \<Longrightarrow> kfree p h = Some h"
  by (simp add: kfree_def payloadToBlock_def heap_sizes)

section \<open>The whole heap\<close>

type_synonym heap_view = "(u32 \<times> block list) list"

fun seg_chain :: "(u32 \<rightharpoonup> Segment) \<Rightarrow> u32 \<Rightarrow> heap_view \<Rightarrow> bool" where
  "seg_chain m s [] \<longleftrightarrow> s = 0"
| "seg_chain m s ((pg, bs) # ss) \<longleftrightarrow>
     s = pg \<and> pg \<noteq> 0 \<and> (\<exists>n. m pg = Some \<lparr>s_next = n, firstBlock = pg + 8\<rparr> \<and> seg_chain m n ss)"

definition page_ok :: "heap \<Rightarrow> u32 \<times> block list \<Rightarrow> bool" where
  "page_ok h x \<longleftrightarrow> page_blocks h (fst x) (snd x) \<and> coalesced (snd x) \<and> unat (fst x) mod 4096 = 0"

definition heap_shape :: "heap \<Rightarrow> heap_view \<Rightarrow> bool" where
  "heap_shape h ss \<longleftrightarrow>
     seg_chain (segs h) (segments h) ss \<and> distinct (map fst ss) \<and> (\<forall>x \<in> set ss. page_ok h x) \<and>
     dom (segs h) = fst ` set ss \<and> frames_ok (pages h) \<and> fst ` set ss \<subseteq> live_pages (pages h)"

definition out :: "heap_view \<Rightarrow> (u32 \<times> u32) list" where
  "out ss = concat (map (\<lambda>x. handed_out (snd x)) ss)"

definition heap_ok :: "heap \<Rightarrow> heap_view \<Rightarrow> bool" where
  "heap_ok h ss \<longleftrightarrow> heap_shape h ss \<and> bytesAllocated h = sum_list (map snd (out ss))"

lemma out_simps [simp]: "out [] = []" "out (x # ss) = handed_out (snd x) @ out ss" "out (xs @ ys) = out xs @ out ys"
  by (simp_all add: out_def)

lemma seg_chain_keys: "seg_chain m s (s1 @ (pg, bs) # s2) = seg_chain m s (s1 @ (pg, bs') # s2)"
proof (induction s1 arbitrary: s)
  case (Cons x s1)
  then show ?case
    by (cases x) simp
qed simp

lemma page_apart:
  assumes "unat p mod 4096 = 0" "unat q mod 4096 = 0" "p \<noteq> (q :: u32)"
  shows "unat p + 4096 \<le> unat q \<or> unat q + 4096 \<le> unat p"
proof -
  obtain i j where "unat p = 4096 * i" "unat q = 4096 * j"
    using assms(1,2) by (metis mod_0_imp_dvd dvdE)
  moreover have "unat p \<noteq> unat q"
    using assms(3) by (simp add: word_unat_eq_iff)
  ultimately show ?thesis
    by (cases "i < j") auto
qed

lemma page_ok_other:
  assumes ok: "page_ok h (q, cs)" and out: "outside_same (unat pg + 8) (unat pg + 4096) h h'"
    and pg: "unat pg mod 4096 = 0" "q \<noteq> pg"
  shows "page_ok h' (q, cs)"
proof -
  have t: "tiled (unat q + 8) (unat q + 4096) cs"
    using ok by (simp add: page_ok_def page_blocks_def)
  have ap: "unat q + 4096 \<le> unat pg \<or> unat pg + 4096 \<le> unat q"
    using page_apart [of q pg] ok pg by (simp add: page_ok_def)
  have "blocks h' b = blocks h b" if "b \<in> fst ` set cs" for b
    using tiled_addresses [OF t that] ap out by (auto simp: outside_same_def)
  then have "lseg (blocks h') 0 (q + 8) cs 0 = lseg (blocks h) 0 (q + 8) cs 0"
    by (rule lseg_cong)
  then show ?thesis
    using ok by (simp add: page_ok_def page_blocks_def)
qed

lemma heap_shape_page:
  assumes sh: "heap_shape h (s1 @ (pg, bs) # s2)" and kept: "book_kept h h'"
    and out: "outside_same (unat pg + 8) (unat pg + 4096) h h'" and new: "page_blocks h' pg bs'" "coalesced bs'"
  shows "heap_shape h' (s1 @ (pg, bs') # s2)"
proof -
  have pg: "unat pg mod 4096 = 0"
    using sh by (simp add: heap_shape_def page_ok_def)
  have others: "page_ok h' x" if "x \<in> set s1 \<union> set s2" for x
  proof -
    obtain q cs where x: "x = (q, cs)"
      by (cases x)
    have "q \<in> fst ` (set s1 \<union> set s2)"
      using that x by force
    then have "q \<noteq> pg"
      using sh by (auto simp: heap_shape_def)
    moreover have "page_ok h x"
      using that sh by (auto simp: heap_shape_def)
    ultimately show ?thesis
      using page_ok_other [OF _ out pg] x by blast
  qed
  have here: "page_ok h' (pg, bs')"
    using new pg by (simp add: page_ok_def)
  have "seg_chain (segs h') (segments h') (s1 @ (pg, bs') # s2)"
    using sh kept seg_chain_keys [of _ _ s1 pg bs s2 bs'] by (simp add: heap_shape_def book_kept_def)
  then show ?thesis
    using sh kept others here by (auto simp: heap_shape_def book_kept_def)
qed

text \<open>\<^verbatim>\<open>findFreeBlock\<close> is first fit over the segments in list order.\<close>

definition fits :: "u32 \<Rightarrow> block \<Rightarrow> bool" where
  "fits n x \<longleftrightarrow> (case x of (b, sz, u) \<Rightarrow> \<not> u \<and> n \<le> sz)"

lemma find_page:
  assumes l: "lseg (blocks h) 0 a bs 0"
  shows "(find_block h n a = Some 0 \<and> (\<forall>x \<in> set bs. \<not> fits n x)) \<or>
    (\<exists>xs b sz ys. bs = xs @ (b, sz, False) # ys \<and> n \<le> sz \<and> b \<noteq> 0 \<and> find_block h n a = Some b)"
proof -
  have fits: "(\<lambda>(b, sz, u). \<not> u \<and> n \<le> sz) = fits n"
    by (auto simp: fits_def fun_eq_iff)
  note find = find_block_list [OF l, of n, unfolded fits]
  show ?thesis
  proof (cases "find (fits n) bs")
    case None
    then have "\<forall>x \<in> set bs. \<not> fits n x"
      by (simp only: find_None_iff) blast
    moreover have "find_block h n a = Some 0"
      using find None by simp
    ultimately show ?thesis
      by simp
  next
    case (Some x)
    obtain b sz u where x: "x = (b, sz, u)"
      by (cases x)
    have f: "fits n x" and "x \<in> set bs"
      using Some by (auto simp: find_Some_iff)
    then obtain xs ys where "bs = xs @ x # ys"
      by (auto dest: split_list)
    moreover have "\<not> u" "n \<le> sz"
      using f x by (simp_all add: fits_def)
    ultimately have bs: "bs = xs @ (b, sz, False) # ys"
      using x by simp
    have "b \<noteq> 0"
      using l unfolding bs by (rule lseg_head)
    then show ?thesis
      using bs find Some x \<open>n \<le> sz\<close> by auto
  qed
qed

lemma find_segment_list:
  "seg_chain (segs h) s ss \<Longrightarrow> (\<forall>x \<in> set ss. lseg (blocks h) 0 (fst x + 8) (snd x) 0) \<Longrightarrow>
   (find_segment h n s = Some 0 \<and> (\<forall>x \<in> set ss. \<forall>y \<in> set (snd x). \<not> fits n y)) \<or>
   (\<exists>s1 pg xs b sz ys s2. ss = s1 @ (pg, xs @ (b, sz, False) # ys) # s2 \<and> n \<le> sz \<and> b \<noteq> 0 \<and>
      find_segment h n s = Some b)"
proof (induction ss arbitrary: s)
  case Nil
  then show ?case
    by (simp add: find_segment.simps)
next
  case (Cons x ss)
  obtain pg bs where x: "x = (pg, bs)"
    by (cases x)
  obtain nx where s: "s = pg" "pg \<noteq> 0" "segs h pg = Some \<lparr>s_next = nx, firstBlock = pg + 8\<rparr>" "seg_chain (segs h) nx ss"
    using Cons.prems(1) x by auto
  have l: "lseg (blocks h) 0 (pg + 8) bs 0"
    using Cons.prems(2) x by simp
  note IH = Cons.IH [OF s(4)]
  from find_page [OF l, of n] show ?case
  proof (elim disjE exE conjE)
    assume none: "find_block h n (pg + 8) = Some 0" "\<forall>y \<in> set bs. \<not> fits n y"
    then have step: "find_segment h n s = find_segment h n nx"
      using s by (subst find_segment.simps) simp
    from IH have "(find_segment h n nx = Some 0 \<and> (\<forall>x \<in> set ss. \<forall>y \<in> set (snd x). \<not> fits n y)) \<or>
      (\<exists>s1 pg xs b sz ys s2. ss = s1 @ (pg, xs @ (b, sz, False) # ys) # s2 \<and> n \<le> sz \<and> b \<noteq> 0 \<and>
        find_segment h n nx = Some b)"
      using Cons.prems(2) by simp
    then show ?case
    proof (elim disjE exE conjE)
      fix s1 q xs b sz ys s2
      assume "ss = s1 @ (q, xs @ (b, sz, False) # ys) # s2" "n \<le> sz" "b \<noteq> 0" "find_segment h n nx = Some b"
      then have "x # ss = (x # s1) @ (q, xs @ (b, sz, False) # ys) # s2 \<and> n \<le> sz \<and> b \<noteq> 0 \<and> find_segment h n s = Some b"
        using step by simp
      then show ?thesis
        by blast
    qed (use none step x in simp)
  next
    fix xs b sz ys
    assume f: "bs = xs @ (b, sz, False) # ys" "n \<le> sz" "b \<noteq> 0" "find_block h n (pg + 8) = Some b"
    then have "find_segment h n s = Some b"
      using s by (subst find_segment.simps) simp
    then have "x # ss = [] @ (pg, xs @ (b, sz, False) # ys) # ss \<and> n \<le> sz \<and> b \<noteq> 0 \<and> find_segment h n s = Some b"
      using f x by simp
    then show ?case
      by blast
  qed
qed

lemma find_free:
  assumes "heap_shape h ss"
  shows "(findFreeBlock h n = Some 0 \<and> (\<forall>x \<in> set ss. \<forall>y \<in> set (snd x). \<not> fits n y)) \<or>
   (\<exists>s1 pg xs b sz ys s2. ss = s1 @ (pg, xs @ (b, sz, False) # ys) # s2 \<and> n \<le> sz \<and> b \<noteq> 0 \<and>
      findFreeBlock h n = Some b)"
  unfolding findFreeBlock_def
  using assms by (intro find_segment_list) (auto simp: heap_shape_def page_ok_def page_blocks_def)

lemma seg_chain_cong: "(\<And>k. k \<in> fst ` set ss \<Longrightarrow> m' k = m k) \<Longrightarrow> seg_chain m' s ss = seg_chain m s ss"
  by (induction m s ss rule: seg_chain.induct) auto

lemma heap_pages_aligned:
  assumes "heap_shape h ss" "(pg, bs) \<in> set ss"
  shows "page_ok h (pg, bs)" "page_blocks h pg bs" "coalesced bs" "unat pg mod 4096 = 0"
  using assms by (auto simp: heap_shape_def page_ok_def)

lemma fresh_page_blocks:
  assumes "unat pg + 4096 \<le> 2 ^ 24"
    and "blocks h (pg + 8) = Some \<lparr>b_size = 4072, b_used = False, b_next = 0, b_prev = 0\<rparr>"
  shows "page_blocks h pg [(pg + 8, 4072, False)]"
proof -
  have "unat (pg + 8) = unat pg + 8"
    using unat_plus [of pg 8] assms(1) by simp
  moreover from this have "pg + 8 \<noteq> 0"
    by auto
  ultimately show ?thesis
    using assms by (simp add: page_blocks_def)
qed

lemma page_multiple: "a mod 4096 = 0 \<Longrightarrow> unat (a :: u32) mod 4096 = 0"
  by (metis unat_mod_distrib unat_numeral_4096 unsigned_0)

lemma grow_ok:
  assumes sh: "heap_shape h ss"
  obtains (exhausted) "growHeap h = (False, h)" "used_set (pages h) = {..<4096}"
  | (grown) pg h' where "growHeap h = (True, h')" "heap_shape h' ((pg, [(pg + 8, 4072, False)]) # ss)"
      "bytesAllocated h' = bytesAllocated h" "pg \<notin> live_pages (pages h)"
      "live_pages (pages h') = insert pg (live_pages (pages h))"
proof -
  obtain pg f where al: "memory_alloc_page (pages h) = (pg, f)"
    by (cases "memory_alloc_page (pages h)")
  have ok: "frames_ok (pages h)"
    using sh by (simp add: heap_shape_def)
  show ?thesis
  proof (cases "pg = 0")
    case True
    then show ?thesis
      using exhausted al memory_alloc_page_exhausted [OF ok] by (simp add: growHeap_def)
  next
    case False
    note live = alloc_live [OF ok al False]
    define h' where "h' = snd (growHeap h)"
    have grow: "growHeap h = (True, h')"
      using al False by (simp add: h'_def growHeap_def Let_def)
    have h': "blocks h' = (blocks h)(pg + 8 \<mapsto> \<lparr>b_size = 4072, b_used = False, b_next = 0, b_prev = 0\<rparr>)"
      "segs h' = (segs h)(pg \<mapsto> \<lparr>s_next = segments h, firstBlock = pg + 8\<rparr>)" "segments h' = pg"
      "pages h' = f" "bytesAllocated h' = bytesAllocated h"
      using al False by (simp_all add: h'_def growHeap_def Let_def put_header_def heap_sizes)
    have al8: "unat (pg + 8) = unat pg + 8"
      using unat_plus [of pg 8] live(7) by simp
    have pg: "unat pg mod 4096 = 0"
      using live(4) by (rule page_multiple)
    have new: "pg \<notin> fst ` set ss"
      using sh live(2) by (auto simp: heap_shape_def)
    have same: "outside_same (unat pg + 8) (unat pg + 4096) h h'"
      using al8 by (auto simp: outside_same_def h'(1))
    have old: "page_ok h' x" if "x \<in> set ss" for x
    proof -
      obtain q cs where x: "x = (q, cs)"
        by (cases x)
      have "q \<noteq> pg"
        using new that x by force
      then show ?thesis
        using page_ok_other [OF heap_pages_aligned(1) [OF sh, of q cs] same pg] that x by simp
    qed
    have chain: "seg_chain (segs h') s ss = seg_chain (segs h) s ss" for s
      by (rule seg_chain_cong) (use new h'(2) in auto)
    have "page_ok h' (pg, [(pg + 8, 4072, False)])"
      using fresh_page_blocks [of pg h'] live(7) pg h'(1) by (simp add: page_ok_def coalesced_def)
    moreover have "seg_chain (segs h') (segments h') ((pg, [(pg + 8, 4072, False)]) # ss)"
      using sh False h'(2,3) chain by (simp add: heap_shape_def)
    ultimately have "heap_shape h' ((pg, [(pg + 8, 4072, False)]) # ss)"
      using sh old new live(1,3) h' by (auto simp: heap_shape_def)
    then show ?thesis
      using grown [OF grow] h'(4,5) live(2,3) by simp
  qed
qed

lemma unat_alignUp:
  assumes "unat n \<le> 2 ^ 32 - 8"
  shows "unat (alignUp n) = (unat n + 7) div 8 * 8"
proof -
  have "alignUp n = (n + 7) AND NOT (mask 3)"
    by (simp add: alignUp_def heap_sizes mask_eq_exp_minus_1)
  also have "\<dots> = push_bit 3 (drop_bit 3 (n + 7))"
    by (rule bit_word_eqI) (auto simp: bit_simps)
  finally have "alignUp n = push_bit 3 (drop_bit 3 (n + 7))" .
  then have "unat (alignUp n) = unat (drop_bit 3 (n + 7)) * 8 mod 2 ^ 32"
    by (simp add: push_bit_eq_mult unat_word_ariths)
  also have "unat (n + 7) = unat n + 7"
    using unat_plus [of n 7] assms by simp
  then have "unat (drop_bit 3 (n + 7)) = (unat n + 7) div 8"
    by (simp add: drop_bit_eq_div unat_div_distrib)
  also have "(unat n + 7) div 8 * 8 mod 2 ^ 32 = (unat n + 7) div 8 * 8"
    using assms by simp
  finally show ?thesis .
qed

lemma alignUp_facts:
  assumes "unat n \<le> 2 ^ 32 - 8" "n \<noteq> 0"
  shows "8 dvd unat (alignUp n)" "n \<le> alignUp n" "0 < unat (alignUp n)" "unat n \<le> 4072 \<longleftrightarrow> alignUp n \<le> 4072"
proof -
  note al = unat_alignUp [OF assms(1)]
  show "8 dvd unat (alignUp n)"
    by (simp add: al)
  show le: "n \<le> alignUp n"
    unfolding word_le_nat_alt al by simp
  have "0 < unat n"
    using assms(2) by (simp add: unat_gt_0)
  then show "0 < unat (alignUp n)"
    using le by (simp add: word_le_nat_alt)
  show "unat n \<le> 4072 \<longleftrightarrow> alignUp n \<le> 4072"
    unfolding word_le_nat_alt al by simp linarith
qed

section \<open>\<^verbatim>\<open>kmalloc\<close> and \<^verbatim>\<open>kfree\<close>\<close>

definition keeps_pages :: "heap \<Rightarrow> heap \<Rightarrow> bool" where
  "keeps_pages h h' \<longleftrightarrow> dom (segs h) \<subseteq> dom (segs h')"

lemma take_ok:
  assumes ok: "heap_ok h (s1 @ (pg, xs @ (b, sz, False) # ys) # s2)" and n: "n \<le> sz" "0 < unat n" "8 dvd unat n"
  shows "\<exists>h' ss' o1 o2 m. take_block b n h = Some (b + 16, h') \<and> heap_ok h' ss' \<and> n \<le> m \<and> b + 16 \<noteq> 0 \<and>
    out (s1 @ (pg, xs @ (b, sz, False) # ys) # s2) = o1 @ o2 \<and> out ss' = o1 @ (b + 16, m) # o2"
proof -
  let ?ss = "s1 @ (pg, xs @ (b, sz, False) # ys) # s2"
  have sh: "heap_shape h ?ss" and bytes: "bytesAllocated h = sum_list (map snd (out ?ss))"
    using ok by (simp_all add: heap_ok_def)
  have "(pg, xs @ (b, sz, False) # ys) \<in> set ?ss"
    by simp
  note pg = heap_pages_aligned [OF sh this]
  define m where "m = (if sz - n < 24 then sz else n)"
  let ?ss' = "s1 @ (pg, xs @ taken b sz n @ ys) # s2"
  obtain h' where h': "take_block b n h = Some (b + 16, h')" "page_blocks h' pg (xs @ taken b sz n @ ys)"
    "coalesced (xs @ taken b sz n @ ys)" "book_kept h h'" "outside_same (unat pg + 8) (unat pg + 4096) h h'"
    "bytesAllocated h' = bytesAllocated h + m"
    using take_block_page [OF pg(2,3) n] unfolding m_def by blast
  have "heap_shape h' ?ss'"
    by (rule heap_shape_page [OF sh h'(4,5,2,3)])
  moreover have o: "out ?ss = (out s1 @ handed_out xs) @ (handed_out ys @ out s2)"
    "out ?ss' = (out s1 @ handed_out xs) @ (b + 16, m) # (handed_out ys @ out s2)"
    by (simp_all add: taken_facts(1) m_def)
  moreover have "bytesAllocated h' = sum_list (map snd (out ?ss'))"
    unfolding h'(6) bytes o by (simp add: algebra_simps)
  ultimately have "heap_ok h' ?ss'"
    by (simp only: heap_ok_def)
  moreover have "b + 16 \<noteq> 0"
  proof -
    have t: "tiled (unat pg + 8) (unat pg + 4096) (xs @ (b, sz, False) # ys)" and hi: "unat pg + 4096 \<le> 2 ^ 24"
      using pg(2) by (simp_all add: page_blocks_def)
    show ?thesis
      using split_address [OF t hi, of 0] by (auto simp: unat_eq_zero)
  qed
  moreover have "n \<le> m"
    using n(1) by (simp add: m_def)
  ultimately show ?thesis
    using h'(1) o by blast
qed

lemma fresh_fits: "(\<forall>y \<in> set [(pg + 8, 4072, False)]. \<not> fits n y) \<longleftrightarrow> \<not> n \<le> 4072"
  by (simp add: fits_def)

definition malloc_result :: "u32 \<Rightarrow> heap \<Rightarrow> heap_view \<Rightarrow> u32 \<Rightarrow> heap \<Rightarrow> heap_view \<Rightarrow> bool" where
  "malloc_result n h ss p h' ss' \<longleftrightarrow> heap_ok h' ss' \<and>
     (if p = 0 then out ss' = out ss \<and> (n = 0 \<or> 4072 < unat n \<or> used_set (pages h) = {..<4096})
      else \<exists>o1 o2 m. n \<le> m \<and> out ss = o1 @ o2 \<and> out ss' = o1 @ (p, m) # o2)"

lemma take_result:
  assumes ok: "heap_ok h (s1 @ (pg, xs @ (b, sz, False) # ys) # s2)" and a: "alignUp n \<le> sz"
    and n: "unat n \<le> 2 ^ 32 - 8" "n \<noteq> 0" and out: "out ss = out (s1 @ (pg, xs @ (b, sz, False) # ys) # s2)"
  shows "\<exists>h' ss'. take_block b (alignUp n) h = Some (b + 16, h') \<and> malloc_result n h0 ss (b + 16) h' ss'"
proof -
  note al = alignUp_facts [OF n]
  obtain h' ss' o1 o2 m where h': "take_block b (alignUp n) h = Some (b + 16, h')" "heap_ok h' ss'" "alignUp n \<le> m"
    "b + 16 \<noteq> 0" "out ss = o1 @ o2" "out ss' = o1 @ (b + 16, m) # o2"
    using take_ok [OF ok a al(3,1)] unfolding out by blast
  have "n \<le> m"
    using al(2) h'(3) by (rule order_trans)
  then have "malloc_result n h0 ss (b + 16) h' ss'"
    unfolding malloc_result_def if_not_P [OF h'(4)] using h'(2,5,6) by blast
  then show ?thesis
    using h'(1) by blast
qed

lemma kmalloc_ok:
  assumes ok: "heap_ok h ss" and n: "unat n \<le> 2 ^ 32 - 8"
  shows "\<exists>p h' ss'. kmalloc n h = Some (p, h') \<and> malloc_result n h ss p h' ss'"
proof (cases "n = 0")
  case True
  then show ?thesis
    using ok by (auto simp: kmalloc_def malloc_result_def)
next
  case False
  have sh: "heap_shape h ss"
    using ok by (simp add: heap_ok_def)
  from find_free [OF sh, of "alignUp n"] show ?thesis
  proof (elim disjE exE conjE)
    fix s1 pg xs b sz ys s2
    assume f: "ss = s1 @ (pg, xs @ (b, sz, False) # ys) # s2" "alignUp n \<le> sz" "b \<noteq> 0" "findFreeBlock h (alignUp n) = Some b"
    then have "kmalloc n h = take_block b (alignUp n) h"
      using False by (simp add: kmalloc_def Let_def)
    then show ?thesis
      using take_result [OF ok [unfolded f(1)] f(2) n False, of ss h] f(1) by auto
  next
    assume none: "findFreeBlock h (alignUp n) = Some 0" "\<forall>x \<in> set ss. \<forall>y \<in> set (snd x). \<not> fits (alignUp n) y"
    from sh show ?thesis
    proof (cases rule: grow_ok)
      case exhausted
      then show ?thesis
        using False none(1) ok by (auto simp: kmalloc_def Let_def malloc_result_def)
    next
      case (grown pg h1)
      let ?ss = "(pg, [(pg + 8, 4072, False)]) # ss"
      have ok1: "heap_ok h1 ?ss" and out1: "out ss = out ?ss"
        using ok grown(2,3) by (simp_all add: heap_ok_def)
      from find_free [OF grown(2), of "alignUp n"] show ?thesis
      proof (elim disjE exE conjE)
        fix s1 q xs b sz ys s2
        assume f: "?ss = s1 @ (q, xs @ (b, sz, False) # ys) # s2" "alignUp n \<le> sz" "b \<noteq> 0" "findFreeBlock h1 (alignUp n) = Some b"
        then have "kmalloc n h = take_block b (alignUp n) h1"
          using False none(1) grown(1) by (simp add: kmalloc_def Let_def)
        then show ?thesis
          using take_result [OF ok1 [unfolded f(1)] f(2) n False, of ss h] f(1) out1 by auto
      next
        assume none1: "findFreeBlock h1 (alignUp n) = Some 0" "\<forall>x \<in> set ?ss. \<forall>y \<in> set (snd x). \<not> fits (alignUp n) y"
        then have "4072 < unat n"
          using alignUp_facts(4) [OF n False] by (auto simp: fits_def not_le)
        moreover have "kmalloc n h = Some (0, h1)"
          using False none(1) none1(1) grown(1) by (simp add: kmalloc_def Let_def)
        ultimately show ?thesis
          using ok1 out1 by (auto simp: malloc_result_def)
      qed
    qed
  qed
qed

lemma handed_out_split:
  assumes "(p, sz) \<in> set (handed_out bs)"
  obtains xs ys b where "bs = xs @ (b, sz, True) # ys" "p = b + 16"
proof -
  obtain b where "(b, sz, True) \<in> set bs" "p = b + 16"
    using assms by (auto simp: handed_out_def)
  then show thesis
    using that by (metis split_list)
qed

lemma out_split:
  assumes "(p, sz) \<in> set (out ss)"
  obtains s1 pg xs ys b s2 where "ss = s1 @ (pg, xs @ (b, sz, True) # ys) # s2" "p = b + 16"
proof -
  obtain pg bs where x: "(pg, bs) \<in> set ss" "(p, sz) \<in> set (handed_out bs)"
    using assms by (auto simp: out_def)
  obtain s1 s2 where s: "ss = s1 @ (pg, bs) # s2"
    using x(1) by (metis split_list)
  from x(2) obtain xs ys b where "bs = xs @ (b, sz, True) # ys" "p = b + 16"
    by (rule handed_out_split)
  then show thesis
    using that s by blast
qed

lemma kfree_ok:
  assumes ok: "heap_ok h ss" and p: "(p, sz) \<in> set (out ss)"
  shows "\<exists>h' ss' o1 o2. kfree p h = Some h' \<and> heap_ok h' ss' \<and> out ss = o1 @ (p, sz) # o2 \<and> out ss' = o1 @ o2"
proof -
  obtain s1 pg xs ys b s2 where s: "ss = s1 @ (pg, xs @ (b, sz, True) # ys) # s2" "p = b + 16"
    using p by (rule out_split)
  have sh: "heap_shape h ss" and bytes: "bytesAllocated h = sum_list (map snd (out ss))"
    using ok by (simp_all add: heap_ok_def)
  have "(pg, xs @ (b, sz, True) # ys) \<in> set ss"
    using s(1) by simp
  note pg = heap_pages_aligned [OF sh this]
  obtain h' bs' where h': "kfree p h = Some h'" "page_blocks h' pg bs'" "coalesced bs'"
    "handed_out bs' = handed_out xs @ handed_out ys" "book_kept h h'" "outside_same (unat pg + 8) (unat pg + 4096) h h'"
    "bytesAllocated h' = bytesAllocated h - sz"
    using kfree_page [OF pg(2,3)] s(2) by blast
  let ?ss' = "s1 @ (pg, bs') # s2"
  have "heap_shape h' ?ss'"
    by (rule heap_shape_page [OF sh [unfolded s(1)] h'(5,6,2,3)])
  moreover have o: "out ss = (out s1 @ handed_out xs) @ (p, sz) # (handed_out ys @ out s2)"
    "out ?ss' = (out s1 @ handed_out xs) @ (handed_out ys @ out s2)"
    by (simp_all add: s h'(4))
  moreover have "bytesAllocated h' = sum_list (map snd (out ?ss'))"
    unfolding h'(7) bytes o by simp
  ultimately show ?thesis
    using h'(1) unfolding heap_ok_def by blast
qed

section \<open>Live allocations\<close>

text \<open>Two allocations are a header apart.\<close>

definition apart :: "u32 \<times> u32 \<Rightarrow> u32 \<times> u32 \<Rightarrow> bool" where
  "apart x y \<longleftrightarrow> unat (fst x) + unat (snd x) + 16 \<le> unat (fst y) \<or> unat (fst y) + unat (snd y) + 16 \<le> unat (fst x)"

lemma tiled_dvd: "tiled lo hi bs \<Longrightarrow> 8 dvd lo \<Longrightarrow> b \<in> fst ` set bs \<Longrightarrow> 8 dvd unat b"
  by (induction lo hi bs rule: tiled.induct) (auto intro: dvd_add)

lemma handed_out_range:
  assumes t: "tiled lo hi bs" and hi: "hi \<le> 2 ^ 24" and p: "(p, sz) \<in> set (handed_out bs)"
  shows "lo + 16 \<le> unat p" "unat p + unat sz \<le> hi" "8 dvd lo \<Longrightarrow> 8 dvd unat p"
proof -
  obtain xs ys b where b: "bs = xs @ (b, sz, True) # ys" "p = b + 16"
    using p by (rule handed_out_split)
  have u: "unat p = unat b + 16"
    using split_address [OF t [unfolded b(1)] hi, of 0] b(2) by simp
  show "lo + 16 \<le> unat p" "unat p + unat sz \<le> hi"
    using tiled_member [OF t [unfolded b(1)]] u by simp_all
  have "b \<in> fst ` set bs"
    by (simp add: b(1))
  then show "8 dvd lo \<Longrightarrow> 8 dvd unat p"
    using tiled_dvd [OF t] u by simp
qed

lemma handed_out_apart: "tiled lo hi bs \<Longrightarrow> hi \<le> 2 ^ 24 \<Longrightarrow> sorted_wrt apart (handed_out bs)"
proof (induction lo hi bs rule: tiled.induct)
  case (2 lo hi b sz u bs)
  have rest: "tiled (lo + 16 + unat sz) hi bs"
    using "2.prems"(1) by simp
  note IH = "2.IH" [OF rest "2.prems"(2)]
  have b: "unat (b + 16) = lo + 16"
    using split_address [of lo hi "[]" b sz u bs 0] "2.prems" by simp
  have "apart (b + 16, sz) y" if "y \<in> set (handed_out bs)" for y
    using handed_out_range(1) [OF rest "2.prems"(2), of "fst y" "snd y"] that b by (simp add: apart_def)
  then show ?case
    using IH by simp
qed simp

lemma page_out_range:
  assumes ok: "page_ok h (pg, bs)" and p: "(p, sz) \<in> set (handed_out bs)"
  shows "unat pg + 24 \<le> unat p" "unat p + unat sz \<le> unat pg + 4096" "8 dvd unat p"
proof -
  have t: "tiled (unat pg + 8) (unat pg + 4096) bs" and hi: "unat pg + 4096 \<le> 2 ^ 24" and m: "unat pg mod 4096 = 0"
    using ok by (simp_all add: page_ok_def page_blocks_def)
  have "4096 dvd unat pg" "(8 :: nat) dvd 4096"
    using m by auto
  then have "8 dvd unat pg"
    by (rule dvd_trans [rotated])
  then show "unat pg + 24 \<le> unat p" "unat p + unat sz \<le> unat pg + 4096" "8 dvd unat p"
    using handed_out_range [OF t hi p] by simp_all
qed

lemma out_range:
  assumes "heap_shape h ss" "(p, sz) \<in> set (out ss)"
  shows "\<exists>pg \<in> dom (segs h). unat pg + 24 \<le> unat p \<and> unat p + unat sz \<le> unat pg + 4096" "8 dvd unat p"
proof -
  obtain pg bs where x: "(pg, bs) \<in> set ss" "(p, sz) \<in> set (handed_out bs)"
    using assms(2) by (auto simp: out_def)
  note r = page_out_range [OF heap_pages_aligned(1) [OF assms(1) x(1)] x(2)]
  have "dom (segs h) = fst ` set ss"
    using assms(1) by (simp add: heap_shape_def)
  then have "pg \<in> dom (segs h)"
    using x(1) by (simp add: rev_image_eqI)
  then show "\<exists>pg \<in> dom (segs h). unat pg + 24 \<le> unat p \<and> unat p + unat sz \<le> unat pg + 4096"
    using r(1,2) by (intro bexI [of _ pg] conjI)
  show "8 dvd unat p"
    by (rule r(3))
qed

lemma out_apart: "\<forall>x \<in> set ss. page_ok h x \<Longrightarrow> distinct (map fst ss) \<Longrightarrow> sorted_wrt apart (out ss)"
proof (induction ss)
  case (Cons x ss)
  obtain pg bs where x: "x = (pg, bs)"
    by (cases x)
  have ok: "page_ok h (pg, bs)"
    using Cons.prems(1) x by simp
  then have "sorted_wrt apart (handed_out bs)"
    using handed_out_apart by (auto simp: page_ok_def page_blocks_def)
  moreover have "apart y z" if y: "y \<in> set (handed_out bs)" and z: "z \<in> set (out ss)" for y z
  proof -
    obtain q cs where q: "(q, cs) \<in> set ss" "z \<in> set (handed_out cs)"
      using z by (auto simp: out_def)
    have okq: "page_ok h (q, cs)"
      using Cons.prems(1) q(1) by simp
    have "q \<noteq> pg"
      using Cons.prems(2) q(1) x by force
    then have "unat q + 4096 \<le> unat pg \<or> unat pg + 4096 \<le> unat q"
      using page_apart [of q pg] ok okq by (simp add: page_ok_def)
    then show ?thesis
      using page_out_range [OF ok, of "fst y" "snd y"] page_out_range [OF okq, of "fst z" "snd z"] y q(2)
      by (auto simp: apart_def)
  qed
  ultimately show ?case
    using Cons x by (auto simp: sorted_wrt_append)
qed simp

lemma apart_distinct: "sorted_wrt apart xs \<Longrightarrow> distinct (map fst xs)"
  by (induction xs) (auto simp: apart_def)

lemma heap_out_apart:
  assumes "heap_ok h ss"
  shows "sorted_wrt apart (out ss)" "distinct (map fst (out ss))"
proof -
  show "sorted_wrt apart (out ss)"
    using assms by (intro out_apart) (auto simp: heap_ok_def heap_shape_def)
  then show "distinct (map fst (out ss))"
    by (rule apart_distinct)
qed

lemma sorted_apart:
  "sorted_wrt apart xs \<Longrightarrow> x \<in> set xs \<Longrightarrow> y \<in> set xs \<Longrightarrow> x \<noteq> y \<Longrightarrow> apart x y"
  by (induction xs) (auto simp: apart_def)

text \<open>With nothing handed out, coalescing has made every page one free block again.\<close>

lemma unused_page:
  assumes ok: "page_ok h (pg, bs)" and none: "handed_out bs = []"
  shows "blocks h (pg + 8) = Some \<lparr>b_size = 4072, b_used = False, b_next = 0, b_prev = 0\<rparr>"
proof -
  have l: "lseg (blocks h) 0 (pg + 8) bs 0" and t: "tiled (unat pg + 8) (unat pg + 4096) bs" and c: "coalesced bs"
    using ok by (simp_all add: page_ok_def page_blocks_def)
  have free: "\<not> in_use x" if "x \<in> set bs" for x
    using none that by (auto simp: handed_out_def filter_empty_conv)
  obtain b sz u bs' where bs: "bs = (b, sz, u) # bs'"
    using t by (cases bs) auto
  have "\<not> in_use (b, sz, u)"
    by (rule free) (simp add: bs)
  moreover have "\<not> in_use (hd bs')" if "bs' \<noteq> []"
    by (rule free) (use that bs in simp)
  ultimately have "bs' = []"
    using c bs coalesced_Cons [of "(b, sz, u)" bs'] by blast
  then have "unat sz = 4072"
    using t bs by simp
  then have "sz = 4072"
    by (simp add: word_unat_eq_iff)
  then show ?thesis
    using l bs \<open>bs' = []\<close> free [of "(b, sz, u)"] by simp
qed

text \<open>A request larger than a page fails, after the heap has taken another page.\<close>

lemma small_blocks:
  assumes sh: "heap_shape h ss" and n: "4072 < unat n" "unat n \<le> 2 ^ 32 - 8"
  shows "findFreeBlock h (alignUp n) = Some 0"
  using find_free [OF sh, of "alignUp n"]
proof (elim disjE exE conjE)
  fix s1 pg xs b sz ys s2
  assume f: "ss = s1 @ (pg, xs @ (b, sz, False) # ys) # s2" "alignUp n \<le> sz"
  have "(pg, xs @ (b, sz, False) # ys) \<in> set ss"
    using f(1) by simp
  then have "tiled (unat pg + 8) (unat pg + 4096) (xs @ (b, sz, False) # ys)"
    using heap_pages_aligned(2) [OF sh] by (simp add: page_blocks_def)
  then have "unat sz \<le> 4072"
    using tiled_member by fastforce
  moreover have "n \<noteq> 0"
    using n(1) by auto
  then have "n \<le> alignUp n"
    using alignUp_facts(2) n(2) by blast
  ultimately show ?thesis
    using n(1) f(2) by (simp add: word_le_nat_alt)
qed

lemma oversized_request:
  assumes ok: "heap_ok h ss" and n: "4072 < unat n" "unat n \<le> 2 ^ 32 - 8" and free: "used_set (pages h) \<noteq> {..<4096}"
  shows "\<exists>pg h'. kmalloc n h = Some (0, h') \<and> pg \<notin> dom (segs h) \<and> dom (segs h') = insert pg (dom (segs h))"
proof -
  have sh: "heap_shape h ss"
    using ok by (simp add: heap_ok_def)
  have n0: "n \<noteq> 0"
    using n(1) by auto
  from sh show ?thesis
  proof (cases rule: grow_ok)
    case exhausted
    then show ?thesis
      using free by simp
  next
    case (grown pg h1)
    have "kmalloc n h = Some (0, h1)"
      using small_blocks [OF sh n] small_blocks [OF grown(2) n] grown(1) n0 by (simp add: kmalloc_def Let_def)
    moreover have "pg \<notin> dom (segs h)" "dom (segs h1) = insert pg (dom (segs h))"
      using sh grown(2,4) unfolding heap_shape_def by auto
    ultimately show ?thesis
      by blast
  qed
qed

text \<open>
  Above \<open>2\<^sup>3\<^sup>2 - 8\<close> the alignment wraps to 0: the request succeeds with a block of no bytes at all.
\<close>

lemma huge_request_gets_nothing:
  assumes h: "segs h = Map.empty" "segments h = 0" "frames_ok (pages h)" "used_set (pages h) \<noteq> {..<4096}"
    "bytesAllocated h = 0"
  shows "\<exists>pg h' x. kmalloc 0xFFFFFFFF h = Some (pg + 24, h') \<and> blocks h' (pg + 8) = Some x \<and> b_used x \<and> b_size x = 0 \<and>
    bytesAllocated h' = 0"
proof -
  have al: "alignUp 0xFFFFFFFF = 0"
    by (simp add: alignUp_def heap_sizes)
  have sh: "heap_shape h []"
    using h by (simp add: heap_shape_def)
  then show ?thesis
  proof (cases rule: grow_ok)
    case exhausted
    then show ?thesis
      using h(4) by simp
  next
    case (grown pg h1)
    let ?fresh = "\<lparr>b_size = 4072, b_used = False, b_next = 0, b_prev = 0\<rparr>"
    have b: "blocks h1 (pg + 8) = Some ?fresh" "pg + 8 \<noteq> 0" and s: "segments h1 = pg" "pg \<noteq> 0"
      "segs h1 pg = Some \<lparr>s_next = 0, firstBlock = pg + 8\<rparr>"
      using grown(2) by (auto simp: heap_shape_def page_ok_def page_blocks_def)
    have "findFreeBlock h 0 = Some 0" "findFreeBlock h1 0 = Some (pg + 8)"
      using h(2) b s by (simp_all add: findFreeBlock_def find_segment.simps find_block.simps)
    then have "kmalloc 0xFFFFFFFF h = take_block (pg + 8) 0 h1"
      using b(2) grown(1) by (simp add: kmalloc_def Let_def al)
    then show ?thesis
      using b(1) grown(3) h(5)
      by (simp add: take_block_def splitIfWorthwhile_def set_prev_def heap_sizes blockPayload_def Let_def put_header_def add.assoc)
  qed
qed

section \<open>The heap in use\<close>

text \<open>
  The states reached while the kernel uses the heap: a client gets and returns allocations, and every
  other component gets pages from the page allocator and gives back any address that is not a page of
  the heap. The map keeps the requested size of each live allocation.
\<close>

inductive heap_reach :: "heap \<Rightarrow> (u32 \<rightharpoonup> u32) \<Rightarrow> bool" where
  start: "unat kernelEnd \<le> 2 ^ 32 - 4096 \<Longrightarrow> heap_reach (heap_init (memory_init kernelEnd)) Map.empty"
| malloc: "heap_reach h L \<Longrightarrow> unat n \<le> 2 ^ 32 - 8 \<Longrightarrow> kmalloc n h = Some (p, h') \<Longrightarrow>
    heap_reach h' (if p = 0 then L else L(p \<mapsto> n))"
| free: "heap_reach h L \<Longrightarrow> p \<in> dom L \<Longrightarrow> kfree p h = Some h' \<Longrightarrow> heap_reach h' (L(p := None))"
| page_taken: "heap_reach h L \<Longrightarrow> memory_alloc_page (pages h) = (a, f) \<Longrightarrow> heap_reach (h\<lparr>pages := f\<rparr>) L"
| page_given: "heap_reach h L \<Longrightarrow> a \<notin> dom (segs h) \<Longrightarrow> heap_reach (h\<lparr>pages := memory_free_page (pages h) a\<rparr>) L"

definition client_ok :: "(u32 \<rightharpoonup> u32) \<Rightarrow> heap_view \<Rightarrow> bool" where
  "client_ok L ss \<longleftrightarrow> dom L = fst ` set (out ss) \<and> (\<forall>x \<in> set (out ss). \<exists>n. L (fst x) = Some n \<and> n \<le> snd x)"

lemma client_take:
  assumes L: "client_ok L ss" and o: "out ss = o1 @ o2" "out ss' = o1 @ (p, m) # o2"
    and d: "distinct (map fst (out ss'))" and n: "n \<le> m"
  shows "client_ok (L(p \<mapsto> n)) ss'"
proof -
  have "fst x \<noteq> p" if "x \<in> set (out ss)" for x
    using d that by (auto simp: o)
  then show ?thesis
    using L n unfolding client_ok_def o by (auto simp: image_Un)
qed

lemma client_give:
  assumes L: "client_ok L ss" and o: "out ss = o1 @ (p, m) # o2" "out ss' = o1 @ o2" and d: "distinct (map fst (out ss))"
  shows "client_ok (L(p := None)) ss'"
proof -
  have "fst x \<noteq> p" if "x \<in> set (out ss')" for x
    using d that by (auto simp: o)
  then show ?thesis
    using L unfolding client_ok_def o by (auto simp: image_Un)
qed

lemma heap_other_page:
  assumes ok: "heap_ok h ss" and f: "frames_ok f" "fst ` set ss \<subseteq> live_pages f"
  shows "heap_ok (h\<lparr>pages := f\<rparr>) ss"
proof -
  have "page_ok (h\<lparr>pages := f\<rparr>) x = page_ok h x" for x
    by (simp add: page_ok_def page_blocks_def)
  then show ?thesis
    using ok f by (simp add: heap_ok_def heap_shape_def)
qed

lemma heap_reach_invariant: "heap_reach h L \<Longrightarrow> \<exists>ss. heap_ok h ss \<and> client_ok L ss"
proof (induction rule: heap_reach.induct)
  case (start kernelEnd)
  then show ?case
    using memory_init_ok [OF start]
    by (intro exI [of _ "[]"]) (simp add: heap_ok_def heap_shape_def heap_init_def client_ok_def)
next
  case (malloc h L n p h')
  then obtain ss where ss: "heap_ok h ss" "client_ok L ss"
    by blast
  obtain ss' where r: "malloc_result n h ss p h' ss'"
    using kmalloc_ok [OF ss(1) malloc(2)] malloc(3) by auto
  show ?case
  proof (cases "p = 0")
    case True
    then have "heap_ok h' ss'" "out ss' = out ss"
      using r by (simp_all add: malloc_result_def)
    then show ?thesis
      using True ss(2) by (intro exI [of _ ss']) (simp add: client_ok_def)
  next
    case False
    then obtain o1 o2 m where m: "heap_ok h' ss'" "n \<le> m" "out ss = o1 @ o2" "out ss' = o1 @ (p, m) # o2"
      using r by (auto simp: malloc_result_def)
    have "client_ok (L(p \<mapsto> n)) ss'"
      by (rule client_take [OF ss(2) m(3,4) heap_out_apart(2) [OF m(1)] m(2)])
    then show ?thesis
      unfolding if_not_P [OF False] using m(1) by blast
  qed
next
  case (free h L p h')
  then obtain ss where ss: "heap_ok h ss" "client_ok L ss"
    by blast
  then obtain sz where "(p, sz) \<in> set (out ss)"
    using free(2) by (auto simp: client_ok_def)
  from kfree_ok [OF ss(1) this] free(3) obtain ss' o1 o2 where f: "heap_ok h' ss'" "out ss = o1 @ (p, sz) # o2" "out ss' = o1 @ o2"
    by auto
  have "client_ok (L(p := None)) ss'"
    by (rule client_give [OF ss(2) f(2,3) heap_out_apart(2) [OF ss(1)]])
  then show ?case
    using f(1) by blast
next
  case (page_taken h L a f)
  then obtain ss where ss: "heap_ok h ss" "client_ok L ss"
    by blast
  then have sh: "frames_ok (pages h)" "fst ` set ss \<subseteq> live_pages (pages h)"
    by (simp_all add: heap_ok_def heap_shape_def)
  note f = pages.alloc_ok [OF sh(1) page_taken(2)]
  have "fst ` set ss \<subseteq> live_pages f"
    using f(2) sh(2) by (auto split: if_splits)
  then have "heap_ok (h\<lparr>pages := f\<rparr>) ss"
    by (rule heap_other_page [OF ss(1) f(1)])
  then show ?case
    using ss(2) by blast
next
  case (page_given h L a)
  then obtain ss where ss: "heap_ok h ss" "client_ok L ss"
    by blast
  then have sh: "frames_ok (pages h)" "fst ` set ss \<subseteq> live_pages (pages h)" "a \<notin> fst ` set ss"
    using page_given(2) by (auto simp: heap_ok_def heap_shape_def)
  have "heap_ok (h\<lparr>pages := memory_free_page (pages h) a\<rparr>) ss"
    using heap_other_page [OF ss(1)] free_live(1,2) [OF sh(1), of a] sh(2,3) by blast
  then show ?case
    using ss(2) by blast
qed

lemma full_memory:
  assumes "frames_ok m" "used_set m = {..<4096}"
  shows "memory_free_pages m = 0"
proof -
  have "unat (allocated_pages m) = 4096"
    using assms by (simp add: frames_ok_def)
  then have "allocated_pages m = 4096"
    by (simp add: word_unat_eq_iff)
  then show ?thesis
    by (simp add: memory_free_pages_def PAGE_COUNT_def)
qed

text \<open>What a client sees of a live allocation.\<close>

lemma client_block:
  assumes ss: "heap_ok h ss" "client_ok L ss" and p: "L p = Some n"
  obtains m where "(p, m) \<in> set (out ss)" "unat n \<le> unat m"
proof -
  have "p \<in> fst ` set (out ss)"
    using ss(2) p by (auto simp: client_ok_def)
  then obtain m where m: "(p, m) \<in> set (out ss)"
    by auto
  then have "n \<le> m"
    using ss(2) p by (auto simp: client_ok_def)
  then show thesis
    using that m by (simp add: word_le_nat_alt)
qed

lemma reach_malloc:
  assumes reach: "heap_reach h L" and n: "unat n \<le> 2 ^ 32 - 8"
  shows "\<exists>p h'. kmalloc n h = Some (p, h') \<and> p \<notin> dom L \<and>
    (p = 0 \<longrightarrow> n = 0 \<or> 4072 < unat n \<or> memory_free_pages (pages h) = 0)"
proof -
  obtain ss where ss: "heap_ok h ss" "client_ok L ss"
    using heap_reach_invariant [OF reach] by blast
  obtain p h' ss' where m: "kmalloc n h = Some (p, h')" "malloc_result n h ss p h' ss'"
    using kmalloc_ok [OF ss(1) n] by blast
  have sh: "heap_shape h ss"
    using ss(1) by (simp add: heap_ok_def)
  have "p \<notin> fst ` set (out ss)"
  proof (cases "p = 0")
    case True
    then show ?thesis
      using out_range(1) [OF sh] by fastforce
  next
    case False
    then obtain o1 o2 k where o: "heap_ok h' ss'" "out ss = o1 @ o2" "out ss' = o1 @ (p, k) # o2"
      using m(2) by (auto simp: malloc_result_def)
    show ?thesis
      using heap_out_apart(2) [OF o(1)] unfolding o by auto
  qed
  moreover have "dom L = fst ` set (out ss)"
    using ss(2) by (simp add: client_ok_def)
  moreover have "p = 0 \<longrightarrow> n = 0 \<or> 4072 < unat n \<or> memory_free_pages (pages h) = 0"
    using m(2) full_memory [of "pages h"] sh by (auto simp: malloc_result_def heap_shape_def)
  ultimately show ?thesis
    using m(1) by blast
qed

lemma reach_oversized:
  assumes reach: "heap_reach h L" and n: "4072 < unat n" "unat n \<le> 2 ^ 32 - 8" and free: "memory_free_pages (pages h) \<noteq> 0"
  shows "\<exists>pg h'. kmalloc n h = Some (0, h') \<and> pg \<notin> dom (segs h) \<and> dom (segs h') = insert pg (dom (segs h))"
proof -
  obtain ss where ss: "heap_ok h ss"
    using heap_reach_invariant [OF reach] by blast
  then have "used_set (pages h) \<noteq> {..<4096}"
    using full_memory [of "pages h"] free by (auto simp: heap_ok_def heap_shape_def)
  with ss n show ?thesis
    by (rule oversized_request)
qed

lemma reach_free: "heap_reach h L \<Longrightarrow> p \<in> dom L \<Longrightarrow> \<exists>h'. kfree p h = Some h'"
  using heap_reach_invariant [of h L] kfree_ok [of h] by (fastforce simp: client_ok_def)

lemma reach_blocks:
  assumes reach: "heap_reach h L" and p: "L p = Some n"
  shows "8 dvd unat p \<and> (\<exists>pg \<in> dom (segs h). unat pg + 24 \<le> unat p \<and> unat p + unat n \<le> unat pg + 4096)"
proof -
  obtain ss where ss: "heap_ok h ss" "client_ok L ss"
    using heap_reach_invariant [OF reach] by blast
  then obtain m where m: "(p, m) \<in> set (out ss)" "unat n \<le> unat m"
    using p by (rule client_block)
  have "heap_shape h ss"
    using ss(1) by (simp add: heap_ok_def)
  note r = out_range [OF this m(1)]
  obtain pg where pg: "pg \<in> dom (segs h)" "unat pg + 24 \<le> unat p" "unat p + unat m \<le> unat pg + 4096"
    using r(1) by blast
  then have "unat p + unat n \<le> unat pg + 4096"
    using m(2) by simp
  then show ?thesis
    using r(2) pg(1,2) by blast
qed

lemma reach_apart:
  assumes reach: "heap_reach h L" and p: "L p = Some n" "L q = Some k" "p \<noteq> q"
  shows "unat p + unat n + 16 \<le> unat q \<or> unat q + unat k + 16 \<le> unat p"
proof -
  obtain ss where ss: "heap_ok h ss" "client_ok L ss"
    using heap_reach_invariant [OF reach] by blast
  then obtain m where m: "(p, m) \<in> set (out ss)" "unat n \<le> unat m"
    using p(1) by (rule client_block)
  from ss p(2) obtain j where j: "(q, j) \<in> set (out ss)" "unat k \<le> unat j"
    by (rule client_block)
  have "apart (p, m) (q, j)"
    using p(3) by (intro sorted_apart [OF heap_out_apart(1) [OF ss(1)] m(1) j(1)]) simp
  then show ?thesis
    using m(2) j(2) by (auto simp: apart_def)
qed

lemma reach_idle:
  assumes reach: "heap_reach h Map.empty"
  shows "heap_bytes_allocated h = 0 \<and>
    (\<forall>pg \<in> dom (segs h). blocks h (pg + 8) = Some \<lparr>b_size = 4072, b_used = False, b_next = 0, b_prev = 0\<rparr>)"
proof -
  obtain ss where ss: "heap_ok h ss" "client_ok Map.empty ss"
    using heap_reach_invariant [OF reach] by blast
  then have sh: "heap_shape h ss" and none: "out ss = []"
    by (simp_all add: heap_ok_def client_ok_def)
  have "bytesAllocated h = 0"
    using ss(1) none by (simp add: heap_ok_def)
  moreover have "blocks h (pg + 8) = Some \<lparr>b_size = 4072, b_used = False, b_next = 0, b_prev = 0\<rparr>"
    if pg: "pg \<in> dom (segs h)" for pg
  proof -
    obtain bs where bs: "(pg, bs) \<in> set ss"
      using sh pg by (auto simp: heap_shape_def)
    have "handed_out bs = []"
      using none bs by (auto simp: out_def)
    then show ?thesis
      by (rule unused_page [OF heap_pages_aligned(1) [OF sh bs]])
  qed
  ultimately show ?thesis
    by (simp add: heap_bytes_allocated_def)
qed

text \<open>
  C27. Every heap call returns: in every state the kernel reaches, \<^verbatim>\<open>kmalloc\<close> of any size up to
  \<open>2\<^sup>3\<^sup>2 - 8\<close> ends (no block or segment list runs in a circle, no pointer it follows is dangling), and so
  does \<^verbatim>\<open>kfree\<close> of any live allocation. The result is null only when the size is 0 or exceeds the 4072
  bytes of a page, or no physical page is free. A request above 4072 bytes still moves a page into the
  heap for good before it fails.
\<close>

theorem heap_calls_return:
  assumes "heap_reach h L"
  shows "(\<forall>n. unat n \<le> 2 ^ 32 - 8 \<longrightarrow> (\<exists>p h'. kmalloc n h = Some (p, h') \<and>
        (p = 0 \<longrightarrow> n = 0 \<or> 4072 < unat n \<or> memory_free_pages (pages h) = 0))) \<and>
    (\<forall>p \<in> dom L. \<exists>h'. kfree p h = Some h') \<and>
    (\<forall>n. 4072 < unat n \<longrightarrow> unat n \<le> 2 ^ 32 - 8 \<longrightarrow> memory_free_pages (pages h) \<noteq> 0 \<longrightarrow>
       (\<exists>pg h'. kmalloc n h = Some (0, h') \<and> pg \<notin> dom (segs h) \<and> dom (segs h') = insert pg (dom (segs h))))"
proof (intro conjI allI impI ballI)
  show "\<exists>p h'. kmalloc n h = Some (p, h') \<and> (p = 0 \<longrightarrow> n = 0 \<or> 4072 < unat n \<or> memory_free_pages (pages h) = 0)"
    if n: "unat n \<le> 2 ^ 32 - 8" for n
  proof -
    obtain p h' where "kmalloc n h = Some (p, h')" "p = 0 \<longrightarrow> n = 0 \<or> 4072 < unat n \<or> memory_free_pages (pages h) = 0"
      using reach_malloc [OF assms n] by (elim exE conjE)
    then show ?thesis
      by (intro exI conjI)
  qed
  show "\<exists>h'. kfree p h = Some h'" if "p \<in> dom L" for p
    by (rule reach_free [OF assms that])
  show "\<exists>pg h'. kmalloc n h = Some (0, h') \<and> pg \<notin> dom (segs h) \<and> dom (segs h') = insert pg (dom (segs h))"
    if "4072 < unat n" "unat n \<le> 2 ^ 32 - 8" "memory_free_pages (pages h) \<noteq> 0" for n
    by (rule reach_oversized [OF assms that])
qed

text \<open>
  C17. The heap is safe. Live allocations are 8-aligned, lie inside a page of the heap behind its
  segment and block header, and are at least a header apart, so no write of a client reaches another
  allocation or a header; a new allocation is none of the live ones. When every allocation is freed the
  byte count is 0 and every page is a single free block of 4072 bytes again, so nothing stays fragmented.
\<close>

theorem heap_sound:
  assumes "heap_reach h L"
  shows "(\<forall>p n. L p = Some n \<longrightarrow> 8 dvd unat p \<and>
        (\<exists>pg \<in> dom (segs h). unat pg + 24 \<le> unat p \<and> unat p + unat n \<le> unat pg + 4096)) \<and>
    (\<forall>p q n k. L p = Some n \<longrightarrow> L q = Some k \<longrightarrow> p \<noteq> q \<longrightarrow>
        unat p + unat n + 16 \<le> unat q \<or> unat q + unat k + 16 \<le> unat p) \<and>
    (\<forall>n p h'. unat n \<le> 2 ^ 32 - 8 \<longrightarrow> kmalloc n h = Some (p, h') \<longrightarrow> p \<notin> dom L) \<and>
    (L = Map.empty \<longrightarrow> heap_bytes_allocated h = 0 \<and>
      (\<forall>pg \<in> dom (segs h). blocks h (pg + 8) = Some \<lparr>b_size = 4072, b_used = False, b_next = 0, b_prev = 0\<rparr>))"
proof (intro conjI allI impI)
  show "8 dvd unat p" if "L p = Some n" for p n
    by (rule conjunct1 [OF reach_blocks [OF assms that]])
  show "\<exists>pg \<in> dom (segs h). unat pg + 24 \<le> unat p \<and> unat p + unat n \<le> unat pg + 4096" if "L p = Some n" for p n
    by (rule conjunct2 [OF reach_blocks [OF assms that]])
  show "unat p + unat n + 16 \<le> unat q \<or> unat q + unat k + 16 \<le> unat p" if "L p = Some n" "L q = Some k" "p \<noteq> q" for p q n k
    by (rule reach_apart [OF assms that])
  show "p \<notin> dom L" if "unat n \<le> 2 ^ 32 - 8" "kmalloc n h = Some (p, h')" for n p h'
    using reach_malloc [OF assms that(1)] that(2) by auto
  show "heap_bytes_allocated h = 0" if "L = Map.empty"
    by (rule conjunct1 [OF reach_idle [OF assms [unfolded that]]])
  show "\<forall>pg \<in> dom (segs h). blocks h (pg + 8) = Some \<lparr>b_size = 4072, b_used = False, b_next = 0, b_prev = 0\<rparr>"
    if "L = Map.empty"
    by (rule conjunct2 [OF reach_idle [OF assms [unfolded that]]])
qed

text \<open>A run: after boot one allocation of 100 bytes, which succeeds.\<close>

lemma heap_first_allocation:
  obtains p h where "p \<noteq> 0" "heap_reach h [p \<mapsto> 100]"
proof -
  let ?h = "heap_init (memory_init 0x200000)"
  have boot: "heap_reach ?h Map.empty"
    by (rule heap_reach.start) simp
  obtain p h where m: "kmalloc 100 ?h = Some (p, h)"
    "p = 0 \<longrightarrow> (100 :: u32) = 0 \<or> 4072 < unat (100 :: u32) \<or> memory_free_pages (pages ?h) = 0"
    using reach_malloc [OF boot, of 100] by auto
  have "frames_ok (memory_init 0x200000)" "used_set (memory_init 0x200000) = {..<512}"
    using memory_init_ok [of "0x200000"] by (simp_all add: reserved_count_def)
  then have "unat (allocated_pages (memory_init 0x200000)) = 512"
    by (simp add: frames_ok_def)
  then have "allocated_pages (memory_init 0x200000) = 512"
    by (simp add: word_unat_eq_iff)
  then have "memory_free_pages (pages ?h) \<noteq> 0"
    by (simp add: memory_free_pages_def PAGE_COUNT_def heap_init_def)
  then have p: "p \<noteq> 0"
    using m(2) by auto
  have "heap_reach h (if p = 0 then Map.empty else [p \<mapsto> 100])"
    using heap_reach.malloc [OF boot _ m(1)] by simp
  then show thesis
    using that p by simp
qed

theorem heap_calls_return_witness:
  "\<exists>p h. heap_reach h [p \<mapsto> 100] \<and> p \<noteq> 0 \<and> (\<exists>h'. kfree p h = Some h') \<and> (\<exists>q h'. kmalloc 5000 h = Some (q, h'))"
proof -
  obtain p h where p: "p \<noteq> 0" "heap_reach h [p \<mapsto> 100]"
    by (rule heap_first_allocation)
  note returns = heap_calls_return [OF p(2)]
  have "\<exists>q h'. kmalloc 5000 h = Some (q, h')"
    using returns [THEN conjunct1, rule_format, of 5000] by auto
  moreover have "\<exists>h'. kfree p h = Some h'"
    using returns [THEN conjunct2, THEN conjunct1] by simp
  ultimately show ?thesis
    using p by iprover
qed

theorem heap_sound_witness:
  "\<exists>p h. heap_reach h [p \<mapsto> 100] \<and> p \<noteq> 0 \<and> 8 dvd unat p \<and>
     (\<exists>pg \<in> dom (segs h). unat pg + 24 \<le> unat p \<and> unat p + 100 \<le> unat pg + 4096)"
proof -
  obtain p h where p: "p \<noteq> 0" "heap_reach h [p \<mapsto> 100]"
    by (rule heap_first_allocation)
  show ?thesis
    using heap_sound [OF p(2), THEN conjunct1, rule_format, of p 100] p by auto
qed

end
