(* ===== verification/Elf.thy ===== *)
theory Elf
  imports Prelude "HOL-Library.Monad_Syntax"
begin

text \<open>
  The ELF loader's validation stage \<^verbatim>\<open>22-os/elf/elf.cpp\<close>. The image is a byte list; a read
  outside it is the value \<open>None\<close>, so the memory safety of the checks is a theorem. The plan is the
  caller's record, written field by field as the code does, also on the failing paths. The safety
  contract of an accepted plan is \<open>plan_safe\<close>.
\<close>

definition ELF_MAX_SEGMENTS :: u32 where "ELF_MAX_SEGMENTS = 4"
definition ELF_MAX_PAGES :: u32 where "ELF_MAX_PAGES = 8"
definition ELF_PAGE_SIZE :: u32 where "ELF_PAGE_SIZE = 4096"
definition ELF_SEGMENT_VIRTUAL_BASE :: u32 where "ELF_SEGMENT_VIRTUAL_BASE = 0x01000000"
definition ELF_STACK_PAGE_VADDR :: u32 where
  "ELF_STACK_PAGE_VADDR = ELF_SEGMENT_VIRTUAL_BASE + ELF_MAX_PAGES * ELF_PAGE_SIZE"
definition ELF_STACK_TOP_VADDR :: u32 where "ELF_STACK_TOP_VADDR = ELF_STACK_PAGE_VADDR + ELF_PAGE_SIZE"

lemmas elf_consts = ELF_MAX_SEGMENTS_def ELF_MAX_PAGES_def ELF_PAGE_SIZE_def ELF_SEGMENT_VIRTUAL_BASE_def
  ELF_STACK_PAGE_VADDR_def ELF_STACK_TOP_VADDR_def

datatype ElfError = Elf_None | ImageTooSmallForHeader | BadMagic | UnsupportedClass | UnsupportedEndianness
  | UnsupportedVersion | UnsupportedType | UnsupportedMachine | ProgramHeaderTableOutOfBounds | TooManySegments
  | NoLoadSegments | SegmentOffsetOutOfBounds | SegmentSizeInvalid | SegmentNotPageAligned
  | SegmentOutsideAllowedRegion | SegmentOverlap | TooManyPages | EntryPointNotInAnyExecutableSegment

record ElfSegmentPlan =
  virtualAddress :: u32
  fileOffset :: u32
  fileSize :: u32
  memSize :: u32
  writable :: bool
  executable :: bool

record ElfLoadPlan =
  entryPoint :: u32
  segmentCount :: u32
  segments :: "ElfSegmentPlan list"
  totalPages :: u32

definition EHDR_SIZE :: u32 where "EHDR_SIZE = 52"
definition PHDR_SIZE :: u16 where "PHDR_SIZE = 32"
definition PT_LOAD :: u32 where "PT_LOAD = 1"
definition PF_X :: u32 where "PF_X = 1"
definition PF_W :: u32 where "PF_W = 2"

lemmas elf_header_consts = EHDR_SIZE_def PHDR_SIZE_def PT_LOAD_def PF_X_def PF_W_def

section \<open>Reading the image\<close>

definition image_at :: "bytes \<Rightarrow> nat \<Rightarrow> u8 option" where
  "image_at img i = (if i < length img then Some (img ! i) else None)"

definition elf_readU16 :: "bytes \<Rightarrow> nat \<Rightarrow> u16 option" where
  "elf_readU16 img p = do {
     b0 \<leftarrow> image_at img p;
     b1 \<leftarrow> image_at img (p + 1);
     Some (ucast ((ucast b0 :: u32) OR push_bit 8 (ucast b1))) }"

definition elf_readU32 :: "bytes \<Rightarrow> nat \<Rightarrow> u32 option" where
  "elf_readU32 img p = do {
     b0 \<leftarrow> image_at img p;
     b1 \<leftarrow> image_at img (p + 1);
     b2 \<leftarrow> image_at img (p + 2);
     b3 \<leftarrow> image_at img (p + 3);
     Some (ucast b0 OR push_bit 8 (ucast b1) OR push_bit 16 (ucast b2) OR push_bit 24 (ucast b3)) }"

definition pageAlignDown :: "u32 \<Rightarrow> u32" where
  "pageAlignDown address = address AND NOT (ELF_PAGE_SIZE - 1)"

definition isPageAligned :: "u32 \<Rightarrow> bool" where
  "isPageAligned address \<longleftrightarrow> address AND (ELF_PAGE_SIZE - 1) = 0"

definition rangesOverlap :: "u32 \<Rightarrow> u32 \<Rightarrow> u32 \<Rightarrow> u32 \<Rightarrow> bool" where
  "rangesOverlap aStart aEnd bStart bEnd \<longleftrightarrow> aStart < bEnd \<and> bStart < aEnd"

section \<open>One program header\<close>

text \<open>The inner loop of the overlap check, over the segments planned so far.\<close>

fun overlaps_planned :: "ElfLoadPlan \<Rightarrow> u32 \<Rightarrow> u32 \<Rightarrow> nat list \<Rightarrow> bool" where
  "overlaps_planned plan segStartPage segEndPage [] \<longleftrightarrow> False"
| "overlaps_planned plan segStartPage segEndPage (j # js) \<longleftrightarrow>
     (let s = segments plan ! j;
          otherStart = pageAlignDown (virtualAddress s);
          otherEnd = pageAlignDown (virtualAddress s + memSize s + ELF_PAGE_SIZE - 1)
      in if rangesOverlap segStartPage segEndPage otherStart otherEnd then True
         else overlaps_planned plan segStartPage segEndPage js)"

text \<open>
  A \<^verbatim>\<open>PT_LOAD\<close> header whose fields have been read: the checks, then the new segment of the plan.
  \<open>Elf_None\<close> stands for going on with the next header.
\<close>

definition plan_segment :: "u32 \<Rightarrow> ElfLoadPlan \<Rightarrow> u32 \<Rightarrow> u32 \<Rightarrow> u32 \<Rightarrow> u32 \<Rightarrow> u32 \<Rightarrow> ElfError \<times> ElfLoadPlan" where
  "plan_segment imageSize plan p_offset p_vaddr p_filesz p_memsz p_flags =
     (if p_memsz < p_filesz then (SegmentSizeInvalid, plan)
      else
        let fileEnd = (ucast p_offset :: u64) + ucast p_filesz in
        if fileEnd > ucast imageSize then (SegmentOffsetOutOfBounds, plan)
        else if \<not> isPageAligned p_vaddr then (SegmentNotPageAligned, plan)
        else
          let memEnd = (ucast p_vaddr :: u64) + ucast p_memsz;
              windowStart = (ucast ELF_SEGMENT_VIRTUAL_BASE :: u64);
              windowEnd = (ucast ELF_SEGMENT_VIRTUAL_BASE :: u64) + ucast ELF_MAX_PAGES * ucast ELF_PAGE_SIZE
          in
          if ucast p_vaddr < windowStart \<or> memEnd > windowEnd then (SegmentOutsideAllowedRegion, plan)
          else if segmentCount plan \<ge> ELF_MAX_SEGMENTS then (TooManySegments, plan)
          else
            let segStartPage = pageAlignDown p_vaddr;
                segEndPage = pageAlignDown ((ucast memEnd :: u32) + ELF_PAGE_SIZE - 1)
            in
            if overlaps_planned plan segStartPage segEndPage [0..<unat (segmentCount plan)] then (SegmentOverlap, plan)
            else
              let segment = \<lparr>virtualAddress = p_vaddr, fileOffset = p_offset, fileSize = p_filesz, memSize = p_memsz,
                             writable = (p_flags AND PF_W \<noteq> 0), executable = (p_flags AND PF_X \<noteq> 0)\<rparr>;
                  plan1 = plan\<lparr>segments := (segments plan)[unat (segmentCount plan) := segment]\<rparr>;
                  plan2 = plan1\<lparr>segmentCount := segmentCount plan1 + 1\<rparr>;
                  pages = (p_memsz + ELF_PAGE_SIZE - 1) div ELF_PAGE_SIZE;
                  pagesForSegment = (if pages = 0 then 1 else pages);
                  plan3 = plan2\<lparr>totalPages := totalPages plan2 + pagesForSegment\<rparr>
              in if totalPages plan3 > ELF_MAX_PAGES then (TooManyPages, plan3) else (Elf_None, plan3))"

fun plan_headers :: "bytes \<Rightarrow> u32 \<Rightarrow> nat \<Rightarrow> nat \<Rightarrow> ElfLoadPlan \<Rightarrow> nat list \<Rightarrow> (ElfError \<times> ElfLoadPlan) option" where
  "plan_headers img imageSize phoff phentsize plan [] = Some (Elf_None, plan)"
| "plan_headers img imageSize phoff phentsize plan (i # is) = do {
     let ph = phoff + i * phentsize;
     p_type \<leftarrow> elf_readU32 img ph;
     if p_type \<noteq> PT_LOAD then plan_headers img imageSize phoff phentsize plan is
     else do {
       p_offset \<leftarrow> elf_readU32 img (ph + 4);
       p_vaddr \<leftarrow> elf_readU32 img (ph + 8);
       p_filesz \<leftarrow> elf_readU32 img (ph + 16);
       p_memsz \<leftarrow> elf_readU32 img (ph + 20);
       p_flags \<leftarrow> elf_readU32 img (ph + 24);
       let (err, plan') = plan_segment imageSize plan p_offset p_vaddr p_filesz p_memsz p_flags;
       if err \<noteq> Elf_None then Some (err, plan')
       else plan_headers img imageSize phoff phentsize plan' is } }"

text \<open>The last loop: does the entry point lie in an executable segment of the plan.\<close>

definition entry_in :: "u32 \<Rightarrow> ElfSegmentPlan \<Rightarrow> bool" where
  "entry_in entry segment \<longleftrightarrow> executable segment \<and>
     (ucast entry :: u64) \<ge> ucast (virtualAddress segment) \<and>
     (ucast entry :: u64) < ucast (virtualAddress segment) + ucast (memSize segment)"

fun entry_valid :: "ElfLoadPlan \<Rightarrow> u32 \<Rightarrow> nat list \<Rightarrow> bool" where
  "entry_valid plan entry [] \<longleftrightarrow> False"
| "entry_valid plan entry (i # is) \<longleftrightarrow> (if entry_in entry (segments plan ! i) then True else entry_valid plan entry is)"

section \<open>The whole validation\<close>

text \<open>The loop over the program headers and the two final checks.\<close>

definition plan_program :: "bytes \<Rightarrow> u32 \<Rightarrow> u32 \<Rightarrow> u32 \<Rightarrow> u16 \<Rightarrow> u16 \<Rightarrow> ElfLoadPlan \<Rightarrow> (ElfError \<times> ElfLoadPlan) option" where
  "plan_program img imageSize entry phoff phentsize phnum outPlan = do {
     let plan0 = outPlan\<lparr>entryPoint := entry, segmentCount := 0, totalPages := 0\<rparr>;
     (err, plan) \<leftarrow> plan_headers img imageSize (unat phoff) (unat phentsize) plan0 [0..<unat phnum];
     if err \<noteq> Elf_None then Some (err, plan)
     else if segmentCount plan = 0 then Some (NoLoadSegments, plan)
     else if \<not> entry_valid plan entry [0..<unat (segmentCount plan)]
          then Some (EntryPointNotInAnyExecutableSegment, plan)
     else Some (Elf_None, plan) }"

definition elf_validate_and_plan :: "bytes \<Rightarrow> u32 \<Rightarrow> ElfLoadPlan \<Rightarrow> (ElfError \<times> ElfLoadPlan) option" where
  "elf_validate_and_plan img imageSize outPlan =
     (if imageSize < EHDR_SIZE then Some (ImageTooSmallForHeader, outPlan)
      else do {
        i0 \<leftarrow> image_at img 0; i1 \<leftarrow> image_at img 1; i2 \<leftarrow> image_at img 2; i3 \<leftarrow> image_at img 3;
        if i0 \<noteq> 127 \<or> i1 \<noteq> 69 \<or> i2 \<noteq> 76 \<or> i3 \<noteq> 70 then Some (BadMagic, outPlan)
        else do {
          i4 \<leftarrow> image_at img 4;
          if i4 \<noteq> 1 then Some (UnsupportedClass, outPlan)
          else do {
            i5 \<leftarrow> image_at img 5;
            if i5 \<noteq> 1 then Some (UnsupportedEndianness, outPlan)
            else do {
              i6 \<leftarrow> image_at img 6;
              if i6 \<noteq> 1 then Some (UnsupportedVersion, outPlan)
              else do {
                type \<leftarrow> elf_readU16 img 16;
                if type \<noteq> 2 then Some (UnsupportedType, outPlan)
                else do {
                  machine \<leftarrow> elf_readU16 img 18;
                  if machine \<noteq> 3 then Some (UnsupportedMachine, outPlan)
                  else do {
                    entry \<leftarrow> elf_readU32 img 24;
                    phoff \<leftarrow> elf_readU32 img 28;
                    phentsize \<leftarrow> elf_readU16 img 42;
                    phnum \<leftarrow> elf_readU16 img 44;
                    if phnum = 0 then Some (NoLoadSegments, outPlan)
                    else if ucast phnum > ELF_MAX_SEGMENTS then Some (TooManySegments, outPlan)
                    else if phentsize \<noteq> PHDR_SIZE then Some (ProgramHeaderTableOutOfBounds, outPlan)
                    else if (ucast phoff :: u64) + ucast phnum * ucast phentsize > ucast imageSize
                    then Some (ProgramHeaderTableOutOfBounds, outPlan)
                    else plan_program img imageSize entry phoff phentsize phnum outPlan }}}}}}})"

section \<open>What the helpers compute\<close>

lemma image_at_Some [simp]: "i < length img \<Longrightarrow> image_at img i = Some (img ! i)"
  by (simp add: image_at_def)

lemma elf_readU16_total: "p + 1 < length img \<Longrightarrow> \<exists>w. elf_readU16 img p = Some w"
  by (simp add: elf_readU16_def)

lemma elf_readU32_total: "p + 3 < length img \<Longrightarrow> \<exists>w. elf_readU32 img p = Some w"
  by (simp add: elf_readU32_def)

lemma page_mask: "ELF_PAGE_SIZE - 1 = mask 12"
  by (simp add: ELF_PAGE_SIZE_def mask_eq_exp_minus_1)

lemma isPageAligned_iff: "isPageAligned a \<longleftrightarrow> unat a mod 4096 = 0"
proof -
  have "unat (take_bit 12 a) = unat a mod 4096"
    by (simp add: take_bit_eq_mod unat_mod_distrib)
  then show ?thesis
    unfolding isPageAligned_def page_mask take_bit_eq_mask [symmetric] by (metis unat_eq_zero)
qed

lemma unat_pageAlignDown: "unat (pageAlignDown a) = unat a div 4096 * 4096"
proof -
  have "pageAlignDown a = push_bit 12 (drop_bit 12 a)"
    unfolding pageAlignDown_def page_mask by (rule bit_word_eqI) (auto simp: bit_simps)
  then have "unat (pageAlignDown a) = unat (drop_bit 12 a) * 4096 mod 2 ^ 32"
    by (simp add: push_bit_eq_mult unat_word_ariths)
  also have "unat (drop_bit 12 a) = unat a div 4096"
    by (simp add: drop_bit_eq_div unat_div_distrib)
  also have "unat a div 4096 * 4096 \<le> unat a"
    by simp
  then have "unat a div 4096 * 4096 mod 2 ^ 32 = unat a div 4096 * 4096"
    using unsigned_less [of a, where 'a = nat] by (simp add: less_mult_imp_div_less)
  finally show ?thesis .
qed

lemma unat_widen [simp]: "unat (ucast (a :: u32) :: u64) = unat a"
  by (simp add: unsigned_ucast_eq take_bit_nat_eq_self order_less_le_trans [OF unsigned_less])

lemma unat_widen_sum: "unat ((ucast (a :: u32) :: u64) + ucast (b :: u32)) = unat a + unat b"
  using unsigned_less [of a, where 'a = nat] unsigned_less [of b, where 'a = nat] by (simp add: unat_word_ariths)

text \<open>The number of pages a segment gets, and the page range it occupies, in unbounded arithmetic.\<close>

definition seg_pages :: "ElfSegmentPlan \<Rightarrow> nat" where
  "seg_pages s = max 1 ((unat (memSize s) + 4095) div 4096)"

definition seg_end :: "ElfSegmentPlan \<Rightarrow> nat" where
  "seg_end s = (unat (virtualAddress s) + unat (memSize s) + 4095) div 4096 * 4096"

definition seg_safe :: "nat \<Rightarrow> ElfSegmentPlan \<Rightarrow> bool" where
  "seg_safe len s \<longleftrightarrow> unat (fileOffset s) + unat (fileSize s) \<le> len \<and> fileSize s \<le> memSize s \<and>
     unat (virtualAddress s) mod 4096 = 0 \<and> 0x01000000 \<le> unat (virtualAddress s) \<and>
     unat (virtualAddress s) + unat (memSize s) \<le> 0x01000000 + 8 * 4096"

definition seg_apart :: "ElfSegmentPlan \<Rightarrow> ElfSegmentPlan \<Rightarrow> bool" where
  "seg_apart s t \<longleftrightarrow> seg_end s \<le> unat (virtualAddress t) \<or> seg_end t \<le> unat (virtualAddress s)"

definition planned :: "ElfLoadPlan \<Rightarrow> ElfSegmentPlan list" where
  "planned plan = take (unat (segmentCount plan)) (segments plan)"

fun pairwise_apart :: "ElfSegmentPlan list \<Rightarrow> bool" where
  "pairwise_apart [] \<longleftrightarrow> True"
| "pairwise_apart (s # ss) \<longleftrightarrow> (\<forall>t \<in> set ss. seg_apart t s) \<and> pairwise_apart ss"

definition plan_inv :: "nat \<Rightarrow> ElfLoadPlan \<Rightarrow> bool" where
  "plan_inv len plan \<longleftrightarrow> length (segments plan) = 4 \<and> unat (segmentCount plan) \<le> 4 \<and>
     (\<forall>s \<in> set (planned plan). seg_safe len s) \<and> pairwise_apart (planned plan) \<and>
     unat (totalPages plan) = sum_list (map seg_pages (planned plan)) \<and> unat (totalPages plan) \<le> 8"

lemma seg_end_word:
  assumes "seg_safe len s"
  shows "unat (pageAlignDown (virtualAddress s + memSize s + ELF_PAGE_SIZE - 1)) = seg_end s"
    "unat (pageAlignDown (virtualAddress s)) = unat (virtualAddress s)"
proof -
  have "virtualAddress s + memSize s + ELF_PAGE_SIZE - 1 = virtualAddress s + memSize s + 4095"
    by (simp add: ELF_PAGE_SIZE_def)
  moreover have "unat (virtualAddress s + memSize s + 4095) = unat (virtualAddress s) + unat (memSize s) + 4095"
    using assms by (simp add: seg_safe_def unat_word_ariths)
  ultimately show "unat (pageAlignDown (virtualAddress s + memSize s + ELF_PAGE_SIZE - 1)) = seg_end s"
    by (simp only: unat_pageAlignDown seg_end_def)
  show "unat (pageAlignDown (virtualAddress s)) = unat (virtualAddress s)"
    using assms by (auto simp: unat_pageAlignDown seg_safe_def)
qed

lemma overlaps_planned_iff:
  assumes "seg_safe len s" "\<forall>j \<in> set js. seg_safe len (segments plan ! j)"
  shows "overlaps_planned plan (pageAlignDown (virtualAddress s))
      (pageAlignDown (virtualAddress s + memSize s + ELF_PAGE_SIZE - 1)) js \<longleftrightarrow>
    (\<exists>j \<in> set js. \<not> seg_apart s (segments plan ! j))"
  using assms(2)
  by (induction js)
     (auto simp: Let_def rangesOverlap_def word_less_nat_alt seg_end_word [OF assms(1)] seg_end_word seg_apart_def)

lemma pairwise_apart_snoc: "pairwise_apart (ss @ [s]) \<longleftrightarrow> pairwise_apart ss \<and> (\<forall>t \<in> set ss. seg_apart s t)"
  by (induction ss) auto

lemma narrow_sum: "(ucast ((ucast a :: u64) + ucast b) :: u32) = a + (b :: u32)"
  by (rule word_unat_eq_iff [THEN iffD2])
     (simp add: unsigned_ucast_eq unat_widen_sum take_bit_eq_mod unat_word_ariths mod_mod_cancel)

definition checked_segment :: "u32 \<Rightarrow> u32 \<Rightarrow> u32 \<Rightarrow> u32 \<Rightarrow> u32 \<Rightarrow> ElfSegmentPlan" where
  "checked_segment p_offset p_vaddr p_filesz p_memsz p_flags =
     \<lparr>virtualAddress = p_vaddr, fileOffset = p_offset, fileSize = p_filesz, memSize = p_memsz,
      writable = (p_flags AND PF_W \<noteq> 0), executable = (p_flags AND PF_X \<noteq> 0)\<rparr>"

text \<open>An accepted header extends the plan by one segment that passed every check.\<close>

lemma plan_segment_accepts:
  assumes "plan_segment imageSize plan p_offset p_vaddr p_filesz p_memsz p_flags = (Elf_None, plan')"
  defines "s \<equiv> checked_segment p_offset p_vaddr p_filesz p_memsz p_flags"
  shows "seg_safe (unat imageSize) s" "segmentCount plan < 4"
    "\<not> overlaps_planned plan (pageAlignDown (virtualAddress s))
        (pageAlignDown (virtualAddress s + memSize s + ELF_PAGE_SIZE - 1)) [0..<unat (segmentCount plan)]"
    "plan' = plan\<lparr>segments := (segments plan)[unat (segmentCount plan) := s], segmentCount := segmentCount plan + 1,
       totalPages := totalPages plan + (if (p_memsz + ELF_PAGE_SIZE - 1) div ELF_PAGE_SIZE = 0 then 1
          else (p_memsz + ELF_PAGE_SIZE - 1) div ELF_PAGE_SIZE)\<rparr>"
    "totalPages plan' \<le> 8"
proof -
  have "unat ((ucast ELF_SEGMENT_VIRTUAL_BASE :: u64) + ucast ELF_MAX_PAGES * ucast ELF_PAGE_SIZE) = 0x01000000 + 8 * 4096"
    "unat (ucast ELF_SEGMENT_VIRTUAL_BASE :: u64) = 0x01000000"
    by (simp_all add: elf_consts)
  then show "seg_safe (unat imageSize) s"
    using assms(1)
    by (auto simp: plan_segment_def Let_def s_def checked_segment_def seg_safe_def isPageAligned_iff not_less
        word_less_nat_alt word_le_nat_alt unat_widen_sum split: if_splits)
  show "segmentCount plan < 4" "totalPages plan' \<le> 8"
    using assms(1) by (auto simp: plan_segment_def Let_def elf_consts not_le not_less split: if_splits)
  show "\<not> overlaps_planned plan (pageAlignDown (virtualAddress s))
        (pageAlignDown (virtualAddress s + memSize s + ELF_PAGE_SIZE - 1)) [0..<unat (segmentCount plan)]"
    using assms(1)
    by (auto simp: plan_segment_def Let_def s_def checked_segment_def narrow_sum split: if_splits)
  show "plan' = plan\<lparr>segments := (segments plan)[unat (segmentCount plan) := s], segmentCount := segmentCount plan + 1,
       totalPages := totalPages plan + (if (p_memsz + ELF_PAGE_SIZE - 1) div ELF_PAGE_SIZE = 0 then 1
          else (p_memsz + ELF_PAGE_SIZE - 1) div ELF_PAGE_SIZE)\<rparr>"
    using assms(1) by (auto simp: plan_segment_def Let_def s_def checked_segment_def split: if_splits)
qed

lemma segment_page_count:
  assumes "seg_safe len s"
  defines "w \<equiv> (memSize s + ELF_PAGE_SIZE - 1) div ELF_PAGE_SIZE"
  shows "unat (if w = 0 then 1 else w) = seg_pages s" "seg_pages s \<le> 8"
proof -
  have "memSize s + ELF_PAGE_SIZE - 1 = memSize s + 4095"
    by (simp add: ELF_PAGE_SIZE_def)
  moreover have "unat (memSize s + 4095) = unat (memSize s) + 4095"
    using assms(1) by (simp add: seg_safe_def unat_word_ariths)
  ultimately have "unat w = (unat (memSize s) + 4095) div 4096"
    unfolding w_def by (simp only: unat_div_distrib) (simp add: ELF_PAGE_SIZE_def)
  then show "unat (if w = 0 then 1 else w) = seg_pages s"
    by (cases "w = 0") (auto simp: seg_pages_def max_def unat_eq_zero [symmetric])
  have "unat (memSize s) + 4095 \<le> 8 * 4096 + 4095"
    using assms(1) by (simp add: seg_safe_def)
  from div_le_mono [OF this, of 4096] show "seg_pages s \<le> 8"
    by (simp add: seg_pages_def)
qed

lemma plan_segment_inv:
  assumes inv: "plan_inv (unat imageSize) plan"
    and ok: "plan_segment imageSize plan p_offset p_vaddr p_filesz p_memsz p_flags = (Elf_None, plan')"
  shows "plan_inv (unat imageSize) plan'" "entryPoint plan' = entryPoint plan"
proof -
  define s where "s = checked_segment p_offset p_vaddr p_filesz p_memsz p_flags"
  define n where "n = unat (segmentCount plan)"
  note acc = plan_segment_accepts [OF ok, folded s_def n_def]
  have mem: "memSize s = p_memsz"
    by (simp add: s_def checked_segment_def)
  note pages = segment_page_count [OF acc(1), unfolded mem]
  have n: "n < 4" "length (segments plan) = 4"
    using acc(2) inv by (simp_all add: n_def word_less_nat_alt plan_inv_def)
  have cnt: "unat (segmentCount plan + 1) = n + 1"
    using n by (simp add: n_def unat_word_ariths)
  have pl: "planned plan' = planned plan @ [s]"
    using n cnt unfolding acc(4) by (simp add: planned_def n_def [symmetric] take_Suc_conv_app_nth)
  have "\<forall>j \<in> set [0..<n]. seg_safe (unat imageSize) (segments plan ! j)"
    using inv n by (force simp: plan_inv_def planned_def n_def [symmetric] in_set_conv_nth)
  then have "\<forall>j < n. seg_apart s (segments plan ! j)"
    using acc(3) overlaps_planned_iff [OF acc(1)] by auto
  then have apart: "\<forall>t \<in> set (planned plan). seg_apart s t"
    using n by (auto simp: planned_def n_def [symmetric] in_set_conv_nth)
  have "unat (totalPages plan') = unat (totalPages plan) + seg_pages s"
    using pages inv unfolding acc(4) by (simp add: plan_inv_def unat_word_ariths)
  then show "plan_inv (unat imageSize) plan'"
    using inv acc(1,5) apart cnt n pl unfolding plan_inv_def
    by (auto simp: pairwise_apart_snoc acc(4) word_le_nat_alt)
  show "entryPoint plan' = entryPoint plan"
    by (simp add: acc(4))
qed

lemma plan_headers_total:
  assumes "\<forall>i \<in> set is. phoff + i * phentsize + 32 \<le> length img"
  shows "\<exists>err plan'. plan_headers img imageSize phoff phentsize plan is = Some (err, plan')"
  using assms
proof (induction "is" arbitrary: plan)
  case (Cons i "is")
  have rd: "\<exists>w. elf_readU32 img (phoff + i * phentsize + k) = Some w" if "k + 4 \<le> 32" for k
    using Cons.prems that by (intro elf_readU32_total) auto
  from rd [of 0] rd [of 4] rd [of 8] rd [of 16] rd [of 20] rd [of 24] show ?case
    using Cons.IH Cons.prems by (auto simp: Let_def split: prod.splits)
qed simp

lemma plan_headers_inv:
  assumes "plan_headers img imageSize phoff phentsize plan is = Some (Elf_None, plan')" "plan_inv (unat imageSize) plan"
  shows "plan_inv (unat imageSize) plan' \<and> entryPoint plan' = entryPoint plan"
  using assms
proof (induction "is" arbitrary: plan)
  case (Cons i "is")
  obtain p_type where ty: "elf_readU32 img (phoff + i * phentsize) = Some p_type"
    using Cons.prems(1) by (auto simp: Let_def bind_eq_Some_conv)
  show ?case
  proof (cases "p_type = PT_LOAD")
    case False
    then show ?thesis
      using Cons ty by (simp add: Let_def)
  next
    case True
    then obtain p_offset p_vaddr p_filesz p_memsz p_flags where
      fields: "(case plan_segment imageSize plan p_offset p_vaddr p_filesz p_memsz p_flags of (err, plan') \<Rightarrow>
           if err \<noteq> Elf_None then Some (err, plan') else plan_headers img imageSize phoff phentsize plan' is)
         = Some (Elf_None, plan')"
      using Cons.prems(1) ty by (auto simp: Let_def bind_eq_Some_conv)
    obtain err plan1 where seg: "plan_segment imageSize plan p_offset p_vaddr p_filesz p_memsz p_flags = (err, plan1)"
      by fastforce
    then have "err = Elf_None" "plan_headers img imageSize phoff phentsize plan1 is = Some (Elf_None, plan')"
      using fields by (auto split: if_splits)
    then show ?thesis
      using Cons.IH plan_segment_inv [OF Cons.prems(2)] seg by simp
  qed
qed simp

section \<open>The accepted plans\<close>

definition plan_safe :: "bytes \<Rightarrow> ElfLoadPlan \<Rightarrow> bool" where
  "plan_safe img plan \<longleftrightarrow> 0 < unat (segmentCount plan) \<and> plan_inv (length img) plan \<and>
     (\<exists>s \<in> set (planned plan). executable s \<and> unat (virtualAddress s) \<le> unat (entryPoint plan) \<and>
        unat (entryPoint plan) < unat (virtualAddress s) + unat (memSize s))"

lemma entry_valid_iff: "entry_valid plan entry is \<longleftrightarrow> (\<exists>i \<in> set is. entry_in entry (segments plan ! i))"
  by (induction "is") auto

lemma entry_in_iff: "entry_in e s \<longleftrightarrow> executable s \<and> unat (virtualAddress s) \<le> unat e \<and>
    unat e < unat (virtualAddress s) + unat (memSize s)"
  by (auto simp: entry_in_def word_less_nat_alt word_le_nat_alt unat_widen_sum)

lemma plan_program_sound:
  assumes prog: "plan_program img imageSize entry phoff phentsize phnum plan0 = Some (Elf_None, plan)"
    and len: "length img = unat imageSize" "length (segments plan0) = 4"
  shows "plan_safe img plan"
proof -
  let ?start = "plan0\<lparr>entryPoint := entry, segmentCount := 0, totalPages := 0\<rparr>"
  from prog have hdrs: "plan_headers img imageSize (unat phoff) (unat phentsize) ?start [0..<unat phnum] = Some (Elf_None, plan)"
    and cnt: "segmentCount plan \<noteq> 0" and ent: "entry_valid plan entry [0..<unat (segmentCount plan)]"
    by (auto simp: plan_program_def Let_def bind_eq_Some_conv split: if_splits)
  have "plan_inv (unat imageSize) ?start"
    using len(2) by (simp add: plan_inv_def planned_def)
  from plan_headers_inv [OF hdrs this] have inv: "plan_inv (unat imageSize) plan" "entryPoint plan = entry"
    by simp_all
  obtain i where i: "i < unat (segmentCount plan)" "entry_in entry (segments plan ! i)"
    using ent by (auto simp: entry_valid_iff)
  have "segments plan ! i \<in> set (planned plan)"
    using i(1) inv(1) by (auto simp: planned_def plan_inv_def in_set_conv_nth intro!: exI [of _ i])
  with i(2) inv cnt len show ?thesis
    by (auto simp: plan_safe_def entry_in_iff unat_gt_0)
qed

lemma plan_program_total:
  assumes "unat phoff + unat phnum * 32 \<le> length img"
  shows "\<exists>r. plan_program img imageSize entry phoff PHDR_SIZE phnum plan0 = Some r"
proof -
  have "unat PHDR_SIZE = 32"
    by (simp add: PHDR_SIZE_def)
  moreover have "unat phoff + i * 32 + 32 \<le> length img" if "i < unat phnum" for i
  proof -
    have "Suc i * 32 \<le> unat phnum * 32"
      using that by (intro mult_le_mono1) simp
    with assms show ?thesis
      by simp
  qed
  ultimately show ?thesis
    using plan_headers_total [of "[0..<unat phnum]" "unat phoff" "unat PHDR_SIZE" img imageSize
        "plan0\<lparr>entryPoint := entry, segmentCount := 0, totalPages := 0\<rparr>"]
    by (auto simp: plan_program_def Let_def)
qed

lemma table_end:
  assumes "unat (phnum :: u16) \<le> 4"
  shows "unat ((ucast (phoff :: u32) :: u64) + ucast phnum * ucast PHDR_SIZE) = unat phoff + unat phnum * 32"
proof -
  have "unat (ucast phnum :: u64) = unat phnum"
    using assms by (simp add: unsigned_ucast_eq take_bit_nat_eq_self)
  moreover have "unat (ucast PHDR_SIZE :: u64) = 32"
    by (simp add: PHDR_SIZE_def)
  ultimately show ?thesis
    using assms unsigned_less [of phoff, where 'a = nat] by (simp add: unat_word_ariths)
qed

lemma phnum_bound: "\<not> ucast (phnum :: u16) > ELF_MAX_SEGMENTS \<Longrightarrow> unat phnum \<le> 4"
proof -
  have "unat (ucast phnum :: u32) = unat phnum"
    using unsigned_less [of phnum, where 'a = nat] by (simp add: unsigned_ucast_eq take_bit_nat_eq_self)
  then show "\<not> ucast phnum > ELF_MAX_SEGMENTS \<Longrightarrow> unat phnum \<le> 4"
    by (simp add: word_less_nat_alt ELF_MAX_SEGMENTS_def)
qed

text \<open>Past the header checks the outcome is that of \<open>plan_program\<close>, whose table lies inside the image.\<close>

lemma elf_validate_cases:
  assumes "length img = unat imageSize"
  obtains e where "e \<noteq> Elf_None" "elf_validate_and_plan img imageSize plan0 = Some (e, plan0)"
  | entry phoff phnum where "unat phoff + unat phnum * 32 \<le> length img"
      "elf_validate_and_plan img imageSize plan0 = plan_program img imageSize entry phoff PHDR_SIZE phnum plan0"
proof (cases "imageSize < EHDR_SIZE")
  case True
  then show ?thesis
    using that(1) by (simp add: elf_validate_and_plan_def)
next
  case False
  then have big: "52 \<le> length img"
    using assms by (simp add: EHDR_SIZE_def word_less_nat_alt)
  then obtain type machine entry phoff phentsize phnum where
    rd: "elf_readU16 img 16 = Some type" "elf_readU16 img 18 = Some machine" "elf_readU32 img 24 = Some entry"
      "elf_readU32 img 28 = Some phoff" "elf_readU16 img 42 = Some phentsize" "elf_readU16 img 44 = Some phnum"
    using elf_readU16_total [of 16 img] elf_readU16_total [of 18 img] elf_readU32_total [of 24 img]
      elf_readU32_total [of 28 img] elf_readU16_total [of 42 img] elf_readU16_total [of 44 img] by auto
  have at: "image_at img k = Some (img ! k)" if "k < 52" for k
    using big that by simp
  have bound: "unat phoff + unat phnum * 32 \<le> length img"
    if "\<not> ucast phnum > ELF_MAX_SEGMENTS" "\<not> (ucast phoff :: u64) + ucast phnum * ucast PHDR_SIZE > ucast imageSize"
    using that(2) table_end [OF phnum_bound [OF that(1)], of phoff] assms by (simp add: word_less_nat_alt)
  let ?magic = "img ! 0 \<noteq> 127 \<or> img ! 1 \<noteq> 69 \<or> img ! 2 \<noteq> 76 \<or> img ! 3 \<noteq> 70"
    and ?past = "(ucast phoff :: u64) + ucast phnum * ucast phentsize > ucast imageSize"
  have flat: "elf_validate_and_plan img imageSize plan0 =
     (if ?magic then Some (BadMagic, plan0)
      else if img ! 4 \<noteq> 1 then Some (UnsupportedClass, plan0)
      else if img ! 5 \<noteq> 1 then Some (UnsupportedEndianness, plan0)
      else if img ! 6 \<noteq> 1 then Some (UnsupportedVersion, plan0)
      else if type \<noteq> 2 then Some (UnsupportedType, plan0)
      else if machine \<noteq> 3 then Some (UnsupportedMachine, plan0)
      else if phnum = 0 then Some (NoLoadSegments, plan0)
      else if ucast phnum > ELF_MAX_SEGMENTS then Some (TooManySegments, plan0)
      else if phentsize \<noteq> PHDR_SIZE then Some (ProgramHeaderTableOutOfBounds, plan0)
      else if ?past then Some (ProgramHeaderTableOutOfBounds, plan0)
      else plan_program img imageSize entry phoff phentsize phnum plan0)"
    using False by (simp add: elf_validate_and_plan_def rd at)
  show ?thesis
  proof (cases "?magic \<or> img ! 4 \<noteq> 1 \<or> img ! 5 \<noteq> 1 \<or> img ! 6 \<noteq> 1 \<or> type \<noteq> 2 \<or> machine \<noteq> 3 \<or> phnum = 0 \<or>
      ucast phnum > ELF_MAX_SEGMENTS \<or> phentsize \<noteq> PHDR_SIZE \<or> ?past")
    case True
    then have "elf_validate_and_plan img imageSize plan0 \<in> (\<lambda>e. Some (e, plan0)) ` (- {Elf_None})"
      unfolding flat by (auto split: if_split)
    then show ?thesis
      using that(1) by blast
  next
    case False
    then show ?thesis
      using that(2) bound unfolding flat by simp
  qed
qed

section \<open>Properties\<close>

text \<open>
  C33. The ELF validation never reads outside the image, whatever bytes it holds, and it always
  returns. A plan it accepts is safe to load: it has 1 to 4 segments on at most 8 pages, each
  segment's bytes lie in the file, its memory is at least its file part, page aligned and inside
  the window of eight pages, the page ranges of two segments do not overlap (that of a zero-sized segment is empty), and the entry point
  lies in an executable segment.
\<close>

theorem elf_plan_sound:
  assumes "length img = unat imageSize" "length (segments plan0) = 4"
  shows "\<exists>e plan. elf_validate_and_plan img imageSize plan0 = Some (e, plan) \<and> (e = Elf_None \<longrightarrow> plan_safe img plan)"
  using assms(1)
proof (rule elf_validate_cases [of img imageSize plan0])
  fix e assume "e \<noteq> Elf_None" "elf_validate_and_plan img imageSize plan0 = Some (e, plan0)"
  then show ?thesis
    by blast
next
  fix entry phoff phnum
  assume *: "unat phoff + unat phnum * 32 \<le> length img"
    "elf_validate_and_plan img imageSize plan0 = plan_program img imageSize entry phoff PHDR_SIZE phnum plan0"
  from plan_program_total [OF *(1)] plan_program_sound [OF _ assms] show ?thesis
    unfolding *(2) by (metis surj_pair)
qed

definition sample_header :: "u8 \<Rightarrow> bytes" where
  "sample_header phnum = [127, 69, 76, 70, 1, 1, 1, 0, 0, 0, 0, 0, 0, 0, 0, 0, 2, 0, 3, 0, 1, 0, 0, 0,
     0, 0, 0, 1, 52, 0, 0, 0, 0, 0, 0, 0, 0, 0, 0, 0, 52, 0, 32, 0, phnum, 0, 40, 0, 0, 0, 0, 0]"

definition sample_phdr :: "u8 \<Rightarrow> u8 \<Rightarrow> u8 \<Rightarrow> bytes" where
  "sample_phdr page len flags = [1, 0, 0, 0, 0, 0, 0, 0, 0, page, 0, 1, 0, page, 0, 1,
     len, 0, 0, 0, len, 0, 0, 0, flags, 0, 0, 0, 0, 16, 0, 0]"

definition blank_plan :: ElfLoadPlan where
  "blank_plan = \<lparr>entryPoint = 0, segmentCount = 0,
     segments = replicate 4 \<lparr>virtualAddress = 0, fileOffset = 0, fileSize = 0, memSize = 0, writable = False, executable = False\<rparr>,
     totalPages = 0\<rparr>"

theorem elf_plan_sound_witness:
  "let img = sample_header 1 @ sample_phdr 0 84 5
   in \<exists>e plan. elf_validate_and_plan img 84 blank_plan = Some (e, plan) \<and> (e \<noteq> Elf_None \<or> plan_safe img plan)"
  using elf_plan_sound [of "sample_header 1 @ sample_phdr 0 84 5" 84 blank_plan]
  by (simp add: Let_def sample_header_def sample_phdr_def blank_plan_def)








end
