(* ===== verification/Paging.thy ===== *)
theory Paging
  imports Frames
begin

text \<open>
  Address spaces, \<^verbatim>\<open>22-os/paging/paging.cpp\<close>. Physical memory is a function from addresses to bytes;
  page directories and page tables are little-endian words in it, written through their physical
  address as the code does. The addresses the linker gives \<^verbatim>\<open>kernelDirectory\<close> and
  \<^verbatim>\<open>identityTables\<close> are arguments (\<open>klayout\<close>); \<open>mmu_walk\<close> is the two-level walk of the
  processor. The translation look-aside buffer and the privilege of the running code are not modelled.
\<close>

definition PAGE_SIZE_BYTES :: u32 where "PAGE_SIZE_BYTES = 4096"
definition ENTRIES_PER_TABLE :: nat where "ENTRIES_PER_TABLE = 1024"
definition IDENTITY_MAPPED_TABLES :: nat where "IDENTITY_MAPPED_TABLES = 4"
definition PAGE_PRESENT :: u32 where "PAGE_PRESENT = 1"
definition PAGE_WRITABLE :: u32 where "PAGE_WRITABLE = 2"
definition PAGE_USER :: u32 where "PAGE_USER = 4"
definition PAGE_ADDRESS_MASK :: u32 where "PAGE_ADDRESS_MASK = 4294963200"

record klayout =
  kernelDirectory :: u32
  identityTables :: u32

record machine =
  phys :: "u32 \<Rightarrow> u8"
  pm :: frames
  cr3 :: u32
  paging_on :: bool

text \<open>32-bit loads and stores of the processor, little endian.\<close>

definition load32 :: "(u32 \<Rightarrow> u8) \<Rightarrow> u32 \<Rightarrow> u32" where
  "load32 ph a = word32_be (ph (a + 3)) (ph (a + 2)) (ph (a + 1)) (ph a)"

definition store32 :: "(u32 \<Rightarrow> u8) \<Rightarrow> u32 \<Rightarrow> u32 \<Rightarrow> (u32 \<Rightarrow> u8)" where
  "store32 ph a v = ph(a := byte_at 0 v, a + 1 := byte_at 8 v, a + 2 := byte_at 16 v, a + 3 := byte_at 24 v)"

text \<open>\<open>slot p i\<close> is the address of \<^verbatim>\<open>p[i]\<close> for a \<^verbatim>\<open>uint32_t* p\<close>.\<close>

definition slot :: "u32 \<Rightarrow> u32 \<Rightarrow> u32" where "slot p i = p + 4 * i"

definition pdeIndexFor :: "u32 \<Rightarrow> u32" where "pdeIndexFor vaddr = drop_bit 22 vaddr"
definition pteIndexFor :: "u32 \<Rightarrow> u32" where "pteIndexFor vaddr = drop_bit 12 vaddr AND 0x3FF"

definition init_table :: "klayout \<Rightarrow> (u32 \<Rightarrow> u8) \<Rightarrow> nat \<Rightarrow> (u32 \<Rightarrow> u8)" where
  "init_table k ph t =
     (let base = identityTables k + 4096 * word_of_nat t;
          ph1 = foldl (\<lambda>ph i.
            let physicalPage = (word_of_nat t * word_of_nat ENTRIES_PER_TABLE + word_of_nat i) * PAGE_SIZE_BYTES
            in store32 ph (slot base (word_of_nat i)) (physicalPage OR PAGE_PRESENT OR PAGE_WRITABLE)) ph [0..<ENTRIES_PER_TABLE]
      in store32 ph1 (slot (kernelDirectory k) (word_of_nat t)) (base OR PAGE_PRESENT OR PAGE_WRITABLE OR PAGE_USER))"

definition paging_init :: "klayout \<Rightarrow> machine \<Rightarrow> machine" where
  "paging_init k m =
     (let ph1 = foldl (init_table k) (phys m) [0..<IDENTITY_MAPPED_TABLES];
          ph2 = foldl (\<lambda>ph d. store32 ph (slot (kernelDirectory k) (word_of_nat d)) 0) ph1
                  [IDENTITY_MAPPED_TABLES..<ENTRIES_PER_TABLE]
      in m\<lparr>phys := ph2, cr3 := kernelDirectory k, paging_on := True\<rparr>)"

definition paging_kernel_address_space :: "klayout \<Rightarrow> u32" where
  "paging_kernel_address_space k = kernelDirectory k"

text \<open>The loop \<^verbatim>\<open>p[i] = 0\<close> over a whole table.\<close>

definition clear_table :: "(u32 \<Rightarrow> u8) \<Rightarrow> u32 \<Rightarrow> (u32 \<Rightarrow> u8)" where
  "clear_table ph p = foldl (\<lambda>ph i. store32 ph (slot p (word_of_nat i)) 0) ph [0..<ENTRIES_PER_TABLE]"

definition paging_create_address_space :: "klayout \<Rightarrow> machine \<Rightarrow> u32 \<times> machine" where
  "paging_create_address_space k m =
     (let (dirPhys, pm') = memory_alloc_page (pm m); m1 = m\<lparr>pm := pm'\<rparr> in
      if dirPhys = 0 then (0, m1)
      else
        let ph1 = clear_table (phys m1) dirPhys;
            ph2 = foldl (\<lambda>ph t. store32 ph (slot dirPhys (word_of_nat t)) (load32 ph (slot (kernelDirectory k) (word_of_nat t))))
                    ph1 [0..<IDENTITY_MAPPED_TABLES]
        in (dirPhys, m1\<lparr>phys := ph2\<rparr>))"

text \<open>The present table of a directory entry, or a fresh one that is entered there; 0 when no page is left.\<close>

definition table_for :: "machine \<Rightarrow> u32 \<Rightarrow> u32 \<Rightarrow> u32 \<times> machine" where
  "table_for m dir pdeIndex =
     (if load32 (phys m) (slot dir pdeIndex) AND PAGE_PRESENT = 0
      then
        let (tablePhys, pm') = memory_alloc_page (pm m); m1 = m\<lparr>pm := pm'\<rparr> in
        if tablePhys = 0 then (0, m1)
        else (tablePhys, m1\<lparr>phys := store32 (clear_table (phys m1) tablePhys) (slot dir pdeIndex)
                                      (tablePhys OR PAGE_PRESENT OR PAGE_WRITABLE OR PAGE_USER)\<rparr>)
      else (load32 (phys m) (slot dir pdeIndex) AND PAGE_ADDRESS_MASK, m))"

definition paging_map_user_page :: "machine \<Rightarrow> u32 \<Rightarrow> u32 \<Rightarrow> u32 \<Rightarrow> bool \<Rightarrow> bool \<times> machine" where
  "paging_map_user_page m addressSpace virtualAddress physicalPage wr =
     (if virtualAddress mod PAGE_SIZE_BYTES \<noteq> 0 \<or> physicalPage mod PAGE_SIZE_BYTES \<noteq> 0 then (False, m)
      else
        let pdeIndex = pdeIndexFor virtualAddress in
        if pdeIndex < word_of_nat IDENTITY_MAPPED_TABLES then (False, m)
        else
          let fresh = (load32 (phys m) (slot addressSpace pdeIndex) AND PAGE_PRESENT = 0);
              (table, m1) = table_for m addressSpace pdeIndex
          in
          if fresh \<and> table = 0 then (False, m1)
          else
            (True, m1\<lparr>phys := store32 (phys m1) (slot table (pteIndexFor virtualAddress))
               ((physicalPage AND PAGE_ADDRESS_MASK) OR PAGE_PRESENT OR PAGE_USER OR (if wr then PAGE_WRITABLE else 0))\<rparr>))"

definition paging_switch_address_space :: "machine \<Rightarrow> u32 \<Rightarrow> machine" where
  "paging_switch_address_space m addressSpace = m\<lparr>cr3 := addressSpace\<rparr>"

fun destroy_loop :: "machine \<Rightarrow> u32 \<Rightarrow> nat list \<Rightarrow> machine" where
  "destroy_loop m dir [] = m"
| "destroy_loop m dir (i # is) =
     (let e = load32 (phys m) (slot dir (word_of_nat i)) in
      if e AND PAGE_PRESENT \<noteq> 0
      then
        let tablePhys = e AND PAGE_ADDRESS_MASK;
            m1 = m\<lparr>pm := memory_free_page (pm m) tablePhys\<rparr>
        in destroy_loop (m1\<lparr>phys := store32 (phys m1) (slot dir (word_of_nat i)) 0\<rparr>) dir is
      else destroy_loop m dir is)"

definition paging_destroy_address_space :: "klayout \<Rightarrow> machine \<Rightarrow> u32 \<Rightarrow> machine" where
  "paging_destroy_address_space k m addressSpace =
     (if addressSpace = paging_kernel_address_space k then m
      else
        let m1 = destroy_loop m addressSpace [IDENTITY_MAPPED_TABLES..<ENTRIES_PER_TABLE]
        in m1\<lparr>pm := memory_free_page (pm m1) addressSpace\<rparr>)"

section \<open>Words in pages\<close>

definition page_of :: "u32 \<Rightarrow> u32" where "page_of a = a AND PAGE_ADDRESS_MASK"

definition aligned :: "u32 \<Rightarrow> bool" where "aligned a \<longleftrightarrow> unat a mod 4096 = 0"

lemma bit_address_mask: "bit PAGE_ADDRESS_MASK n \<longleftrightarrow> 12 \<le> n \<and> n < 32"
proof -
  have eq: "PAGE_ADDRESS_MASK = NOT (mask 12)"
    by (simp add: PAGE_ADDRESS_MASK_def mask_eq_exp_minus_1)
  show ?thesis
    unfolding eq bit_not_iff bit_mask_iff by (auto simp: possible_bit_word)
qed

lemma aligned_bits: "aligned a \<longleftrightarrow> (\<forall>n < 12. \<not> bit a n)"
proof -
  have "unat (take_bit 12 a) = unat a mod 4096"
    by (simp add: take_bit_eq_mod unat_mod_distrib)
  then have "aligned a \<longleftrightarrow> take_bit 12 a = 0"
    unfolding aligned_def by (metis unat_eq_zero)
  also have "\<dots> \<longleftrightarrow> (\<forall>n < 12. \<not> bit a n)"
    by (auto simp: bit_eq_iff bit_take_bit_iff)
  finally show ?thesis .
qed

lemma aligned_mod: "aligned a \<longleftrightarrow> a mod PAGE_SIZE_BYTES = 0"
  unfolding aligned_def PAGE_SIZE_BYTES_def by (simp add: word_unat_eq_iff unat_mod_distrib)

lemma page_of_aligned: "aligned p \<Longrightarrow> page_of p = p"
  unfolding page_of_def aligned_bits
  by (rule bit_word_eqI) (auto simp: bit_and_iff bit_address_mask intro: leI)

lemma aligned_page_of [simp]: "aligned (page_of a)"
  by (simp add: aligned_bits page_of_def bit_and_iff bit_address_mask)

lemma unat_page_of: "unat (page_of a) = unat a div 4096 * 4096"
proof -
  have "page_of a = push_bit 12 (drop_bit 12 a)"
    by (rule bit_word_eqI) (auto simp: page_of_def bit_and_iff bit_address_mask bit_push_bit_iff bit_drop_bit_eq)
  then have "unat (page_of a) = unat (drop_bit 12 a) * 4096 mod 2 ^ 32"
    by (simp add: push_bit_eq_mult unat_word_ariths)
  also have "unat (drop_bit 12 a) = unat a div 4096"
    by (simp add: drop_bit_eq_div unat_div_distrib)
  also have "unat a div 4096 * 4096 mod 2 ^ 32 = unat a div 4096 * 4096"
    using unsigned_less [of a, where 'a = nat] by (simp add: less_mult_imp_div_less)
  finally show ?thesis .
qed

text \<open>Byte \<open>o\<close> of page \<open>p\<close>.\<close>

lemma page_byte:
  assumes "aligned p" "o' < 4096"
  shows "unat (p + word_of_nat o') = unat p + o'" "page_of (p + word_of_nat o') = p"
proof -
  have "4096 dvd unat p"
    using assms(1) by (simp add: aligned_def mod_eq_0_iff_dvd)
  then obtain k where k: "unat p = 4096 * k"
    by (rule dvdE)
  then have "k < 1048576"
    using unsigned_less [of p, where 'a = nat] by simp
  then have "unat p + o' < 2 ^ 32"
    using assms(2) k by simp
  moreover from this have "unat (word_of_nat o' :: u32) = o'"
    by (intro unat_word_of_nat_32) simp
  ultimately show u: "unat (p + word_of_nat o') = unat p + o'"
    by (simp only: unat_word_ariths(1)) simp
  have "(4096 * k + o') div 4096 = k"
    using assms(2) by simp
  then have "unat (page_of (p + word_of_nat o')) = unat p"
    by (simp only: unat_page_of u k mult.commute)
  then show "page_of (p + word_of_nat o') = p"
    by (simp only: word_unat_eq_iff)
qed

lemma slot_byte:
  assumes "aligned p" "i < 1024" "c < 4"
  shows "unat (slot p i + word_of_nat c) = unat p + (4 * unat i + c)" "page_of (slot p i + word_of_nat c) = p"
proof -
  have o: "4 * unat i + c < 4096"
    using assms(2,3) by (simp add: word_less_nat_alt)
  have "slot p i + word_of_nat c = p + word_of_nat (4 * unat i + c)"
    by (simp add: slot_def)
  with page_byte [OF assms(1) o] show "unat (slot p i + word_of_nat c) = unat p + (4 * unat i + c)"
    "page_of (slot p i + word_of_nat c) = p"
    by (simp_all only:)
qed

lemmas slot_page = slot_byte(2) [where c = 0, simplified] slot_byte(2) [where c = 1, simplified]
  slot_byte(2) [where c = 2, simplified] slot_byte(2) [where c = 3, simplified]

lemma slot_byte_eq:
  assumes "aligned p" "aligned q" "i < 1024" "j < 1024" "c < 4" "d < 4"
  shows "slot p i + word_of_nat c = slot q j + word_of_nat d \<longleftrightarrow> p = q \<and> i = j \<and> c = d"
proof
  assume eq: "slot p i + word_of_nat c = slot q j + word_of_nat d"
  have "p = q"
    using slot_byte(2) [OF assms(1,3,5)] slot_byte(2) [OF assms(2,4,6)] eq by simp
  moreover from this have off: "4 * unat i + c = 4 * unat j + d"
    using slot_byte(1) [OF assms(1,3,5)] slot_byte(1) [OF assms(2,4,6)] eq by simp
  then have "c = d"
    using assms(5,6) by presburger
  with off have "i = j"
    by (simp add: word_unat_eq_iff)
  ultimately show "p = q \<and> i = j \<and> c = d"
    using \<open>c = d\<close> by simp
qed simp

lemma store32_frame: "aligned p \<Longrightarrow> i < 1024 \<Longrightarrow> page_of a \<noteq> p \<Longrightarrow> store32 ph (slot p i) v a = ph a"
  by (auto simp: store32_def slot_page)

lemma load32_store32_same: "load32 (store32 ph a v) a = v"
proof -
  have "a + 1 \<noteq> a" "a + 2 \<noteq> a" "a + 3 \<noteq> a" "a + 2 \<noteq> a + 1" "a + 3 \<noteq> a + 1" "a + 3 \<noteq> a + 2" for a :: u32
    by simp_all
  then show ?thesis
    by (simp add: load32_def store32_def)
qed

lemma load32_store32:
  assumes "aligned p" "aligned q" "i < 1024" "j < 1024"
  shows "load32 (store32 ph (slot p i) v) (slot q j) = (if p = q \<and> i = j then v else load32 ph (slot q j))"
proof (cases "p = q \<and> i = j")
  case False
  have ne: "slot q j + word_of_nat d \<noteq> slot p i + word_of_nat c" if "c < 4" "d < 4" for c d
    using slot_byte_eq [OF assms that] False by metis
  have "store32 ph (slot p i) v (slot q j + word_of_nat d) = ph (slot q j + word_of_nat d)" if "d < 4" for d
    using ne [of 0 d] ne [of 1 d] ne [of 2 d] ne [of 3 d] that by (simp add: store32_def)
  from this [of 0] this [of 1] this [of 2] this [of 3] show ?thesis
    using False by (auto simp: load32_def)
qed (simp add: load32_store32_same)

lemma load32_cong:
  assumes "aligned q" "j < 1024" "\<And>a. page_of a = q \<Longrightarrow> ph a = ph' a"
  shows "load32 ph (slot q j) = load32 ph' (slot q j)"
  using assms by (simp add: load32_def slot_page)


lemma word_index: "i < 1024 \<Longrightarrow> (word_of_nat i :: u32) < 1024" "j < 1024 \<Longrightarrow> word_of_nat (unat j) = (j :: u32)"
  by (simp_all add: word_less_nat_alt)

text \<open>A loop that stores into distinct words of one page.\<close>

lemma store_loop:
  assumes p: "aligned p" and "set is \<subseteq> {..<1024}"
  shows "page_of a \<noteq> p \<Longrightarrow> foldl (\<lambda>ph i. store32 ph (slot p (word_of_nat i)) (g i)) ph is a = ph a"
    "aligned q \<Longrightarrow> j < 1024 \<Longrightarrow> load32 (foldl (\<lambda>ph i. store32 ph (slot p (word_of_nat i)) (g i)) ph is) (slot q j) =
       (if p = q \<and> unat j \<in> set is then g (unat j) else load32 ph (slot q j))"
  using assms(2)
proof (induction "is" rule: rev_induct)
  case (snoc i "is")
  { case 1 then show ?case
      using snoc p by (simp add: store32_frame word_index) }
  { case 2
    have "word_of_nat i = j \<longleftrightarrow> i = unat j"
      using 2 by (auto simp: word_unat_eq_iff)
    with 2 show ?case
      using snoc p by (auto simp: load32_store32 word_index) }
qed simp_all

lemma clear_table_frame: "aligned p \<Longrightarrow> page_of a \<noteq> p \<Longrightarrow> clear_table ph p a = ph a"
  unfolding clear_table_def by (rule store_loop(1)) (auto simp: ENTRIES_PER_TABLE_def)

lemma load32_clear_table:
  assumes "aligned p" "aligned q" "j < 1024"
  shows "load32 (clear_table ph p) (slot q j) = (if p = q then 0 else load32 ph (slot q j))"
proof -
  have "unat j < 1024"
    using assms(3) by (simp add: word_less_nat_alt)
  then show ?thesis
    using assms unfolding clear_table_def ENTRIES_PER_TABLE_def by (subst store_loop(2)) auto
qed

section \<open>What the processor sees\<close>

definition mmu_walk :: "(u32 \<Rightarrow> u8) \<Rightarrow> u32 \<Rightarrow> u32 \<Rightarrow> (u32 \<times> bool \<times> bool) option" where
  "mmu_walk ph dir v =
     (let pde = load32 ph (slot dir (pdeIndexFor v)) in
      if pde AND PAGE_PRESENT = 0 then None
      else
        let pte = load32 ph (slot (pde AND PAGE_ADDRESS_MASK) (pteIndexFor v)) in
        if pte AND PAGE_PRESENT = 0 then None
        else Some (pte AND PAGE_ADDRESS_MASK, (pde AND pte) AND PAGE_USER \<noteq> 0, (pde AND pte) AND PAGE_WRITABLE \<noteq> 0))"

definition present :: "u32 \<Rightarrow> bool" where "present e \<longleftrightarrow> bit e 0"

lemma present_0 [simp]: "\<not> present 0"
  by (simp add: present_def)

lemma flag_and: "w AND PAGE_PRESENT = 0 \<longleftrightarrow> \<not> present w" "w AND PAGE_WRITABLE = 0 \<longleftrightarrow> \<not> bit w 1" "w AND PAGE_USER = 0 \<longleftrightarrow> \<not> bit w 2"
proof -
  have "w AND 2 ^ n = 0 \<longleftrightarrow> \<not> bit w n" if "n < 32" for n and w :: u32
  proof -
    have "bit (w AND 2 ^ n) j \<longleftrightarrow> j = n \<and> bit w n" for j
      using that by (auto simp: bit_and_iff bit_exp_iff possible_bit_word)
    then show ?thesis
      by (metis bit_0_eq bit_eqI bot_apply bot_bool_def)
  qed
  from this [of 0] this [of 1] this [of 2] show "w AND PAGE_PRESENT = 0 \<longleftrightarrow> \<not> present w"
    "w AND PAGE_WRITABLE = 0 \<longleftrightarrow> \<not> bit w 1" "w AND PAGE_USER = 0 \<longleftrightarrow> \<not> bit w 2"
    by (simp_all add: PAGE_PRESENT_def PAGE_WRITABLE_def PAGE_USER_def present_def)
qed

lemma bit_flags: "bit PAGE_PRESENT n \<longleftrightarrow> n = 0" "bit PAGE_WRITABLE n \<longleftrightarrow> n = 1" "bit PAGE_USER n \<longleftrightarrow> n = 2"
proof -
  have eq: "PAGE_PRESENT = 2 ^ 0" "PAGE_WRITABLE = 2 ^ 1" "PAGE_USER = 2 ^ 2"
    by (simp_all add: PAGE_PRESENT_def PAGE_WRITABLE_def PAGE_USER_def)
  show "bit PAGE_PRESENT n \<longleftrightarrow> n = 0" "bit PAGE_WRITABLE n \<longleftrightarrow> n = 1" "bit PAGE_USER n \<longleftrightarrow> n = 2"
    unfolding eq bit_exp_iff by (auto simp: possible_bit_word)
qed

lemma entry_flags:
  assumes "aligned p"
  shows "page_of (p OR PAGE_PRESENT OR PAGE_WRITABLE OR PAGE_USER) = p"
    "page_of (p OR PAGE_PRESENT OR PAGE_USER OR (if w then PAGE_WRITABLE else 0)) = p"
    "page_of (p OR PAGE_PRESENT OR PAGE_WRITABLE) = p"
  unfolding page_of_def
  by (rule bit_word_eqI, use assms in \<open>auto simp: bit_and_iff bit_or_iff bit_address_mask bit_flags aligned_bits intro: leI\<close>)+

lemma index_bounds: "pdeIndexFor v < 1024" "pteIndexFor v < 1024"
proof -
  show "pdeIndexFor v < 1024"
    using unsigned_less [of v, where 'a = nat]
    by (simp add: pdeIndexFor_def word_less_nat_alt drop_bit_eq_div unat_div_distrib less_mult_imp_div_less)
  have "(1023 :: u32) = mask 10"
    by (simp add: mask_eq_exp_minus_1)
  then have "pteIndexFor v = take_bit 10 (drop_bit 12 v)"
    by (simp only: pteIndexFor_def take_bit_eq_mask)
  then show "pteIndexFor v < 1024"
    by (simp add: take_bit_eq_mod word_less_nat_alt unat_mod_distrib)
qed

text \<open>Two page-aligned addresses with the same indices are the same page.\<close>

lemma index_inj:
  assumes "aligned v" "aligned v'" "pdeIndexFor v = pdeIndexFor v'" "pteIndexFor v = pteIndexFor v'"
  shows "v = v'"
proof (rule bit_word_eqI)
  fix n assume n: "n < LENGTH(32)"
  have "(1023 :: u32) = mask 10"
    by (simp add: mask_eq_exp_minus_1)
  then have pte: "bit (pteIndexFor w) k \<longleftrightarrow> k < 10 \<and> bit w (12 + k)" for w k
    by (simp only: pteIndexFor_def take_bit_eq_mask [symmetric]) (simp add: bit_take_bit_iff bit_drop_bit_eq)
  have pde: "bit (pdeIndexFor w) k \<longleftrightarrow> bit w (22 + k)" for w k
    by (simp add: pdeIndexFor_def bit_drop_bit_eq)
  consider "n < 12" | "12 \<le> n" "n < 22" | "22 \<le> n"
    by linarith
  then show "bit v n = bit v' n"
  proof cases
    case 1
    then show ?thesis
      using assms(1,2) by (simp add: aligned_bits)
  next
    case 2
    then show ?thesis
      using pte [of v "n - 12"] pte [of v' "n - 12"] assms(4) by auto
  next
    case 3
    then show ?thesis
      using pde [of v "n - 22"] pde [of v' "n - 22"] assms(3) by auto
  qed
qed


section \<open>Address spaces\<close>

text \<open>The pages a directory owns: itself and the tables of its user part.\<close>

definition user_index :: "u32 \<Rightarrow> bool" where "user_index i \<longleftrightarrow> 4 \<le> i \<and> i < 1024"

definition space_tables :: "(u32 \<Rightarrow> u8) \<Rightarrow> u32 \<Rightarrow> u32 set" where
  "space_tables ph dir = {page_of (load32 ph (slot dir i)) | i. user_index i \<and> present (load32 ph (slot dir i))}"

lemma space_tables_image: "space_tables ph dir = (\<lambda>i. page_of (load32 ph (slot dir i))) ` {i. user_index i \<and> present (load32 ph (slot dir i))}"
  by (auto simp: space_tables_def)

lemma table_in_space:
  assumes "user_index i" "present (load32 ph (slot dir i))"
  shows "page_of (load32 ph (slot dir i)) \<in> space_tables ph dir"
  using assms by (simp add: space_tables_image)

definition space_pages :: "(u32 \<Rightarrow> u8) \<Rightarrow> u32 \<Rightarrow> u32 set" where
  "space_pages ph dir = insert dir (space_tables ph dir)"

definition in_kernel :: "frames \<Rightarrow> u32 \<Rightarrow> bool" where
  "in_kernel fr a \<longleftrightarrow> unat a div 4096 < unat (reserved_pages fr)"

definition kernel_ok :: "klayout \<Rightarrow> machine \<Rightarrow> bool" where
  "kernel_ok k m \<longleftrightarrow> frames_ok (pm m) \<and> aligned (kernelDirectory k) \<and> in_kernel (pm m) (kernelDirectory k) \<and>
     (\<forall>i < 4. in_kernel (pm m) (page_of (load32 (phys m) (slot (kernelDirectory k) i))))"

definition space_ok :: "klayout \<Rightarrow> machine \<Rightarrow> u32 \<Rightarrow> bool" where
  "space_ok k m dir \<longleftrightarrow> space_pages (phys m) dir \<subseteq> live_pages (pm m) \<and> dir \<notin> space_tables (phys m) dir \<and>
     (\<forall>i j. user_index i \<and> user_index j \<and> present (load32 (phys m) (slot dir i)) \<and> present (load32 (phys m) (slot dir j)) \<and>
        page_of (load32 (phys m) (slot dir i)) = page_of (load32 (phys m) (slot dir j)) \<longrightarrow> i = j) \<and>
     (\<forall>i. user_index i \<and> present (load32 (phys m) (slot dir i)) \<longrightarrow>
        bit (load32 (phys m) (slot dir i)) 1 \<and> bit (load32 (phys m) (slot dir i)) 2) \<and>
     (\<forall>i < 4. load32 (phys m) (slot dir i) = load32 (phys m) (slot (kernelDirectory k) i))"

lemma live_aligned:
  assumes "a \<in> live_pages m"
  shows "aligned a"
proof -
  obtain p where p: "p < 4096" "a = word_of_nat p * 4096"
    using assms by (auto simp: live_pages_def used_set_def)
  then show ?thesis
    using page_index(1) [OF p(1)] by (simp add: aligned_def)
qed

lemma space_okD:
  assumes "space_ok k m dir"
  shows "dir \<in> live_pages (pm m)" "aligned dir" "t \<in> space_pages (phys m) dir \<Longrightarrow> t \<in> live_pages (pm m)"
    "t \<in> space_pages (phys m) dir \<Longrightarrow> aligned t" "dir \<notin> space_tables (phys m) dir"
    "i < 4 \<Longrightarrow> load32 (phys m) (slot dir i) = load32 (phys m) (slot (kernelDirectory k) i)"
proof -
  have sub: "space_pages (phys m) dir \<subseteq> live_pages (pm m)" and own: "dir \<in> space_pages (phys m) dir"
    using assms unfolding space_ok_def by (blast, simp add: space_pages_def)
  then show "dir \<in> live_pages (pm m)" "aligned dir" "t \<in> space_pages (phys m) dir \<Longrightarrow> t \<in> live_pages (pm m)"
    "t \<in> space_pages (phys m) dir \<Longrightarrow> aligned t"
    using live_aligned by blast+
  show "dir \<notin> space_tables (phys m) dir"
    "i < 4 \<Longrightarrow> load32 (phys m) (slot dir i) = load32 (phys m) (slot (kernelDirectory k) i)"
    using assms unfolding space_ok_def by blast+
qed

lemma space_ok_inj:
  assumes "space_ok k m dir" "user_index i" "user_index j" "present (load32 (phys m) (slot dir i))"
    "present (load32 (phys m) (slot dir j))" "page_of (load32 (phys m) (slot dir i)) = page_of (load32 (phys m) (slot dir j))"
  shows "i = j"
  using assms unfolding space_ok_def by blast

lemma space_ok_flags:
  assumes "space_ok k m dir" "user_index i" "present (load32 (phys m) (slot dir i))"
  shows "bit (load32 (phys m) (slot dir i)) 1 \<and> bit (load32 (phys m) (slot dir i)) 2"
  using assms unfolding space_ok_def by blast

lemma space_okI:
  assumes "space_pages (phys m) dir \<subseteq> live_pages (pm m)" "dir \<notin> space_tables (phys m) dir"
    and "\<And>i j. user_index i \<Longrightarrow> user_index j \<Longrightarrow> present (load32 (phys m) (slot dir i)) \<Longrightarrow>
      present (load32 (phys m) (slot dir j)) \<Longrightarrow> page_of (load32 (phys m) (slot dir i)) = page_of (load32 (phys m) (slot dir j)) \<Longrightarrow> i = j"
    and "\<And>i. user_index i \<Longrightarrow> present (load32 (phys m) (slot dir i)) \<Longrightarrow>
      bit (load32 (phys m) (slot dir i)) 1 \<and> bit (load32 (phys m) (slot dir i)) 2"
    and "\<And>i. i < 4 \<Longrightarrow> load32 (phys m) (slot dir i) = load32 (phys m) (slot (kernelDirectory k) i)"
  shows "space_ok k m dir"
  using assms unfolding space_ok_def by blast

text \<open>Nothing of a space changes when its own pages and the kernel directory do not change.\<close>

lemma space_pages_cong:
  assumes "aligned dir" "\<And>a. page_of a = dir \<Longrightarrow> ph' a = ph a"
  shows "space_tables ph' dir = space_tables ph dir" "space_pages ph' dir = space_pages ph dir"
proof -
  have eq: "load32 ph' (slot dir i) = load32 ph (slot dir i)" if "user_index i" for i
    using that assms(2) by (intro load32_cong [OF assms(1)]) (simp_all add: user_index_def)
  show "space_tables ph' dir = space_tables ph dir"
    unfolding space_tables_def by (intro Collect_cong iff_exI) (use eq in fastforce)
  then show "space_pages ph' dir = space_pages ph dir"
    by (simp add: space_pages_def)
qed

lemma space_ok_cong:
  assumes "space_ok k m dir" "aligned (kernelDirectory k)"
    and "\<And>a. page_of a = dir \<Longrightarrow> phys m' a = phys m a"
    and "\<And>a. page_of a = kernelDirectory k \<Longrightarrow> phys m' a = phys m a"
    and "space_pages (phys m) dir \<subseteq> live_pages (pm m')"
  shows "space_ok k m' dir"
proof -
  note dir = space_okD(2) [OF assms(1)]
  have small: "i < 1024" if "i < 4" for i :: u32
    using that by (simp add: word_less_nat_alt)
  have l: "load32 (phys m') (slot dir i) = load32 (phys m) (slot dir i)" if "i < 1024" for i
    using assms(3) by (intro load32_cong [OF dir that])
  have lk: "load32 (phys m') (slot (kernelDirectory k) i) = load32 (phys m) (slot (kernelDirectory k) i)" if "i < 4" for i
    using assms(4) by (intro load32_cong [OF assms(2) small [OF that]])
  have "load32 (phys m') (slot dir i) = load32 (phys m') (slot (kernelDirectory k) i)" if "i < 4" for i
    using space_okD(6) [OF assms(1) that] l [OF small [OF that]] lk [OF that] by simp
  moreover have "i = j" if "user_index i" "user_index j" "present (load32 (phys m') (slot dir i))" "present (load32 (phys m') (slot dir j))"
    "page_of (load32 (phys m') (slot dir i)) = page_of (load32 (phys m') (slot dir j))" for i j
  proof (rule space_ok_inj [OF assms(1) that(1,2)])
    have "i < 1024" "j < 1024"
      using that(1,2) by (simp_all add: user_index_def)
    then show "present (load32 (phys m) (slot dir i))" "present (load32 (phys m) (slot dir j))"
      "page_of (load32 (phys m) (slot dir i)) = page_of (load32 (phys m) (slot dir j))"
      using that(3-5) by (simp_all only: l)
  qed
  moreover have "bit (load32 (phys m') (slot dir i)) 1 \<and> bit (load32 (phys m') (slot dir i)) 2"
    if "user_index i" "present (load32 (phys m') (slot dir i))" for i
    using space_ok_flags [OF assms(1) that(1)] that(2) l [of i] that(1) by (simp only: user_index_def)
  moreover have "space_tables (phys m') dir = space_tables (phys m) dir" "space_pages (phys m') dir = space_pages (phys m) dir"
    using space_pages_cong [OF dir, of "phys m'" "phys m"] assms(3) by blast+
  ultimately show ?thesis
    using assms(5) space_okD(5) [OF assms(1)] by (intro space_okI) (simp_all only: not_False_eq_True)
qed

lemma mmu_walk_cong:
  assumes "aligned dir" "\<And>a. page_of a = dir \<Longrightarrow> ph' a = ph a"
    and "\<And>a. page_of a = page_of (load32 ph (slot dir (pdeIndexFor v))) \<Longrightarrow> ph' a = ph a"
  shows "mmu_walk ph' dir v = mmu_walk ph dir v"
proof -
  have "load32 ph' (slot dir (pdeIndexFor v)) = load32 ph (slot dir (pdeIndexFor v))"
    using load32_cong [OF assms(1) index_bounds(1)] assms(2) by blast
  moreover have "load32 ph' (slot (page_of e) (pteIndexFor v)) = load32 ph (slot (page_of e) (pteIndexFor v))"
    if "e = load32 ph (slot dir (pdeIndexFor v))" for e
    using load32_cong [OF aligned_page_of index_bounds(2)] assms(3) that by blast
  ultimately show ?thesis
    by (simp add: mmu_walk_def Let_def page_of_def)
qed

text \<open>The page table a walk of \<open>dir\<close> reads belongs to the space or to the kernel.\<close>

lemma walk_table:
  assumes "space_ok k m dir" "present (load32 (phys m) (slot dir i))" "i < 1024"
  shows "page_of (load32 (phys m) (slot dir i)) \<in> space_tables (phys m) dir \<or>
    (i < 4 \<and> page_of (load32 (phys m) (slot dir i)) = page_of (load32 (phys m) (slot (kernelDirectory k) i)))"
proof (cases "i < 4")
  case True
  then show ?thesis
    using space_okD(6) [OF assms(1)] by simp
next
  case False
  then show ?thesis
    using assms(2,3) unfolding space_tables_def user_index_def by force
qed

lemma mmu_walk_absent: "\<not> present (load32 ph (slot dir (pdeIndexFor v))) \<Longrightarrow> mmu_walk ph dir v = None"
  by (simp add: mmu_walk_def flag_and)

text \<open>
  Changes confined to a set of pages outside a space: the space keeps its pages, and if neither its
  pages nor the kernel's tables change it keeps its translation.
\<close>

lemma space_frame:
  assumes d: "space_ok k m d" and kd: "aligned (kernelDirectory k)" "kernelDirectory k \<notin> P" "d \<notin> P"
    and same: "\<And>b. page_of b \<notin> P \<Longrightarrow> phys m' b = phys m b"
    and live: "space_pages (phys m) d \<subseteq> live_pages (pm m')"
  shows "space_ok k m' d" "space_pages (phys m') d = space_pages (phys m) d"
    "space_tables (phys m) d \<inter> P = {} \<Longrightarrow>
     (\<And>i. i < 4 \<Longrightarrow> page_of (load32 (phys m) (slot (kernelDirectory k) i)) \<notin> P) \<Longrightarrow>
     mmu_walk (phys m') d v = mmu_walk (phys m) d v"
proof -
  have dir: "phys m' b = phys m b" if "page_of b = d" for b
    using kd(3) that by (intro same) simp
  show "space_ok k m' d"
    using kd(2) by (intro space_ok_cong [OF d kd(1) dir same live]) simp_all
  show "space_pages (phys m') d = space_pages (phys m) d"
    using space_pages_cong(2) [OF space_okD(2) [OF d], of "phys m'" "phys m"] dir by blast
  assume tabs: "space_tables (phys m) d \<inter> P = {}"
    and kern: "\<And>i. i < 4 \<Longrightarrow> page_of (load32 (phys m) (slot (kernelDirectory k) i)) \<notin> P"
  let ?e = "load32 (phys m) (slot d (pdeIndexFor v))"
  have e: "load32 (phys m') (slot d (pdeIndexFor v)) = ?e"
    using dir by (intro load32_cong [OF space_okD(2) [OF d] index_bounds(1)])
  show "mmu_walk (phys m') d v = mmu_walk (phys m) d v"
  proof (cases "present ?e")
    case True
    then have "page_of ?e \<notin> P"
      using walk_table [OF d True index_bounds(1)] tabs kern by auto
    then show ?thesis
      using kd(3) by (intro mmu_walk_cong [OF space_okD(2) [OF d]] same) simp_all
  qed (simp add: mmu_walk_absent e)
qed

section \<open>Creating an address space\<close>

lemma in_kernel_not_live: "in_kernel fr a \<Longrightarrow> a \<notin> live_pages fr"
  using page_index(1) by (auto simp: in_kernel_def live_pages_def used_set_def)

lemma kernel_okD:
  assumes "kernel_ok k m"
  shows "frames_ok (pm m)" "aligned (kernelDirectory k)" "in_kernel (pm m) (kernelDirectory k)"
    "i < 4 \<Longrightarrow> in_kernel (pm m) (page_of (load32 (phys m) (slot (kernelDirectory k) i)))"
  using assms unfolding kernel_ok_def by blast+

lemma small_index: "i < 4 \<Longrightarrow> i < (1024 :: u32)"
  by (simp add: word_less_nat_alt)

lemma small_cases: "i < (4 :: u32) \<longleftrightarrow> i = 0 \<or> i = 1 \<or> i = 2 \<or> i = 3"
proof -
  have "unat i < 4 \<longleftrightarrow> unat i = 0 \<or> unat i = 1 \<or> unat i = 2 \<or> unat i = 3"
    by linarith
  then show ?thesis
    by (simp add: word_less_nat_alt word_unat_eq_iff)
qed

text \<open>The state after a successful creation: a fresh page that holds the kernel's four entries and nothing else.\<close>

lemma create_address_space_taken:
  assumes k: "kernel_ok k m" and c: "paging_create_address_space k m = (a, m')" "a \<noteq> 0"
  shows "a \<notin> live_pages (pm m)" "live_pages (pm m') = insert a (live_pages (pm m))" "frames_ok (pm m')" "aligned a"
    "a \<noteq> kernelDirectory k" "reserved_pages (pm m') = reserved_pages (pm m)"
    "\<And>b. page_of b \<noteq> a \<Longrightarrow> phys m' b = phys m b" "cr3 m' = cr3 m" "paging_on m' = paging_on m"
    "\<And>i. i < 1024 \<Longrightarrow> load32 (phys m') (slot a i) = (if i < 4 then load32 (phys m) (slot (kernelDirectory k) i) else 0)"
proof -
  obtain pm' where al: "memory_alloc_page (pm m) = (a, pm')" and m': "m' = m\<lparr>pm := pm',
      phys := foldl (\<lambda>ph t. store32 ph (slot a (word_of_nat t)) (load32 ph (slot (kernelDirectory k) (word_of_nat t))))
                (clear_table (phys m) a) [0..<4]\<rparr>"
    using c by (auto simp: paging_create_address_space_def IDENTITY_MAPPED_TABLES_def Let_def split: prod.splits if_splits)
  note live = alloc_live [OF kernel_okD(1) [OF k] al c(2)]
  show "a \<notin> live_pages (pm m)" "live_pages (pm m') = insert a (live_pages (pm m))" "frames_ok (pm m')"
    "reserved_pages (pm m') = reserved_pages (pm m)" "cr3 m' = cr3 m" "paging_on m' = paging_on m"
    using live by (simp_all add: m')
  show a: "aligned a"
    using live(3) live_aligned by blast
  note kd = kernel_okD(2) [OF k]
  have "in_kernel pm' (kernelDirectory k)"
    using kernel_okD(3) [OF k] live(6) by (simp add: in_kernel_def)
  then show ne: "a \<noteq> kernelDirectory k"
    using live(3) in_kernel_not_live by blast
  have four: "[0..<4] = [0, 1, 2, 3 :: nat]"
    by (simp add: upt_rec)
  show "phys m' b = phys m b" if "page_of b \<noteq> a" for b
    using that a by (simp add: m' four store32_frame clear_table_frame)
  show "load32 (phys m') (slot a i) = (if i < 4 then load32 (phys m) (slot (kernelDirectory k) i) else 0)" if "i < 1024" for i
    using that a kd ne unfolding small_cases
    by (simp add: m' four load32_store32 load32_clear_table)
qed


lemma create_address_space_failed:
  assumes "kernel_ok k m" "paging_create_address_space k m = (0, m')"
  shows "m' = m"
  using assms(2) memory_alloc_page_exhausted(1) [OF kernel_okD(1) [OF assms(1)]]
  by (auto simp: paging_create_address_space_def Let_def split: prod.splits if_splits)

lemma kernel_ok_cong:
  assumes "kernel_ok k m" "frames_ok (pm m')" "reserved_pages (pm m') = reserved_pages (pm m)"
    and "\<And>b. page_of b = kernelDirectory k \<Longrightarrow> phys m' b = phys m b"
  shows "kernel_ok k m'"
proof -
  have "load32 (phys m') (slot (kernelDirectory k) i) = load32 (phys m) (slot (kernelDirectory k) i)" if "i < 4" for i
    using assms(4) by (intro load32_cong [OF kernel_okD(2) [OF assms(1)] small_index [OF that]])
  then show ?thesis
    using assms(1-3) by (simp add: kernel_ok_def in_kernel_def)
qed

lemma create_address_space_ok:
  assumes k: "kernel_ok k m" and c: "paging_create_address_space k m = (a, m')" "a \<noteq> 0"
  shows "kernel_ok k m'" "space_ok k m' a" "space_pages (phys m') a = {a}"
    "space_ok k m d \<Longrightarrow> space_ok k m' d \<and> space_pages (phys m') d = space_pages (phys m) d"
proof -
  note r = create_address_space_taken [OF k c]
  show "kernel_ok k m'"
    using r(5) by (intro kernel_ok_cong [OF k r(3,6)] r(7)) simp
  have kd: "load32 (phys m') (slot (kernelDirectory k) i) = load32 (phys m) (slot (kernelDirectory k) i)" if "i < 4" for i
    using r(5) by (intro load32_cong [OF kernel_okD(2) [OF k] small_index [OF that]] r(7)) simp
  have absent: "load32 (phys m') (slot a i) = 0" if "user_index i" for i
    using r(10) that by (auto simp: user_index_def not_less [symmetric])
  then have "space_tables (phys m') a = {}"
    by (auto simp: space_tables_def)
  then show pages: "space_pages (phys m') a = {a}"
    by (simp add: space_pages_def)
  show "space_ok k m' a"
    using absent pages r(2,10) kd small_index \<open>space_tables (phys m') a = {}\<close> by (intro space_okI) auto
  show "space_ok k m' d \<and> space_pages (phys m') d = space_pages (phys m) d" if d: "space_ok k m d"
  proof -
    have "d \<noteq> a"
      using space_okD(1) [OF d] r(1) by auto
    moreover have "space_pages (phys m) d \<subseteq> live_pages (pm m')"
      using space_okD(3) [OF d] r(2) by blast
    ultimately show ?thesis
      using space_frame(1,2) [OF d kernel_okD(2) [OF k], of "{a}" m'] r(5,7) by auto
  qed
qed


section \<open>Mapping a page\<close>

lemma user_index_pde: "\<not> pdeIndexFor v < 4 \<Longrightarrow> user_index (pdeIndexFor v)"
  using index_bounds(1) [of v] by (simp add: user_index_def not_less)

lemma table_for_failed:
  assumes "kernel_ok k m" "table_for m dir i = (0, m')" "\<not> present (load32 (phys m) (slot dir i))"
  shows "m' = m"
  using assms(2,3) memory_alloc_page_exhausted(1) [OF kernel_okD(1) [OF assms(1)]]
  by (auto simp: table_for_def flag_and Let_def split: prod.splits if_splits)

text \<open>A fresh table is an empty live page entered in the directory; nothing else changes.\<close>

lemma table_for_fresh:
  assumes k: "kernel_ok k m" and d: "space_ok k m dir" and i: "user_index i" "\<not> present (load32 (phys m) (slot dir i))"
    and t: "table_for m dir i = (t, m')" "t \<noteq> 0"
  shows "t \<notin> live_pages (pm m)" "live_pages (pm m') = insert t (live_pages (pm m))" "aligned t"
    "t \<noteq> dir" "kernelDirectory k \<noteq> t" "kernelDirectory k \<noteq> dir" "frames_ok (pm m')" "reserved_pages (pm m') = reserved_pages (pm m)"
    "\<And>b. page_of b \<notin> {t, dir} \<Longrightarrow> phys m' b = phys m b"
    "\<And>j. j < 1024 \<Longrightarrow> load32 (phys m') (slot dir j) =
       (if j = i then t OR PAGE_PRESENT OR PAGE_WRITABLE OR PAGE_USER else load32 (phys m) (slot dir j))"
    "\<And>j. j < 1024 \<Longrightarrow> load32 (phys m') (slot t j) = 0" "cr3 m' = cr3 m" "paging_on m' = paging_on m"
proof -
  obtain pm' where al: "memory_alloc_page (pm m) = (t, pm')" and m': "m' = m\<lparr>pm := pm',
      phys := store32 (clear_table (phys m) t) (slot dir i) (t OR PAGE_PRESENT OR PAGE_WRITABLE OR PAGE_USER)\<rparr>"
    using t i(2) by (auto simp: table_for_def flag_and Let_def split: prod.splits if_splits)
  note live = alloc_live [OF kernel_okD(1) [OF k] al t(2)]
  show "t \<notin> live_pages (pm m)" "live_pages (pm m') = insert t (live_pages (pm m))" "frames_ok (pm m')"
    "reserved_pages (pm m') = reserved_pages (pm m)" "cr3 m' = cr3 m" "paging_on m' = paging_on m"
    using live by (simp_all add: m')
  have i': "i < 1024"
    using i(1) by (simp add: user_index_def)
  note dir = space_okD(2) [OF d]
  show al': "aligned t"
    using live(3) live_aligned by blast
  show ne: "t \<noteq> dir"
    using live(2) space_okD(1) [OF d] by auto
  have "in_kernel pm' (kernelDirectory k)"
    using kernel_okD(3) [OF k] live(6) by (simp add: in_kernel_def)
  then show "kernelDirectory k \<noteq> t" "kernelDirectory k \<noteq> dir"
    using live(3) in_kernel_not_live space_okD(1) [OF d] by blast+
  show "phys m' b = phys m b" if "page_of b \<notin> {t, dir}" for b
    using that al' dir i' by (simp add: m' store32_frame clear_table_frame)
  show "load32 (phys m') (slot dir j) = (if j = i then t OR PAGE_PRESENT OR PAGE_WRITABLE OR PAGE_USER else load32 (phys m) (slot dir j))"
    if "j < 1024" for j
    using that al' dir i' ne by (simp add: m' load32_store32 load32_clear_table)
  show "load32 (phys m') (slot t j) = 0" if "j < 1024" for j
    using that al' dir i' ne by (simp add: m' load32_store32 load32_clear_table)
qed

lemma table_for_fresh_ok:
  assumes k: "kernel_ok k m" and d: "space_ok k m dir" and i: "user_index i" "\<not> present (load32 (phys m) (slot dir i))"
    and t: "table_for m dir i = (t, m')" "t \<noteq> 0"
  shows "kernel_ok k m'" "space_ok k m' dir" "space_tables (phys m') dir = insert t (space_tables (phys m) dir)"
    "mmu_walk (phys m') dir v = mmu_walk (phys m) dir v"
proof -
  note r = table_for_fresh [OF assms]
  let ?e = "t OR PAGE_PRESENT OR PAGE_WRITABLE OR PAGE_USER"
  have e: "page_of ?e = t" "present ?e" "bit ?e 1" "bit ?e 2"
    using entry_flags(1) [OF r(3)] by (simp_all add: present_def bit_or_iff bit_flags del: bit_0)
  have kd: "load32 (phys m') (slot (kernelDirectory k) j) = load32 (phys m) (slot (kernelDirectory k) j)" if "j < 4" for j
    using r(5,6) by (intro load32_cong [OF kernel_okD(2) [OF k] small_index [OF that]] r(9)) simp
  show "kernel_ok k m'"
    using r(5,6) by (intro kernel_ok_cong [OF k r(7,8)] r(9)) simp
  have old: "page_of (load32 (phys m) (slot dir j)) \<noteq> t" if "user_index j" "present (load32 (phys m) (slot dir j))" for j
  proof -
    have "page_of (load32 (phys m) (slot dir j)) \<in> space_pages (phys m) dir"
      using table_in_space [OF that] by (simp add: space_pages_def)
    from space_okD(3) [OF d this] show ?thesis
      using r(1) by auto
  qed
  show tabs: "space_tables (phys m') dir = insert t (space_tables (phys m) dir)"
  proof -
    let ?l = "\<lambda>j. load32 (phys m) (slot dir j)" and ?l' = "\<lambda>j. load32 (phys m') (slot dir j)"
    have l': "?l' j = (if j = i then ?e else ?l j)" if "user_index j" for j
      using r(10) that by (simp add: user_index_def)
    then have "{j. user_index j \<and> present (?l' j)} = insert i {j. user_index j \<and> present (?l j)}"
      using i e(2) by auto
    moreover have "page_of (?l' i) = t"
      using l' [OF i(1)] e(1) by simp
    moreover have "(\<lambda>j. page_of (?l' j)) ` {j. user_index j \<and> present (?l j)} = (\<lambda>j. page_of (?l j)) ` {j. user_index j \<and> present (?l j)}"
      using l' i(2) by (intro image_cong) auto
    ultimately show ?thesis
      by (simp only: space_tables_image image_insert)
  qed
  show "space_ok k m' dir"
  proof (rule space_okI)
    show "space_pages (phys m') dir \<subseteq> live_pages (pm m')"
      using space_okD(3) [OF d] r(2) unfolding space_pages_def tabs by blast
    show "dir \<notin> space_tables (phys m') dir"
      using space_okD(5) [OF d] r(4) tabs by simp
  next
    fix j assume j: "user_index j" "present (load32 (phys m') (slot dir j))"
    then show "bit (load32 (phys m') (slot dir j)) 1 \<and> bit (load32 (phys m') (slot dir j)) 2"
      using r(10) [of j] e space_ok_flags [OF d j(1)] by (simp add: user_index_def split: if_splits)
    fix l assume l: "user_index l" "present (load32 (phys m') (slot dir l))"
      "page_of (load32 (phys m') (slot dir j)) = page_of (load32 (phys m') (slot dir l))"
    have eqs: "load32 (phys m') (slot dir x) = (if x = i then ?e else load32 (phys m) (slot dir x))" if "user_index x" for x
      using r(10) that by (simp add: user_index_def)
    show "j = l"
    proof (cases "j = i \<or> l = i")
      case True
      then show ?thesis
        using old [OF j(1)] old [OF l(1)] eqs [OF j(1)] eqs [OF l(1)] j(2) l(2,3) e(1) by (auto split: if_splits)
    next
      case False
      then show ?thesis
        using space_ok_inj [OF d j(1) l(1)] eqs [OF j(1)] eqs [OF l(1)] j(2) l(2,3) by simp
    qed
  next
    fix j :: u32 assume "j < 4"
    then show "load32 (phys m') (slot dir j) = load32 (phys m') (slot (kernelDirectory k) j)"
      using r(10) [OF small_index] i(1) kd space_okD(6) [OF d] by (auto simp: user_index_def)
  qed
  show "mmu_walk (phys m') dir v = mmu_walk (phys m) dir v"
  proof (cases "pdeIndexFor v = i")
    case True
    have "mmu_walk (phys m) dir v = None"
      using True i(2) by (simp add: mmu_walk_absent)
    moreover have "load32 (phys m') (slot dir (pdeIndexFor v)) = ?e"
      using r(10) [OF index_bounds(1) [of v]] True by simp
    then have "mmu_walk (phys m') dir v = None"
      using r(11) [OF index_bounds(2) [of v]] e(1,2) by (simp add: mmu_walk_def Let_def page_of_def flag_and)
    ultimately show ?thesis
      by simp
  next
    case False
    then have same: "load32 (phys m') (slot dir (pdeIndexFor v)) = load32 (phys m) (slot dir (pdeIndexFor v))" (is "?l' = ?l")
      using r(10) [OF index_bounds(1)] by simp
    show ?thesis
    proof (cases "present ?l")
      case True
      have "page_of ?l \<noteq> dir \<and> page_of ?l \<noteq> t"
      proof (cases "pdeIndexFor v < 4")
        case low: True
        have "in_kernel (pm m') (page_of ?l)"
          using kernel_okD(4) [OF k low] space_okD(6) [OF d low] r(8) by (simp only: in_kernel_def)
        from in_kernel_not_live [OF this] show ?thesis
          using space_okD(1) [OF d] unfolding r(2) by (metis insert_iff)
      next
        case False
        have "page_of ?l \<in> space_tables (phys m) dir"
          by (rule table_in_space [OF user_index_pde [OF False] True])
        moreover from this have "page_of ?l \<in> live_pages (pm m)"
          by (intro space_okD(3) [OF d]) (simp add: space_pages_def)
        ultimately show ?thesis
          using space_okD(5) [OF d] r(1) by metis
      qed
      then have "load32 (phys m') (slot (page_of ?l) (pteIndexFor v)) = load32 (phys m) (slot (page_of ?l) (pteIndexFor v))"
        by (intro load32_cong [OF aligned_page_of index_bounds(2)] r(9)) simp
      then show ?thesis
        using same by (simp add: mmu_walk_def Let_def page_of_def)
    next
      case False
      then have "\<not> present ?l'"
        by (simp only: same simp_thms)
      from mmu_walk_absent [OF this] mmu_walk_absent [OF False] show ?thesis
        by (simp only:)
    qed
  qed
qed


text \<open>Storing the entry for \<open>v\<close> in the table of its directory entry.\<close>

lemma store_pte:
  fixes w :: bool
  assumes k: "kernel_ok k m" and d: "space_ok k m dir" and i: "user_index (pdeIndexFor v)"
    and t: "present (load32 (phys m) (slot dir (pdeIndexFor v)))" "t = page_of (load32 (phys m) (slot dir (pdeIndexFor v)))"
    and p: "aligned p" and v: "aligned v"
  defines "e \<equiv> p OR PAGE_PRESENT OR PAGE_USER OR (if w then PAGE_WRITABLE else 0)"
  defines "m' \<equiv> m\<lparr>phys := store32 (phys m) (slot t (pteIndexFor v)) e\<rparr>"
  shows "kernel_ok k m'" "space_ok k m' dir" "space_tables (phys m') dir = space_tables (phys m) dir"
    "mmu_walk (phys m') dir v = Some (p, True, w)"
    "aligned v' \<Longrightarrow> v' \<noteq> v \<Longrightarrow> mmu_walk (phys m') dir v' = mmu_walk (phys m) dir v'"
    "page_of b \<noteq> t \<Longrightarrow> phys m' b = phys m b" "t \<in> space_tables (phys m) dir"
proof -
  have tin: "t \<in> space_tables (phys m) dir"
    using table_in_space [OF i t(1)] t(2) by simp
  then have ts: "t \<in> live_pages (pm m)" "aligned t" "t \<noteq> dir"
    using space_okD(3,4,5) [OF d] by (auto simp: space_pages_def)
  have kd: "kernelDirectory k \<noteq> t"
    using kernel_okD(3) [OF k] in_kernel_not_live ts(1) by blast
  show frame: "phys m' b = phys m b" if "page_of b \<noteq> t" for b
    using that ts(2) index_bounds(2) by (simp add: m'_def store32_frame)
  show "kernel_ok k m'"
    using kd kernel_okD(1) [OF k] by (intro kernel_ok_cong [OF k] frame) (simp_all add: m'_def)
  have live: "space_pages (phys m) dir \<subseteq> live_pages (pm m')"
    using space_okD(3) [OF d] by (auto simp: m'_def)
  show "space_ok k m' dir"
    using space_frame(1) [OF d kernel_okD(2) [OF k], of "{t}" m'] kd ts(3) frame live by auto
  have l: "load32 (phys m') (slot dir j) = load32 (phys m) (slot dir j)" if "j < 1024" for j
    using ts(3) by (intro load32_cong [OF space_okD(2) [OF d] that] frame) simp
  show "space_tables (phys m') dir = space_tables (phys m) dir"
    using ts(3) by (intro space_pages_cong(1) [OF space_okD(2) [OF d]] frame) simp
  show "t \<in> space_tables (phys m) dir"
    by (rule tin)
  have e: "page_of e = p" "present e" "bit e 2" "bit e 1 \<longleftrightarrow> w"
    using entry_flags(2) [OF p] p by (simp_all add: e_def present_def bit_or_iff bit_flags aligned_bits del: bit_0)
  have pte: "load32 (phys m') (slot t j) = (if j = pteIndexFor v then e else load32 (phys m) (slot t j))" if "j < 1024" for j
    using that ts(2) index_bounds(2) by (auto simp: m'_def load32_store32)
  have flags: "bit (load32 (phys m) (slot dir (pdeIndexFor v))) 1" "bit (load32 (phys m) (slot dir (pdeIndexFor v))) 2"
    using space_ok_flags [OF d i t(1)] by simp_all
  show "mmu_walk (phys m') dir v = Some (p, True, w)"
    using e flags t pte [OF index_bounds(2) [of v]] l [OF index_bounds(1) [of v]]
    by (simp add: mmu_walk_def Let_def page_of_def [symmetric] flag_and bit_and_iff)
  assume v': "aligned v'" "v' \<noteq> v"
  let ?l = "load32 (phys m) (slot dir (pdeIndexFor v'))"
  have "load32 (phys m') (slot (page_of ?l) (pteIndexFor v')) = load32 (phys m) (slot (page_of ?l) (pteIndexFor v'))" if "present ?l"
  proof (cases "page_of ?l = t")
    case True
    have "\<not> pdeIndexFor v' < 4"
    proof
      assume "pdeIndexFor v' < 4"
      then have "in_kernel (pm m) (page_of ?l)"
        using kernel_okD(4) [OF k] space_okD(6) [OF d] by simp
      then show False
        using True ts(1) in_kernel_not_live by blast
    qed
    then have "pdeIndexFor v' = pdeIndexFor v"
      using space_ok_inj [OF d user_index_pde i that t(1)] True t(2) by simp
    then have "pteIndexFor v' \<noteq> pteIndexFor v"
      using index_inj [OF v'(1) v] v'(2) by blast
    then show ?thesis
      using pte [OF index_bounds(2)] True by simp
  next
    case False
    then show ?thesis
      by (intro load32_cong [OF aligned_page_of index_bounds(2)] frame) simp
  qed
  then show "mmu_walk (phys m') dir v' = mmu_walk (phys m) dir v'"
    using l [OF index_bounds(1) [of v']] by (cases "present ?l") (simp_all add: mmu_walk_absent, simp add: mmu_walk_def Let_def page_of_def)
qed


lemma map_user_page_failed:
  assumes k: "kernel_ok k m" and f: "paging_map_user_page m dir v p w = (False, m')"
  shows "m' = m"
proof -
  obtain t m1 where t: "table_for m dir (pdeIndexFor v) = (t, m1)"
    by fastforce
  have "m1 = m" if "t = 0" "\<not> present (load32 (phys m) (slot dir (pdeIndexFor v)))"
    using table_for_failed [OF k _ that(2)] t that(1) by simp
  then show ?thesis
    using f t by (auto simp: paging_map_user_page_def Let_def flag_and split: if_splits)
qed

text \<open>The table of the directory entry, present or fresh, with its entry in the directory.\<close>

lemma map_user_page_shape:
  assumes "kernel_ok k m" "space_ok k m dir" "paging_map_user_page m dir v p w = (True, m')"
  obtains t m1 where "table_for m dir (pdeIndexFor v) = (t, m1)" "aligned v" "aligned p" "user_index (pdeIndexFor v)"
    "present (load32 (phys m) (slot dir (pdeIndexFor v))) \<or> t \<noteq> 0"
    "m' = m1\<lparr>phys := store32 (phys m1) (slot t (pteIndexFor v)) (p OR PAGE_PRESENT OR PAGE_USER OR (if w then PAGE_WRITABLE else 0))\<rparr>"
proof -
  obtain t m1 where t: "table_for m dir (pdeIndexFor v) = (t, m1)"
    by fastforce
  have al: "aligned v" "aligned p" and low: "\<not> pdeIndexFor v < 4"
    using assms(3) by (auto simp: paging_map_user_page_def Let_def aligned_mod IDENTITY_MAPPED_TABLES_def split: if_splits)
  have "p AND PAGE_ADDRESS_MASK = p"
    using page_of_aligned [OF al(2)] by (simp add: page_of_def)
  then have "present (load32 (phys m) (slot dir (pdeIndexFor v))) \<or> t \<noteq> 0"
    "m' = m1\<lparr>phys := store32 (phys m1) (slot t (pteIndexFor v)) (p OR PAGE_PRESENT OR PAGE_USER OR (if w then PAGE_WRITABLE else 0))\<rparr>"
    using assms(3) t by (simp_all add: paging_map_user_page_def Let_def flag_and split: if_splits)
  with t al user_index_pde [OF low] show thesis
    using that by blast
qed

lemma map_user_page_ok:
  assumes k: "kernel_ok k m" and d: "space_ok k m dir" and ok: "paging_map_user_page m dir v p w = (True, m')"
  shows "kernel_ok k m'" "space_ok k m' dir"
    "space_pages (phys m) dir \<subseteq> space_pages (phys m') dir"
    "(space_pages (phys m') dir - space_pages (phys m) dir) \<inter> live_pages (pm m) = {}"
    "live_pages (pm m') = live_pages (pm m) \<union> space_pages (phys m') dir"
    "page_of b \<notin> space_pages (phys m') dir \<Longrightarrow> phys m' b = phys m b"
    "mmu_walk (phys m') dir v = Some (p, True, w)"
    "aligned v' \<Longrightarrow> v' \<noteq> v \<Longrightarrow> mmu_walk (phys m') dir v' = mmu_walk (phys m) dir v'"
    "reserved_pages (pm m') = reserved_pages (pm m)" "cr3 m' = cr3 m"
proof -
  obtain t m1 where t: "table_for m dir (pdeIndexFor v) = (t, m1)" and al: "aligned v" "aligned p" and i: "user_index (pdeIndexFor v)"
    and nz: "present (load32 (phys m) (slot dir (pdeIndexFor v))) \<or> t \<noteq> 0"
    and m': "m' = m1\<lparr>phys := store32 (phys m1) (slot t (pteIndexFor v)) (p OR PAGE_PRESENT OR PAGE_USER OR (if w then PAGE_WRITABLE else 0))\<rparr>"
    by (rule map_user_page_shape [OF assms])
  have mid: "kernel_ok k m1 \<and> space_ok k m1 dir \<and> present (load32 (phys m1) (slot dir (pdeIndexFor v))) \<and>
      t = page_of (load32 (phys m1) (slot dir (pdeIndexFor v))) \<and> space_pages (phys m) dir \<subseteq> space_pages (phys m1) dir \<and>
      (space_pages (phys m1) dir - space_pages (phys m) dir) \<inter> live_pages (pm m) = {} \<and>
      live_pages (pm m1) = live_pages (pm m) \<union> space_pages (phys m1) dir \<and>
      (\<forall>b. page_of b \<notin> space_pages (phys m1) dir \<longrightarrow> phys m1 b = phys m b) \<and>
      (\<forall>x. mmu_walk (phys m1) dir x = mmu_walk (phys m) dir x) \<and> reserved_pages (pm m1) = reserved_pages (pm m) \<and> cr3 m1 = cr3 m"
  proof (cases "present (load32 (phys m) (slot dir (pdeIndexFor v)))")
    case True
    then have "m1 = m" "t = page_of (load32 (phys m) (slot dir (pdeIndexFor v)))"
      using t by (auto simp: table_for_def flag_and page_of_def)
    then show ?thesis
      using True k d space_okD(3) [OF d] by (simp add: Un_absorb2 subsetI)
  next
    case False
    then have nz: "t \<noteq> 0"
      using nz by simp
    note f = table_for_fresh [OF k d i False t nz] and fok = table_for_fresh_ok [OF k d i False t nz]
    have "load32 (phys m1) (slot dir (pdeIndexFor v)) = t OR PAGE_PRESENT OR PAGE_WRITABLE OR PAGE_USER"
      using f(10) [OF index_bounds(1) [of v]] by simp
    then have "present (load32 (phys m1) (slot dir (pdeIndexFor v))) \<and> t = page_of (load32 (phys m1) (slot dir (pdeIndexFor v)))"
      using entry_flags(1) [OF f(3)] by (simp add: present_def bit_or_iff bit_flags del: bit_0)
    moreover have "space_pages (phys m1) dir = insert t (space_pages (phys m) dir)"
      by (auto simp: space_pages_def fok(3))
    ultimately show ?thesis
      using fok(1,2,4) f(1,2,8,9,12) space_okD(1,3) [OF d] by (auto simp: space_pages_def)
  qed
  then have k1: "kernel_ok k m1" and d1: "space_ok k m1 dir" and t1: "present (load32 (phys m1) (slot dir (pdeIndexFor v)))"
    "t = page_of (load32 (phys m1) (slot dir (pdeIndexFor v)))"
    by blast+
  note st = store_pte(1-6) [OF k1 d1 i t1 al(2,1), where w = w, folded m']
  have pages: "space_pages (phys m') dir = space_pages (phys m1) dir" "t \<in> space_pages (phys m1) dir"
    using st(3) store_pte(7) [OF k1 d1 i t1 al(2,1)] by (simp_all add: space_pages_def)
  show "kernel_ok k m'" "space_ok k m' dir" "mmu_walk (phys m') dir v = Some (p, True, w)"
    by (fact st(1,2,4))+
  show "space_pages (phys m) dir \<subseteq> space_pages (phys m') dir"
    "(space_pages (phys m') dir - space_pages (phys m) dir) \<inter> live_pages (pm m) = {}"
    "live_pages (pm m') = live_pages (pm m) \<union> space_pages (phys m') dir"
    "reserved_pages (pm m') = reserved_pages (pm m)" "cr3 m' = cr3 m"
    using mid unfolding pages(1) by (simp_all add: m')
  show "phys m' b = phys m b" if "page_of b \<notin> space_pages (phys m') dir"
    using that mid st(6) [of b] pages by metis
  show "mmu_walk (phys m') dir v' = mmu_walk (phys m) dir v'" if "aligned v'" "v' \<noteq> v"
    using st(5) [OF that] mid by simp
qed


section \<open>Destroying an address space\<close>

definition tables_at :: "(u32 \<Rightarrow> u8) \<Rightarrow> u32 \<Rightarrow> nat list \<Rightarrow> u32 set" where
  "tables_at ph dir is = {page_of (load32 ph (slot dir (word_of_nat i))) | i. i \<in> set is \<and> present (load32 ph (slot dir (word_of_nat i)))}"

lemma tables_at_simps [simp]:
  "tables_at ph dir [] = {}"
  "tables_at ph dir (i # is) = (if present (load32 ph (slot dir (word_of_nat i)))
     then insert (page_of (load32 ph (slot dir (word_of_nat i)))) (tables_at ph dir is) else tables_at ph dir is)"
  by (auto simp: tables_at_def)

lemma destroy_loop_frees:
  assumes "frames_ok (pm m)" "aligned dir" "distinct is" "set is \<subseteq> {..<1024}"
  shows "frames_ok (pm (destroy_loop m dir is)) \<and> live_pages (pm (destroy_loop m dir is)) = live_pages (pm m) - tables_at (phys m) dir is \<and>
    reserved_pages (pm (destroy_loop m dir is)) = reserved_pages (pm m) \<and> cr3 (destroy_loop m dir is) = cr3 m \<and>
    (\<forall>b. page_of b \<noteq> dir \<longrightarrow> phys (destroy_loop m dir is) b = phys m b)"
  using assms(1,3,4)
proof (induction "is" arbitrary: m)
  case (Cons i "is")
  let ?e = "load32 (phys m) (slot dir (word_of_nat i))"
  show ?case
  proof (cases "present ?e")
    case False
    then show ?thesis
      using Cons by (simp add: Let_def flag_and)
  next
    case True
    define m1 where "m1 = m\<lparr>pm := memory_free_page (pm m) (page_of ?e), phys := store32 (phys m) (slot dir (word_of_nat i)) 0\<rparr>"
    have step: "destroy_loop m dir (i # is) = destroy_loop m1 dir is"
      using True by (simp add: Let_def flag_and m1_def page_of_def)
    have i: "(word_of_nat i :: u32) < 1024"
      using Cons.prems by (simp add: word_index)
    have "load32 (phys m1) (slot dir (word_of_nat j)) = load32 (phys m) (slot dir (word_of_nat j))" if "j \<in> set is" for j
    proof -
      have j: "j < 1024" "j \<noteq> i" "i < 1024"
        using that Cons.prems by auto
      then have "(word_of_nat j :: u32) \<noteq> word_of_nat i"
        by (simp add: word_unat_eq_iff)
      then show ?thesis
        using i j assms(2) by (auto simp: m1_def load32_store32 word_index)
    qed
    then have tabs: "tables_at (phys m1) dir is = tables_at (phys m) dir is"
      by (force simp: tables_at_def)
    have "frames_ok (pm m1)"
      using free_live(1) [OF Cons.prems(1)] by (simp add: m1_def)
    from Cons.IH [OF this] have IH: "frames_ok (pm (destroy_loop m1 dir is)) \<and>
        live_pages (pm (destroy_loop m1 dir is)) = live_pages (pm m1) - tables_at (phys m1) dir is \<and>
        reserved_pages (pm (destroy_loop m1 dir is)) = reserved_pages (pm m1) \<and> cr3 (destroy_loop m1 dir is) = cr3 m1 \<and>
        (\<forall>b. page_of b \<noteq> dir \<longrightarrow> phys (destroy_loop m1 dir is) b = phys m1 b)"
      using Cons.prems by simp
    have "live_pages (pm m1) = live_pages (pm m) - {page_of ?e}" "reserved_pages (pm m1) = reserved_pages (pm m)" "cr3 m1 = cr3 m"
      using free_live [OF Cons.prems(1)] by (simp_all add: m1_def)
    moreover have "phys m1 b = phys m b" if "page_of b \<noteq> dir" for b
      using that i assms(2) by (simp add: m1_def store32_frame)
    ultimately show ?thesis
      unfolding step using IH True tabs by auto
  qed
qed simp

lemma tables_at_space:
  "tables_at ph dir [IDENTITY_MAPPED_TABLES..<ENTRIES_PER_TABLE] = space_tables ph dir"
  unfolding tables_at_def space_tables_def IDENTITY_MAPPED_TABLES_def ENTRIES_PER_TABLE_def set_upt
proof (intro Collect_cong iffI; elim exE conjE)
  fix x i
  assume i: "x = page_of (load32 ph (slot dir (word_of_nat i)))" "i \<in> {4..<1024}" "present (load32 ph (slot dir (word_of_nat i)))"
  then have "user_index (word_of_nat i)"
    by (simp add: user_index_def word_less_nat_alt word_le_nat_alt)
  with i(1,3) show "\<exists>i. x = page_of (load32 ph (slot dir i)) \<and> user_index i \<and> present (load32 ph (slot dir i))"
    by blast
next
  fix x i
  assume "x = page_of (load32 ph (slot dir i))" "user_index i" "present (load32 ph (slot dir i))"
  then show "\<exists>j. x = page_of (load32 ph (slot dir (word_of_nat j))) \<and> j \<in> {4..<1024} \<and> present (load32 ph (slot dir (word_of_nat j)))"
    by (intro exI [of _ "unat i"]) (simp add: user_index_def word_less_nat_alt word_le_nat_alt)
qed

lemma destroy_address_space_ok:
  assumes k: "kernel_ok k m" and d: "space_ok k m dir"
  defines "m' \<equiv> paging_destroy_address_space k m dir"
  shows "kernel_ok k m'" "live_pages (pm m') = live_pages (pm m) - space_pages (phys m) dir"
    "page_of b \<noteq> dir \<Longrightarrow> phys m' b = phys m b" "reserved_pages (pm m') = reserved_pages (pm m)" "cr3 m' = cr3 m"
proof -
  define m1 where "m1 = destroy_loop m dir [IDENTITY_MAPPED_TABLES..<ENTRIES_PER_TABLE]"
  have ne: "dir \<noteq> kernelDirectory k"
    using space_okD(1) [OF d] in_kernel_not_live [OF kernel_okD(3) [OF k]] by auto
  then have m': "m' = m1\<lparr>pm := memory_free_page (pm m1) dir\<rparr>"
    by (simp add: m'_def m1_def paging_destroy_address_space_def paging_kernel_address_space_def Let_def)
  have "distinct [IDENTITY_MAPPED_TABLES..<ENTRIES_PER_TABLE]" "set [IDENTITY_MAPPED_TABLES..<ENTRIES_PER_TABLE] \<subseteq> {..<1024}"
    unfolding ENTRIES_PER_TABLE_def set_upt by auto
  from destroy_loop_frees [OF kernel_okD(1) [OF k] space_okD(2) [OF d] this, folded m1_def, unfolded tables_at_space]
  have m1: "frames_ok (pm m1)" "live_pages (pm m1) = live_pages (pm m) - space_tables (phys m) dir"
    "reserved_pages (pm m1) = reserved_pages (pm m)" "cr3 m1 = cr3 m" "\<And>b. page_of b \<noteq> dir \<Longrightarrow> phys m1 b = phys m b"
    by auto
  note fr = free_live [OF m1(1), of dir]
  show "live_pages (pm m') = live_pages (pm m) - space_pages (phys m) dir"
    using fr(2) m1(2) by (auto simp: m' space_pages_def)
  show frame: "phys m' b = phys m b" if "page_of b \<noteq> dir" for b
    using m1(5) that by (simp add: m')
  show "reserved_pages (pm m') = reserved_pages (pm m)" "cr3 m' = cr3 m"
    using fr(3) m1(3,4) by (simp_all add: m')
  show "kernel_ok k m'"
    using ne fr(1,3) m1(3) by (intro kernel_ok_cong [OF k] frame) (simp_all add: m')
qed


section \<open>Initialisation\<close>

text \<open>What the linker guarantees: the two static arrays are page aligned, apart, and inside the kernel image.\<close>

definition table_base :: "klayout \<Rightarrow> nat \<Rightarrow> u32" where
  "table_base k t = identityTables k + 4096 * word_of_nat t"

definition layout_ok :: "klayout \<Rightarrow> frames \<Rightarrow> bool" where
  "layout_ok k fr \<longleftrightarrow> aligned (kernelDirectory k) \<and> in_kernel fr (kernelDirectory k) \<and>
     (\<forall>t < 4. aligned (table_base k t) \<and> in_kernel fr (table_base k t) \<and> table_base k t \<noteq> kernelDirectory k) \<and>
     (\<forall>s < 4. \<forall>t < 4. table_base k s = table_base k t \<longrightarrow> s = t)"

definition identity_entry :: "nat \<Rightarrow> nat \<Rightarrow> u32" where
  "identity_entry t i = (word_of_nat t * word_of_nat ENTRIES_PER_TABLE + word_of_nat i) * PAGE_SIZE_BYTES OR PAGE_PRESENT OR PAGE_WRITABLE"

lemma whole_table: "set [0..<ENTRIES_PER_TABLE] \<subseteq> {..<1024}" "set [4..<ENTRIES_PER_TABLE] \<subseteq> {..<1024}"
  unfolding ENTRIES_PER_TABLE_def set_upt by auto

lemma load32_init_table:
  assumes "aligned (kernelDirectory k)" "aligned (table_base k t)" "table_base k t \<noteq> kernelDirectory k" "aligned q" "j < 1024" "t < 4"
  shows "load32 (init_table k ph t) (slot q j) =
    (if q = kernelDirectory k \<and> j = word_of_nat t then table_base k t OR PAGE_PRESENT OR PAGE_WRITABLE OR PAGE_USER
     else if q = table_base k t then identity_entry t (unat j) else load32 ph (slot q j))"
proof -
  let ?loop = "foldl (\<lambda>ph i. store32 ph (slot (table_base k t) (word_of_nat i)) (identity_entry t i)) ph [0..<ENTRIES_PER_TABLE]"
  have t: "(word_of_nat t :: u32) < 1024"
    using assms(6) by (simp add: word_index)
  have "unat j < 1024"
    using assms(5) by (simp add: word_less_nat_alt)
  then have "load32 ?loop (slot q j) = (if table_base k t = q then identity_entry t (unat j) else load32 ph (slot q j))"
    using store_loop(2) [OF assms(2) whole_table(1) assms(4,5), of "identity_entry t" ph] by (simp add: ENTRIES_PER_TABLE_def)
  moreover have "init_table k ph t =
      store32 ?loop (slot (kernelDirectory k) (word_of_nat t)) (table_base k t OR PAGE_PRESENT OR PAGE_WRITABLE OR PAGE_USER)"
    by (simp add: init_table_def table_base_def identity_entry_def Let_def)
  ultimately show ?thesis
    using load32_store32 [OF assms(1,4) t assms(5)] assms(3) by auto
qed

lemma layout_okD:
  assumes "layout_ok k fr"
  shows "aligned (kernelDirectory k)" "in_kernel fr (kernelDirectory k)"
    "t < 4 \<Longrightarrow> aligned (table_base k t)" "t < 4 \<Longrightarrow> in_kernel fr (table_base k t)" "t < 4 \<Longrightarrow> table_base k t \<noteq> kernelDirectory k"
    "s < 4 \<Longrightarrow> t < 4 \<Longrightarrow> table_base k s = table_base k t \<longleftrightarrow> s = t"
  using assms unfolding layout_ok_def by blast+

lemma init_tables:
  assumes l: "layout_ok k fr" and "n \<le> 4" and j: "j < 1024"
  shows "load32 (foldl (init_table k) ph [0..<n]) (slot (kernelDirectory k) j) =
      (if unat j < n then table_base k (unat j) OR PAGE_PRESENT OR PAGE_WRITABLE OR PAGE_USER else load32 ph (slot (kernelDirectory k) j)) \<and>
    (\<forall>t < n. load32 (foldl (init_table k) ph [0..<n]) (slot (table_base k t) j) = identity_entry t (unat j))"
  using assms(2)
proof (induction n)
  case (Suc n)
  then have n: "n < 4"
    by simp
  note kd = layout_okD(1) [OF l] and step = load32_init_table [OF layout_okD(1) [OF l] layout_okD(3) [OF l n] layout_okD(5) [OF l n] _ j n]
  have jn: "j = word_of_nat n \<longleftrightarrow> unat j = n"
    using n by (auto simp: word_unat_eq_iff)
  have "load32 (foldl (init_table k) ph [0..<Suc n]) (slot (table_base k t) j) = identity_entry t (unat j)" if "t < Suc n" for t
    using that Suc n step [of "table_base k t"] layout_okD(3,5) [OF l, of t] layout_okD(6) [OF l _ n, of t]
    by (cases "t = n") auto
  moreover have "load32 (foldl (init_table k) ph [0..<Suc n]) (slot (kernelDirectory k) j) =
      (if unat j < Suc n then table_base k (unat j) OR PAGE_PRESENT OR PAGE_WRITABLE OR PAGE_USER else load32 ph (slot (kernelDirectory k) j))"
    using Suc step [OF kd] jn layout_okD(5) [OF l n] by auto
  ultimately show ?case
    by blast
qed simp

lemma paging_init_entries:
  assumes l: "layout_ok k fr" and j: "j < 1024"
  shows "load32 (phys (paging_init k m)) (slot (kernelDirectory k) j) =
      (if j < 4 then table_base k (unat j) OR PAGE_PRESENT OR PAGE_WRITABLE OR PAGE_USER else 0)"
    "t < 4 \<Longrightarrow> load32 (phys (paging_init k m)) (slot (table_base k t) j) = identity_entry t (unat j)"
proof -
  note kd = layout_okD(1) [OF l]
  define ph where "ph = foldl (init_table k) (phys m) [0..<4]"
  have init: "phys (paging_init k m) =
      foldl (\<lambda>ph d. store32 ph (slot (kernelDirectory k) (word_of_nat d)) 0) ph [4..<ENTRIES_PER_TABLE]"
    by (simp add: paging_init_def ph_def IDENTITY_MAPPED_TABLES_def Let_def)
  note ph = init_tables [OF l order_refl j, of "phys m", folded ph_def]
  have uj: "unat j < 1024" "j < 4 \<longleftrightarrow> unat j < 4"
    using j by (simp_all add: word_less_nat_alt)
  then have "unat j \<in> set [4..<ENTRIES_PER_TABLE] \<longleftrightarrow> \<not> j < 4"
    unfolding ENTRIES_PER_TABLE_def set_upt by auto
  then show "load32 (phys (paging_init k m)) (slot (kernelDirectory k) j) =
      (if j < 4 then table_base k (unat j) OR PAGE_PRESENT OR PAGE_WRITABLE OR PAGE_USER else 0)"
    unfolding init using store_loop(2) [OF kd whole_table(2) kd j, of "\<lambda>_. 0" ph] conjunct1 [OF ph] uj(2) by simp
  show "load32 (phys (paging_init k m)) (slot (table_base k t) j) = identity_entry t (unat j)" if t: "t < 4"
    unfolding init using store_loop(2) [OF kd whole_table(2) layout_okD(3) [OF l t] j, of "\<lambda>_. 0" ph] layout_okD(5) [OF l t]
      conjunct2 [OF ph, rule_format, OF t] by simp
qed


lemma paging_init_ok:
  assumes "layout_ok k (pm m)" "frames_ok (pm m)"
  shows "kernel_ok k (paging_init k m)"
proof -
  have pm: "pm (paging_init k m) = pm m"
    by (simp add: paging_init_def Let_def)
  have "page_of (load32 (phys (paging_init k m)) (slot (kernelDirectory k) i)) = table_base k (unat i)" if "i < 4" for i
    using that paging_init_entries(1) [OF assms(1) small_index [OF that]] layout_okD(3) [OF assms(1), of "unat i"]
    by (simp add: entry_flags(1) word_less_nat_alt)
  then show ?thesis
    using assms layout_okD(1,2,4) [OF assms(1)] by (simp add: kernel_ok_def pm word_less_nat_alt)
qed

lemma unat_indices: "unat (pdeIndexFor v) = unat v div 4194304" "unat (pteIndexFor v) = unat v div 4096 mod 1024"
proof -
  show "unat (pdeIndexFor v) = unat v div 4194304"
    by (simp add: pdeIndexFor_def drop_bit_eq_div unat_div_distrib)
  have "(1023 :: u32) = mask 10"
    by (simp add: mask_eq_exp_minus_1)
  then have "pteIndexFor v = take_bit 10 (drop_bit 12 v)"
    by (simp only: pteIndexFor_def take_bit_eq_mask)
  then show "unat (pteIndexFor v) = unat v div 4096 mod 1024"
    by (simp add: take_bit_eq_mod drop_bit_eq_div unat_mod_distrib unat_div_distrib)
qed

lemma identity_entry_page:
  "identity_entry (unat (pdeIndexFor v)) (unat (pteIndexFor v)) = page_of v OR PAGE_PRESENT OR PAGE_WRITABLE"
proof -
  let ?p = "pdeIndexFor v" and ?t = "pteIndexFor v"
  have "unat v div 4194304 = unat v div 4096 div 1024"
    using div_mult2_eq [of "unat v" 4096 1024] by simp
  then have sum: "unat v div 4096 = unat ?p * 1024 + unat ?t"
    using div_mult_mod_eq [of "unat v div 4096" 1024] by (simp add: unat_indices)
  have "page_of v = word_of_nat (unat (page_of v))"
    by simp
  also have "\<dots> = word_of_nat ((unat ?p * 1024 + unat ?t) * 4096)"
    by (simp only: unat_page_of sum)
  also have "\<dots> = (word_of_nat (unat ?p) * 1024 + word_of_nat (unat ?t)) * 4096"
    by (simp only: of_nat_mult of_nat_add of_nat_numeral)
  finally have "page_of v = (word_of_nat (unat ?p) * 1024 + word_of_nat (unat ?t)) * 4096" .
  then show ?thesis
    by (simp add: identity_entry_def ENTRIES_PER_TABLE_def PAGE_SIZE_BYTES_def)
qed

lemma paging_init_walk:
  assumes l: "layout_ok k (pm m)"
  shows "mmu_walk (phys (paging_init k m)) (kernelDirectory k) v = (if unat v < 2 ^ 24 then Some (page_of v, False, True) else None)"
proof -
  let ?ph = "phys (paging_init k m)" and ?i = "pdeIndexFor v"
  have low: "?i < 4 \<longleftrightarrow> unat v < 2 ^ 24"
    unfolding word_less_nat_alt unat_indices(1) by auto
  note e = paging_init_entries(1) [OF l index_bounds(1) [of v], of m]
  show ?thesis
  proof (cases "?i < 4")
    case False
    then show ?thesis
      using e low mmu_walk_absent [of ?ph "kernelDirectory k" v] by simp
  next
    case True
    then have t: "unat ?i < 4"
      by (simp add: word_less_nat_alt)
    let ?b = "table_base k (unat ?i)" and ?f = "page_of v OR PAGE_PRESENT OR PAGE_WRITABLE"
    have b: "page_of (?b OR PAGE_PRESENT OR PAGE_WRITABLE OR PAGE_USER) = ?b"
      by (rule entry_flags(1) [OF layout_okD(3) [OF l t]])
    have pte: "load32 ?ph (slot ?b (pteIndexFor v)) = ?f"
      using paging_init_entries(2) [OF l index_bounds(2) [of v] t] by (simp only: identity_entry_page)
    have f: "page_of ?f = page_of v" "present ?f" "bit ?f 1" "\<not> bit ?f 2"
      using entry_flags(3) [OF aligned_page_of [of v]] aligned_page_of [of v]
      by (simp_all add: present_def bit_or_iff bit_flags aligned_bits del: bit_0 aligned_page_of)
    have "present (?b OR PAGE_PRESENT OR PAGE_WRITABLE OR PAGE_USER)" "bit (?b OR PAGE_PRESENT OR PAGE_WRITABLE OR PAGE_USER) 1"
      by (simp_all add: present_def bit_or_iff bit_flags del: bit_0)
    with True e b pte f low show ?thesis
      by (simp add: mmu_walk_def Let_def page_of_def [symmetric] flag_and bit_and_iff)
  qed
qed


section \<open>The abstract view: one page map per address space\<close>

type_synonym page_map = "u32 \<rightharpoonup> u32 \<times> bool"

datatype paging_op = New_space | Map_page u32 u32 u32 bool | Drop_space u32

text \<open>
  A run of the paging operations beside the page maps they mean: a new space is an empty map, a
  successful mapping is an update at its address, a failed one changes nothing. The kernel
  passes only address spaces it holds.
\<close>

fun paging_step :: "klayout \<Rightarrow> machine \<times> (u32 \<rightharpoonup> page_map) \<Rightarrow> paging_op \<Rightarrow> machine \<times> (u32 \<rightharpoonup> page_map)" where
  "paging_step k (m, sp) New_space =
     (let (a, m') = paging_create_address_space k m in (m', if a = 0 then sp else sp(a \<mapsto> Map.empty)))"
| "paging_step k (m, sp) (Map_page a v p w) =
     (case sp a of
        None \<Rightarrow> (m, sp)
      | Some f \<Rightarrow> let (ok, m') = paging_map_user_page m a v p w in (m', if ok then sp(a \<mapsto> f(v \<mapsto> (p, w))) else sp))"
| "paging_step k (m, sp) (Drop_space a) =
     (case sp a of None \<Rightarrow> (m, sp) | Some f \<Rightarrow> (paging_destroy_address_space k m a, sp(a := None)))"

definition boot_machine :: "klayout \<Rightarrow> u32 \<Rightarrow> (u32 \<Rightarrow> u8) \<Rightarrow> machine" where
  "boot_machine k kernelEnd ram = paging_init k \<lparr>phys = ram, pm = memory_init kernelEnd, cr3 = 0, paging_on = False\<rparr>"

definition paging_run :: "klayout \<Rightarrow> u32 \<Rightarrow> (u32 \<Rightarrow> u8) \<Rightarrow> paging_op list \<Rightarrow> machine \<times> (u32 \<rightharpoonup> page_map)" where
  "paging_run k kernelEnd ram ops = foldl (paging_step k) (boot_machine k kernelEnd ram, Map.empty) ops"

definition user_view :: "page_map \<Rightarrow> u32 \<Rightarrow> (u32 \<times> bool \<times> bool) option" where
  "user_view f v = (if unat v < 2 ^ 24 then Some (v, False, True) else map_option (\<lambda>(p, w). (p, True, w)) (f v))"

definition kernel_map :: "klayout \<Rightarrow> machine \<Rightarrow> bool" where
  "kernel_map k m \<longleftrightarrow> (\<forall>i. user_index i \<longrightarrow> \<not> present (load32 (phys m) (slot (kernelDirectory k) i))) \<and>
     (\<forall>v. mmu_walk (phys m) (kernelDirectory k) v = (if unat v < 2 ^ 24 then Some (page_of v, False, True) else None))"

definition spaces_ok :: "klayout \<Rightarrow> machine \<Rightarrow> (u32 \<rightharpoonup> page_map) \<Rightarrow> bool" where
  "spaces_ok k m sp \<longleftrightarrow> kernel_ok k m \<and> kernel_map k m \<and>
     (\<forall>a \<in> dom sp. space_ok k m a \<and> (\<forall>v. aligned v \<longrightarrow> mmu_walk (phys m) a v = user_view (the (sp a)) v)) \<and>
     (\<forall>a \<in> dom sp. \<forall>b \<in> dom sp. a \<noteq> b \<longrightarrow> space_pages (phys m) a \<inter> space_pages (phys m) b = {}) \<and>
     live_pages (pm m) = (\<Union>a \<in> dom sp. space_pages (phys m) a)"

lemma spaces_okI:
  assumes "kernel_ok k m" "kernel_map k m" "\<And>a. a \<in> dom sp \<Longrightarrow> space_ok k m a"
    "\<And>a v. a \<in> dom sp \<Longrightarrow> aligned v \<Longrightarrow> mmu_walk (phys m) a v = user_view (the (sp a)) v"
    "\<And>a b. a \<in> dom sp \<Longrightarrow> b \<in> dom sp \<Longrightarrow> a \<noteq> b \<Longrightarrow> space_pages (phys m) a \<inter> space_pages (phys m) b = {}"
    "live_pages (pm m) = (\<Union>a \<in> dom sp. space_pages (phys m) a)"
  shows "spaces_ok k m sp"
  using assms unfolding spaces_ok_def by blast

lemma spaces_okD:
  assumes "spaces_ok k m sp"
  shows "kernel_ok k m" "kernel_map k m" "a \<in> dom sp \<Longrightarrow> space_ok k m a"
    "a \<in> dom sp \<Longrightarrow> aligned v \<Longrightarrow> mmu_walk (phys m) a v = user_view (the (sp a)) v"
    "a \<in> dom sp \<Longrightarrow> b \<in> dom sp \<Longrightarrow> a \<noteq> b \<Longrightarrow> space_pages (phys m) a \<inter> space_pages (phys m) b = {}"
    "live_pages (pm m) = (\<Union>a \<in> dom sp. space_pages (phys m) a)"
  using assms unfolding spaces_ok_def by blast+

text \<open>Kernel pages do not change when only live pages are written.\<close>

lemma kernel_map_cong:
  assumes k: "kernel_ok k m" and map: "kernel_map k m" and same: "\<And>b. in_kernel (pm m) (page_of b) \<Longrightarrow> phys m' b = phys m b"
  shows "kernel_map k m'"
proof -
  note kd = kernel_okD(2,3) [OF k]
  have dir: "phys m' b = phys m b" if "page_of b = kernelDirectory k" for b
    using kd(2) that by (intro same) simp
  have entry: "load32 (phys m') (slot (kernelDirectory k) i) = load32 (phys m) (slot (kernelDirectory k) i)" if "i < 1024" for i
    by (intro load32_cong [OF kd(1) that] dir)
  have absent: "\<not> present (load32 (phys m) (slot (kernelDirectory k) i))" if "user_index i" for i
    using map that by (simp add: kernel_map_def)
  have "mmu_walk (phys m') (kernelDirectory k) v = mmu_walk (phys m) (kernelDirectory k) v" for v
  proof (cases "pdeIndexFor v < 4")
    case True
    then show ?thesis
      using kernel_okD(4) [OF k True] by (intro mmu_walk_cong [OF kd(1) dir] same) simp_all
  next
    case False
    from absent [OF user_index_pde [OF False]] show ?thesis
      using entry [OF index_bounds(1) [of v]] by (simp add: mmu_walk_absent)
  qed
  moreover have "\<not> present (load32 (phys m') (slot (kernelDirectory k) i))" if "user_index i" for i
    using absent [OF that] entry [of i] that by (simp add: user_index_def)
  ultimately show ?thesis
    using map by (simp add: kernel_map_def)
qed

lemma kernel_map_init: "layout_ok k (pm m) \<Longrightarrow> kernel_map k (paging_init k m)"
  using paging_init_walk [of k m] paging_init_entries(1) [of k "pm m" _ m]
  by (auto simp: kernel_map_def user_index_def not_less)

lemma boot_spaces_ok:
  assumes "layout_ok k (memory_init kernelEnd)" "unat kernelEnd \<le> 2 ^ 24"
  shows "spaces_ok k (boot_machine k kernelEnd ram) Map.empty"
proof -
  have init: "frames_ok (memory_init kernelEnd)" "live_pages (memory_init kernelEnd) = {}"
    using assms(2) by (simp_all add: memory_init_ok)
  have pm: "pm (boot_machine k kernelEnd ram) = memory_init kernelEnd"
    by (simp add: boot_machine_def paging_init_def Let_def)
  show ?thesis
    using init assms(1) by (intro spaces_okI) (simp_all add: pm, simp_all add: boot_machine_def paging_init_ok kernel_map_init)
qed

text \<open>The kernel part of a space is the kernel's own.\<close>

lemma space_walk_kernel:
  assumes "space_ok k m a" "kernel_map k m" "pdeIndexFor v < 4"
  shows "mmu_walk (phys m) a v = Some (page_of v, False, True)"
proof -
  have "unat v < 2 ^ 24"
    using assms(3) unfolding word_less_nat_alt unat_indices(1) by (simp add: div_less_iff_less_mult)
  moreover have "mmu_walk (phys m) a v = mmu_walk (phys m) (kernelDirectory k) v"
    by (simp add: mmu_walk_def space_okD(6) [OF assms(1,3)])
  ultimately show ?thesis
    using assms(2) by (simp add: kernel_map_def)
qed

text \<open>Only live pages are written, so the spaces apart from the one that changes keep their translation.\<close>

lemma other_space_kept:
  assumes k: "kernel_ok k m" and b: "space_ok k m b" and P: "P \<subseteq> live_pages (pm m')" "reserved_pages (pm m') = reserved_pages (pm m)"
    and apart: "space_pages (phys m) b \<inter> P = {}" and same: "\<And>x. page_of x \<notin> P \<Longrightarrow> phys m' x = phys m x"
    and live: "space_pages (phys m) b \<subseteq> live_pages (pm m')"
  shows "space_ok k m' b" "space_pages (phys m') b = space_pages (phys m) b" "mmu_walk (phys m') b v = mmu_walk (phys m) b v"
proof -
  have "a \<notin> P" if "in_kernel (pm m) a" for a
    using that P in_kernel_not_live [of "pm m'" a] by (auto simp: in_kernel_def)
  then have kd: "kernelDirectory k \<notin> P" "\<And>i. i < 4 \<Longrightarrow> page_of (load32 (phys m) (slot (kernelDirectory k) i)) \<notin> P"
    using kernel_okD(3,4) [OF k] by blast+
  have b': "b \<notin> P" "space_tables (phys m) b \<inter> P = {}"
    using apart by (auto simp: space_pages_def)
  note f = space_frame [OF b kernel_okD(2) [OF k] kd(1) b'(1) same live]
  show "space_ok k m' b" "space_pages (phys m') b = space_pages (phys m) b" "mmu_walk (phys m') b v = mmu_walk (phys m) b v"
    using f(1,2) f(3) [OF _ b'(2) kd(2)] by blast+
qed


lemma kernel_page_kept:
  assumes "P \<subseteq> live_pages (pm m')" "reserved_pages (pm m') = reserved_pages (pm m)"
    "\<And>x. page_of x \<notin> P \<Longrightarrow> phys m' x = phys m x" "in_kernel (pm m) (page_of b)"
  shows "phys m' b = phys m b"
  using assms in_kernel_not_live [of "pm m'" "page_of b"] by (auto simp: in_kernel_def)

lemma spaces_ok_new:
  assumes ok: "spaces_ok k m sp" and c: "paging_create_address_space k m = (a, m')" "a \<noteq> 0"
  shows "spaces_ok k m' (sp(a \<mapsto> Map.empty))"
proof -
  note k = spaces_okD(1) [OF ok] and km = spaces_okD(2) [OF ok]
  note t = create_address_space_taken [OF k c] and s = create_address_space_ok(1-3) [OF k c]
  have frame: "phys m' x = phys m x" if "page_of x \<notin> {a}" for x
    using t(7) that by simp
  have P: "{a} \<subseteq> live_pages (pm m')"
    using t(2) by simp
  have old: "space_ok k m' b" "space_pages (phys m') b = space_pages (phys m) b" "mmu_walk (phys m') b v = mmu_walk (phys m) b v"
    "a \<notin> space_pages (phys m) b" if b: "b \<in> dom sp" for b v
  proof -
    have "space_pages (phys m) b \<subseteq> live_pages (pm m)"
      using space_okD(3) [OF spaces_okD(3) [OF ok b]] by blast
    then show "a \<notin> space_pages (phys m) b"
      using t(1) by blast
    then show "space_ok k m' b" "space_pages (phys m') b = space_pages (phys m) b" "mmu_walk (phys m') b v = mmu_walk (phys m) b v"
      using other_space_kept [OF k spaces_okD(3) [OF ok b] P t(6) _ frame] t(2) \<open>space_pages (phys m) b \<subseteq> live_pages (pm m)\<close> by auto
  qed
  have a: "a \<notin> dom sp"
    using spaces_okD(3) [OF ok, of a] space_okD(1) t(1) by blast
  have km': "kernel_map k m'"
    by (rule kernel_map_cong [OF k km kernel_page_kept [OF P t(6) frame]])
  have walk: "mmu_walk (phys m') a v = user_view Map.empty v" if "aligned v" for v
  proof (cases "pdeIndexFor v < 4")
    case True
    then show ?thesis
      using space_walk_kernel [OF s(2) km' True] page_of_aligned [OF that] unfolding word_less_nat_alt unat_indices(1)
      by (simp add: user_view_def div_less_iff_less_mult)
  next
    case False
    then have "mmu_walk (phys m') a v = None"
      using t(10) [OF index_bounds(1) [of v]] by (simp add: mmu_walk_absent)
    then show ?thesis
      using False unfolding word_less_nat_alt unat_indices(1) by (simp add: user_view_def div_less_iff_less_mult)
  qed
  show ?thesis
  proof (rule spaces_okI)
    show "live_pages (pm m') = (\<Union>b \<in> dom (sp(a \<mapsto> Map.empty)). space_pages (phys m') b)"
      using t(2) s(3) old(2) spaces_okD(6) [OF ok] by auto
    show "space_ok k m' b" if "b \<in> dom (sp(a \<mapsto> Map.empty))" for b
      using that s(2) old(1) [of b] by (cases "b = a") auto
    show "mmu_walk (phys m') b v = user_view (the ((sp(a \<mapsto> Map.empty)) b)) v" if "b \<in> dom (sp(a \<mapsto> Map.empty))" "aligned v" for b v
      using that walk old(3) [of b v] spaces_okD(4) [OF ok, of b v] by (cases "b = a") auto
    show "space_pages (phys m') b \<inter> space_pages (phys m') d = {}"
      if "b \<in> dom (sp(a \<mapsto> Map.empty))" "d \<in> dom (sp(a \<mapsto> Map.empty))" "b \<noteq> d" for b d
      using that s(3) old(2,4) [of b] old(2,4) [of d] spaces_okD(5) [OF ok, of b d] by (cases "b = a"; cases "d = a") auto
  qed (fact s(1) km')+
qed


lemma user_mapping_high: "paging_map_user_page m a v p w = (True, m') \<Longrightarrow> \<not> unat v < 2 ^ 24 \<and> aligned v"
  by (auto simp: paging_map_user_page_def aligned_mod IDENTITY_MAPPED_TABLES_def word_less_nat_alt unat_indices Let_def
      div_less_iff_less_mult split: if_splits)

lemma spaces_ok_map:
  assumes ok: "spaces_ok k m sp" and a: "sp a = Some f" and c: "paging_map_user_page m a v p w = (True, m')"
  shows "spaces_ok k m' (sp(a \<mapsto> f(v \<mapsto> (p, w))))"
proof -
  have ad: "a \<in> dom sp"
    using a by auto
  note k = spaces_okD(1) [OF ok] and km = spaces_okD(2) [OF ok] and sa = spaces_okD(3) [OF ok ad]
  note r = map_user_page_ok [OF k sa c]
  have P: "space_pages (phys m') a \<subseteq> live_pages (pm m')"
    using r(5) by blast
  have old: "space_ok k m' b" "space_pages (phys m') b = space_pages (phys m) b" "mmu_walk (phys m') b v' = mmu_walk (phys m) b v'"
    "space_pages (phys m) b \<inter> space_pages (phys m') a = {}" if b: "b \<in> dom sp" "b \<noteq> a" for b v'
  proof -
    have live: "space_pages (phys m) b \<subseteq> live_pages (pm m)"
      using space_okD(3) [OF spaces_okD(3) [OF ok b(1)]] by blast
    then show apart: "space_pages (phys m) b \<inter> space_pages (phys m') a = {}"
      using r(4) spaces_okD(5) [OF ok b(1) ad b(2)] by blast
    have "space_pages (phys m) b \<subseteq> live_pages (pm m')"
      using live r(5) by blast
    then show "space_ok k m' b" "space_pages (phys m') b = space_pages (phys m) b" "mmu_walk (phys m') b v' = mmu_walk (phys m) b v'"
      using other_space_kept [OF k spaces_okD(3) [OF ok b(1)] P r(9) apart r(6)] by blast+
  qed
  have walk: "mmu_walk (phys m') a v' = user_view (f(v \<mapsto> (p, w))) v'" if "aligned v'" for v'
    using r(7) r(8) [OF that] spaces_okD(4) [OF ok ad that] user_mapping_high [OF c] a
    by (cases "v' = v") (simp_all add: user_view_def)
  have all: "(\<Union>b \<in> dom sp. space_pages (phys m') b) = space_pages (phys m') a \<union> (\<Union>b \<in> dom sp. space_pages (phys m) b)"
    using old(2) r(3) ad by blast
  show ?thesis
  proof (rule spaces_okI)
    show "kernel_map k m'"
      by (rule kernel_map_cong [OF k km kernel_page_kept [OF P r(9) r(6)]])
    show "live_pages (pm m') = (\<Union>b \<in> dom (sp(a \<mapsto> f(v \<mapsto> (p, w)))). space_pages (phys m') b)"
      using all ad r(5) spaces_okD(6) [OF ok] by (simp add: insert_absorb Un_commute)
    show "space_ok k m' b" if "b \<in> dom (sp(a \<mapsto> f(v \<mapsto> (p, w))))" for b
      using that r(2) old(1) [of b] ad by (cases "b = a") auto
    show "mmu_walk (phys m') b v' = user_view (the ((sp(a \<mapsto> f(v \<mapsto> (p, w)))) b)) v'"
      if "b \<in> dom (sp(a \<mapsto> f(v \<mapsto> (p, w))))" "aligned v'" for b v'
      using that walk old(3) [of b v'] spaces_okD(4) [OF ok, of b v'] by (cases "b = a") auto
    show "space_pages (phys m') b \<inter> space_pages (phys m') d = {}"
      if "b \<in> dom (sp(a \<mapsto> f(v \<mapsto> (p, w))))" "d \<in> dom (sp(a \<mapsto> f(v \<mapsto> (p, w))))" "b \<noteq> d" for b d
      using that old(2,4) [of b] old(2,4) [of d] spaces_okD(5) [OF ok, of b d] by (cases "b = a"; cases "d = a") auto
  qed (fact r(1))
qed

lemma spaces_ok_drop:
  assumes ok: "spaces_ok k m sp" and a: "a \<in> dom sp"
  defines "m' \<equiv> paging_destroy_address_space k m a"
  shows "spaces_ok k m' (sp(a := None))"
proof -
  note k = spaces_okD(1) [OF ok] and km = spaces_okD(2) [OF ok] and sa = spaces_okD(3) [OF ok a]
  note r = destroy_address_space_ok [OF k sa, folded m'_def]
  have ker: "in_kernel (pm m) (page_of x) \<Longrightarrow> phys m' x = phys m x" for x
    using r(3) [of x] space_okD(1) [OF sa] in_kernel_not_live by metis
  have old: "space_ok k m' b" "space_pages (phys m') b = space_pages (phys m) b" "mmu_walk (phys m') b v = mmu_walk (phys m) b v"
    "space_pages (phys m) b \<inter> space_pages (phys m) a = {}" if b: "b \<in> dom sp" "b \<noteq> a" for b v
  proof -
    note sb = spaces_okD(3) [OF ok b(1)]
    show apart: "space_pages (phys m) b \<inter> space_pages (phys m) a = {}"
      using spaces_okD(5) [OF ok b(1) a b(2)] .
    have kd: "kernelDirectory k \<notin> {a}" "i < 4 \<Longrightarrow> page_of (load32 (phys m) (slot (kernelDirectory k) i)) \<notin> {a}" for i
      using kernel_okD(3,4) [OF k] space_okD(1) [OF sa] in_kernel_not_live by (metis singletonD)+
    have live: "space_pages (phys m) b \<subseteq> live_pages (pm m')"
      using apart r(2) space_okD(3) [OF sb] by auto
    have frame: "phys m' x = phys m x" if "page_of x \<notin> {a}" for x
      using r(3) that by simp
    have b': "b \<notin> {a}" "space_tables (phys m) b \<inter> {a} = {}"
      using b(2) apart by (auto simp: space_pages_def)
    note f = space_frame [OF sb kernel_okD(2) [OF k] kd(1) b'(1) frame live]
    show "space_ok k m' b" "space_pages (phys m') b = space_pages (phys m) b" "mmu_walk (phys m') b v = mmu_walk (phys m) b v"
      using f(1,2) f(3) [OF _ b'(2) kd(2)] by blast+
  qed
  have "(\<Union>b \<in> dom sp - {a}. space_pages (phys m) b) = (\<Union>b \<in> dom sp. space_pages (phys m) b) - space_pages (phys m) a"
    using old(4) by blast
  then have live: "live_pages (pm m') = (\<Union>b \<in> dom sp - {a}. space_pages (phys m') b)"
    using r(2) spaces_okD(6) [OF ok] old(2) by simp
  show ?thesis
  proof (rule spaces_okI)
    show "kernel_map k m'"
      by (rule kernel_map_cong [OF k km ker])
    show "live_pages (pm m') = (\<Union>b \<in> dom (sp(a := None)). space_pages (phys m') b)"
      using live by simp
    show "space_ok k m' b" if "b \<in> dom (sp(a := None))" for b
      using that old(1) [of b] by auto
    show "mmu_walk (phys m') b v = user_view (the ((sp(a := None)) b)) v" if "b \<in> dom (sp(a := None))" "aligned v" for b v
      using that old(3) [of b v] spaces_okD(4) [OF ok, of b v] by auto
    show "space_pages (phys m') b \<inter> space_pages (phys m') d = {}"
      if "b \<in> dom (sp(a := None))" "d \<in> dom (sp(a := None))" "b \<noteq> d" for b d
      using that old(2) [of b] old(2) [of d] spaces_okD(5) [OF ok, of b d] by auto
  qed (fact r(1))
qed

lemma spaces_ok_step:
  assumes "spaces_ok k m sp" "paging_step k (m, sp) x = (m', sp')"
  shows "spaces_ok k m' sp'"
proof (cases x)
  case New_space
  obtain a m1 where c: "paging_create_address_space k m = (a, m1)"
    by fastforce
  with assms(2) New_space have m': "m' = m1" "sp' = (if a = 0 then sp else sp(a \<mapsto> Map.empty))"
    by simp_all
  show ?thesis
    using c m' assms(1) spaces_ok_new [OF assms(1) c] create_address_space_failed [OF spaces_okD(1) [OF assms(1)], of m1]
    by (cases "a = 0") simp_all
next
  case (Map_page a v p w)
  obtain r m1 where c: "paging_map_user_page m a v p w = (r, m1)"
    by fastforce
  show ?thesis
  proof (cases "sp a")
    case (Some f)
    with assms(2) Map_page c have m': "m' = m1" "sp' = (if r then sp(a \<mapsto> f(v \<mapsto> (p, w))) else sp)"
      by simp_all
    show ?thesis
      using c m' assms(1) spaces_ok_map [OF assms(1) Some, of v p w m1] map_user_page_failed [OF spaces_okD(1) [OF assms(1)], of a v p w m1]
      by (cases r) simp_all
  qed (use assms Map_page in simp)
next
  case (Drop_space a)
  then show ?thesis
    using assms spaces_ok_drop [OF assms(1), of a] by (cases "sp a") auto
qed

lemma spaces_ok_run:
  assumes "layout_ok k (memory_init kernelEnd)" "unat kernelEnd \<le> 2 ^ 24" "paging_run k kernelEnd ram ops = (m, sp)"
  shows "spaces_ok k m sp"
proof -
  have "spaces_ok k m sp" if "spaces_ok k m0 sp0" "foldl (paging_step k) (m0, sp0) ops = (m, sp)" for m0 sp0
    using that
  proof (induction ops arbitrary: m0 sp0)
    case (Cons x ops)
    obtain m1 sp1 where step: "paging_step k (m0, sp0) x = (m1, sp1)"
      by fastforce
    show ?case
      using Cons.IH [OF spaces_ok_step [OF Cons.prems(1) step]] Cons.prems(2) step by simp
  qed simp
  from this [OF boot_spaces_ok [OF assms(1,2)]] assms(3) show ?thesis
    by (simp add: paging_run_def)
qed


section \<open>Properties\<close>

text \<open>
  C35. Address spaces are isolated page maps. After booting and any sequence of creations, mappings
  (accepted, rejected or out of memory) and destructions, the processor's walk of every address space
  is exactly the map its own operations built: the first 16 MiB are the identity, supervisor only; above
  them a page is visible, for user code, exactly where this space mapped it and with the permission
  it asked for, whatever the other spaces did. The pages held are exactly those of the existing
  spaces' directories and tables, and no page belongs to two of them.
\<close>

theorem paging_refines_page_maps:
  assumes "layout_ok k (memory_init kernelEnd)" "unat kernelEnd \<le> 2 ^ 24"
    and "paging_run k kernelEnd ram ops = (m, sp)"
  shows "(\<forall>a f v. sp a = Some f \<and> aligned v \<longrightarrow> mmu_walk (phys m) a v =
        (if unat v < 2 ^ 24 then Some (v, False, True) else map_option (\<lambda>(p, w). (p, True, w)) (f v))) \<and>
    live_pages (pm m) = (\<Union>a \<in> dom sp. space_pages (phys m) a) \<and>
    (\<forall>a \<in> dom sp. \<forall>b \<in> dom sp. a \<noteq> b \<longrightarrow> space_pages (phys m) a \<inter> space_pages (phys m) b = {})"
proof -
  note ok = spaces_ok_run [OF assms]
  have "mmu_walk (phys m) a v = user_view f v" if "sp a = Some f" "aligned v" for a f v
    using spaces_okD(4) [OF ok _ that(2), of a] that(1) by (simp add: domI)
  then show ?thesis
    using spaces_okD(5,6) [OF ok] by (auto simp: user_view_def)
qed

definition sample_layout :: klayout where
  "sample_layout = \<lparr>kernelDirectory = 1114112, identityTables = 1118208\<rparr>"

lemma sample_layout_ok: "layout_ok sample_layout (memory_init 1179648)"
proof -
  have "unat (reserved_pages (memory_init 1179648)) = 288"
    by (simp add: memory_init_ok(3) reserved_count_def)
  moreover have four: "t < 4 \<longleftrightarrow> t = 0 \<or> t = 1 \<or> t = 2 \<or> t = 3" for t :: nat
    by linarith
  ultimately show ?thesis
    unfolding layout_ok_def four
    by (auto simp: sample_layout_def table_base_def aligned_def in_kernel_def)
qed

theorem paging_refines_page_maps_witness:
  "let r = paging_run sample_layout 1179648 (\<lambda>_. 0) [New_space]
   in live_pages (pm (fst r)) = (\<Union>a \<in> dom (snd r). space_pages (phys (fst r)) a)"
  using paging_refines_page_maps [OF sample_layout_ok, of "\<lambda>_. 0" "[New_space]"]
  by (simp add: Let_def split_beta prod_eq_iff)

end
