(* ===== verification/Scheduler.thy ===== *)
theory Scheduler
  imports Paging Elf
begin

text \<open>
  Tasks and scheduling, \<^verbatim>\<open>22-os/scheduler/scheduler.cpp\<close>. The state is the task table, the index of
  the running task, the next process identifier, the kernel stack pointer of the task state
  segment and the machine of theory \<open>Paging\<close>. A task's own kernel stack is represented by the trap
  frame at its top (\<open>t_frame\<close>) and the saved stack pointer; the addresses the linker gives the stacks and
  the entry point of the idle task are arguments (\<open>kimage\<close>). A software interrupt that yields is the
  call of its handler with the stack pointer at that moment.
\<close>

definition MAX_TASKS :: nat where "MAX_TASKS = 10"
definition USER_VIRTUAL_BASE :: u32 where "USER_VIRTUAL_BASE = 0x01000000"
definition USER_CODE_VADDR :: u32 where "USER_CODE_VADDR = USER_VIRTUAL_BASE"
definition USER_STACK_PAGE_VADDR :: u32 where "USER_STACK_PAGE_VADDR = USER_VIRTUAL_BASE + PAGE_SIZE_BYTES"
definition USER_STACK_TOP_VADDR :: u32 where "USER_STACK_TOP_VADDR = USER_VIRTUAL_BASE + 2 * PAGE_SIZE_BYTES"

definition KERNEL_CODE_SELECTOR :: u32 where "KERNEL_CODE_SELECTOR = 8"
definition KERNEL_DATA_SELECTOR :: u32 where "KERNEL_DATA_SELECTOR = 16"
definition USER_CODE_SELECTOR_RPL3 :: u32 where "USER_CODE_SELECTOR_RPL3 = 24 OR 3"
definition USER_DATA_SELECTOR_RPL3 :: u32 where "USER_DATA_SELECTOR_RPL3 = 32 OR 3"

record InterruptFrame =
  f_gs :: u32
  f_fs :: u32
  f_es :: u32
  f_ds :: u32
  f_edi :: u32
  f_esi :: u32
  f_ebp :: u32
  f_esp :: u32
  f_ebx :: u32
  f_edx :: u32
  f_ecx :: u32
  f_eax :: u32
  f_interrupt_number :: u32
  f_error_code :: u32
  f_eip :: u32
  f_cs :: u32
  f_eflags :: u32
  f_useresp :: u32
  f_ss :: u32

datatype ProcessState = Unused | Ready | Running | Blocked | Dead

record Task =
  t_pid :: u32
  t_state :: ProcessState
  t_savedEsp :: u32
  t_isUser :: bool
  t_userCodePage :: u32
  t_userStackPage :: u32
  t_elfPages :: "u32 list"
  t_elfPageCount :: u32
  t_addressSpace :: u32
  t_frame :: InterruptFrame

record kimage =
  k_layout :: klayout
  k_stackTop :: "nat \<Rightarrow> u32"
  k_idleEntry :: u32

record sched =
  mach :: machine
  tasks :: "Task list"
  currentTaskIndex :: int
  nextPid :: u32
  tss_esp0 :: u32

definition upd_task :: "sched \<Rightarrow> nat \<Rightarrow> (Task \<Rightarrow> Task) \<Rightarrow> sched" where
  "upd_task s i f = s\<lparr>tasks := (tasks s)[i := f (tasks s ! i)]\<rparr>"

definition kernelStackTop :: "kimage \<Rightarrow> nat \<Rightarrow> u32" where
  "kernelStackTop k i = k_stackTop k i"

text \<open>\<^verbatim>\<open>sizeof(InterruptFrame)\<close> is 76.\<close>

definition placeInitialFrame :: "kimage \<Rightarrow> nat \<Rightarrow> Task \<Rightarrow> Task" where
  "placeInitialFrame k i t =
     (let frameAddr = (kernelStackTop k i - 76) AND NOT 15
      in t\<lparr>t_frame := (t_frame t)\<lparr>f_edi := 0, f_esi := 0, f_ebp := 0, f_esp := 0, f_ebx := 0, f_edx := 0, f_ecx := 0, f_eax := 0,
                          f_interrupt_number := 32, f_error_code := 0, f_eflags := 514\<rparr>,
           t_savedEsp := frameAddr\<rparr>)"

definition prepareInitialFrame :: "kimage \<Rightarrow> nat \<Rightarrow> u32 \<Rightarrow> Task \<Rightarrow> Task" where
  "prepareInitialFrame k i entry t =
     (let t1 = placeInitialFrame k i t
      in t1\<lparr>t_frame := (t_frame t1)\<lparr>f_gs := KERNEL_DATA_SELECTOR, f_fs := KERNEL_DATA_SELECTOR, f_es := KERNEL_DATA_SELECTOR,
                           f_ds := KERNEL_DATA_SELECTOR, f_eip := entry, f_cs := KERNEL_CODE_SELECTOR\<rparr>\<rparr>)"

definition prepareUserInitialFrame :: "kimage \<Rightarrow> nat \<Rightarrow> u32 \<Rightarrow> u32 \<Rightarrow> Task \<Rightarrow> Task" where
  "prepareUserInitialFrame k i entry userStackTop t =
     (let t1 = placeInitialFrame k i t
      in t1\<lparr>t_frame := (t_frame t1)\<lparr>f_gs := USER_DATA_SELECTOR_RPL3, f_fs := USER_DATA_SELECTOR_RPL3, f_es := USER_DATA_SELECTOR_RPL3,
                           f_ds := USER_DATA_SELECTOR_RPL3, f_eip := entry, f_cs := USER_CODE_SELECTOR_RPL3,
                           f_useresp := userStackTop, f_ss := USER_DATA_SELECTOR_RPL3\<rparr>\<rparr>)"

fun find_from :: "Task list \<Rightarrow> ProcessState \<Rightarrow> nat list \<Rightarrow> int" where
  "find_from ts wanted [] = -1"
| "find_from ts wanted (i # is) = (if t_state (ts ! i) = wanted then int i else find_from ts wanted is)"

definition findSlot :: "sched \<Rightarrow> ProcessState \<Rightarrow> int" where
  "findSlot s wanted = find_from (tasks s) wanted [0..<MAX_TASKS]"

fun pick_from :: "Task list \<Rightarrow> nat \<Rightarrow> nat list \<Rightarrow> int" where
  "pick_from ts from [] = -1"
| "pick_from ts from (offset # offs) =
     (let idx = (from + offset) mod MAX_TASKS in
      if t_state (ts ! idx) = Ready \<or> t_state (ts ! idx) = Running then int idx else pick_from ts from offs)"

definition pickNext :: "sched \<Rightarrow> int \<Rightarrow> int" where
  "pickNext s from = (let from' = (if from < 0 then 0 else from) in pick_from (tasks s) (nat from') [1..<MAX_TASKS + 1])"

definition switchTo :: "kimage \<Rightarrow> sched \<Rightarrow> nat \<Rightarrow> u32 \<times> sched" where
  "switchTo k s nextIndex =
     (let s1 = (if currentTaskIndex s \<ge> 0 \<and> t_state (tasks s ! nat (currentTaskIndex s)) = Running
                then upd_task s (nat (currentTaskIndex s)) (\<lambda>t. t\<lparr>t_state := Ready\<rparr>) else s);
          s2 = upd_task s1 nextIndex (\<lambda>t. t\<lparr>t_state := Running\<rparr>);
          s3 = s2\<lparr>currentTaskIndex := int nextIndex\<rparr>;
          s4 = s3\<lparr>tss_esp0 := kernelStackTop k nextIndex\<rparr>;
          s5 = s4\<lparr>mach := paging_switch_address_space (mach s4) (t_addressSpace (tasks s4 ! nextIndex))\<rparr>
      in (t_savedEsp (tasks s5 ! nextIndex), s5))"

abbreviation free_page :: "machine \<Rightarrow> u32 \<Rightarrow> machine" where
  "free_page m a \<equiv> m\<lparr>pm := memory_free_page (pm m) a\<rparr>"

text \<open>The loop over \<^verbatim>\<open>elfPages[0..elfPageCount)\<close>, which frees each page and clears its array element.\<close>

fun free_elf_pages :: "machine \<Rightarrow> u32 list \<Rightarrow> nat list \<Rightarrow> machine \<times> u32 list" where
  "free_elf_pages m ps [] = (m, ps)"
| "free_elf_pages m ps (i # is) = free_elf_pages (free_page m (ps ! i)) (ps[i := 0]) is"

definition reclaimSlot :: "kimage \<Rightarrow> sched \<Rightarrow> nat \<Rightarrow> sched" where
  "reclaimSlot k s sl =
     (let t = tasks s ! sl;
          (m1, t1) = (if t_userCodePage t \<noteq> 0 then (free_page (mach s) (t_userCodePage t), t\<lparr>t_userCodePage := 0\<rparr>) else (mach s, t));
          (m2, t2) = (if t_userStackPage t1 \<noteq> 0 then (free_page m1 (t_userStackPage t1), t1\<lparr>t_userStackPage := 0\<rparr>) else (m1, t1));
          (m3, ps) = free_elf_pages m2 (t_elfPages t2) [0..<unat (t_elfPageCount t2)];
          t3 = t2\<lparr>t_elfPages := ps, t_elfPageCount := 0\<rparr>;
          m4 = (if t_isUser t3 \<and> t_addressSpace t3 \<noteq> 0 then paging_destroy_address_space (k_layout k) m3 (t_addressSpace t3) else m3);
          t4 = t3\<lparr>t_isUser := False, t_addressSpace := paging_kernel_address_space (k_layout k)\<rparr>
      in upd_task (s\<lparr>mach := m4\<rparr>) sl (\<lambda>_. t4))"

fun index_from :: "Task list \<Rightarrow> u32 \<Rightarrow> nat list \<Rightarrow> int" where
  "index_from ts pid [] = -1"
| "index_from ts pid (i # is) =
     (if t_pid (ts ! i) = pid \<and> (t_state (ts ! i) = Ready \<or> t_state (ts ! i) = Running \<or> t_state (ts ! i) = Blocked)
      then int i else index_from ts pid is)"

definition indexForPid :: "sched \<Rightarrow> u32 \<Rightarrow> int" where
  "indexForPid s pid = index_from (tasks s) pid [0..<MAX_TASKS]"

definition scheduler_init :: "kimage \<Rightarrow> sched \<Rightarrow> sched" where
  "scheduler_init k s =
     (let s1 = s\<lparr>tasks := map (\<lambda>t. t\<lparr>t_pid := 0, t_state := Unused, t_savedEsp := 0, t_isUser := False, t_userCodePage := 0,
                                  t_userStackPage := 0, t_elfPageCount := 0,
                                  t_addressSpace := paging_kernel_address_space (k_layout k)\<rparr>) (tasks s)\<rparr>;
          s2 = upd_task (s1\<lparr>nextPid := nextPid s1 + 1\<rparr>) 0 (\<lambda>t. t\<lparr>t_pid := nextPid s1, t_state := Ready\<rparr>);
          s3 = upd_task s2 0 (prepareInitialFrame k 0 (k_idleEntry k))
      in s3\<lparr>currentTaskIndex := -1\<rparr>)"

text \<open>The slot a new task gets: an unused one, else a dead one.\<close>

definition freeSlot :: "sched \<Rightarrow> int" where
  "freeSlot s = (let sl = findSlot s Unused in if sl < 0 then findSlot s Dead else sl)"

definition scheduler_create_task :: "kimage \<Rightarrow> sched \<Rightarrow> u32 \<Rightarrow> int \<times> sched" where
  "scheduler_create_task k s entry =
     (let sl = freeSlot s in
      if sl < 0 then (-1, s)
      else
        let s1 = reclaimSlot k s (nat sl);
            pid = nextPid s1;
            s2 = s1\<lparr>nextPid := nextPid s1 + 1\<rparr>;
            s3 = upd_task s2 (nat sl) (\<lambda>t. prepareInitialFrame k (nat sl) entry (t\<lparr>t_pid := pid, t_state := Ready\<rparr>))
        in (sint pid, s3))"

text \<open>Byte loops over a page: \<^verbatim>\<open>dst[i] = 0\<close> and \<^verbatim>\<open>dst[i] = src[i]\<close>.\<close>

definition fill_bytes :: "(u32 \<Rightarrow> u8) \<Rightarrow> u32 \<Rightarrow> nat list \<Rightarrow> (nat \<Rightarrow> u8) \<Rightarrow> (u32 \<Rightarrow> u8)" where
  "fill_bytes ph dst is g = foldl (\<lambda>ph i. ph(dst + word_of_nat i := g i)) ph is"

definition zero_page :: "machine \<Rightarrow> u32 \<Rightarrow> machine" where
  "zero_page m page = m\<lparr>phys := fill_bytes (phys m) page [0..<4096] (\<lambda>_. 0)\<rparr>"

text \<open>
  The resources of a flat user task: its code page, its stack page and its address space, filled and
  mapped; every failure gives back what was taken so far.
\<close>

definition build_user_space :: "klayout \<Rightarrow> machine \<Rightarrow> bytes \<Rightarrow> (u32 \<times> u32 \<times> u32) option \<times> machine" where
  "build_user_space k m code =
     (let (codePage, pm1) = memory_alloc_page (pm m); m1 = m\<lparr>pm := pm1\<rparr> in
      if codePage = 0 then (None, m1)
      else
        let (stackPage, pm2) = memory_alloc_page (pm m1); m2 = m1\<lparr>pm := pm2\<rparr> in
        if stackPage = 0 then (None, free_page m2 codePage)
        else
          let (addressSpace, m3) = paging_create_address_space k m2 in
          if addressSpace = 0 then (None, free_page (free_page m3 codePage) stackPage)
          else
            let m4 = zero_page m3 stackPage;
                m5 = m4\<lparr>phys := fill_bytes (phys m4) codePage [0..<length code] (\<lambda>i. code ! i)\<rparr>;
                m6 = m5\<lparr>phys := fill_bytes (phys m5) codePage [length code..<4096] (\<lambda>_. 0)\<rparr>;
                (ok1, m7) = paging_map_user_page m6 addressSpace USER_CODE_VADDR codePage True;
                (ok2, m8) = (if ok1 then paging_map_user_page m7 addressSpace USER_STACK_PAGE_VADDR stackPage True else (False, m7))
            in
            if \<not> ok1 \<or> \<not> ok2
            then (None, free_page (free_page (paging_destroy_address_space k m8 addressSpace) codePage) stackPage)
            else (Some (codePage, stackPage, addressSpace), m8))"

text \<open>The new occupant of a slot, after what the slot held before has been given back.\<close>

definition commit_task :: "kimage \<Rightarrow> sched \<Rightarrow> nat \<Rightarrow> u32 \<Rightarrow> u32 \<Rightarrow> (Task \<Rightarrow> Task) \<Rightarrow> int \<times> sched" where
  "commit_task k s sl entry stackTop f =
     (let s1 = reclaimSlot k s sl;
          pid = nextPid s1;
          s2 = s1\<lparr>nextPid := nextPid s1 + 1\<rparr>;
          s3 = upd_task s2 sl (\<lambda>t. prepareUserInitialFrame k sl entry stackTop (f (t\<lparr>t_pid := pid, t_state := Ready, t_isUser := True\<rparr>)))
      in (sint pid, s3))"

definition scheduler_create_user_task :: "kimage \<Rightarrow> sched \<Rightarrow> bytes \<Rightarrow> int \<times> sched" where
  "scheduler_create_user_task k s code =
     (if length code > 4096 then (-1, s)
      else
        let sl = freeSlot s in
        if sl < 0 then (-1, s)
        else
          case build_user_space (k_layout k) (mach s) code of
            (None, m') \<Rightarrow> (-1, s\<lparr>mach := m'\<rparr>)
          | (Some (codePage, stackPage, addressSpace), m') \<Rightarrow>
              commit_task k (s\<lparr>mach := m'\<rparr>) (nat sl) USER_CODE_VADDR USER_STACK_TOP_VADDR
                (\<lambda>t. t\<lparr>t_userCodePage := codePage, t_userStackPage := stackPage, t_addressSpace := addressSpace\<rparr>))"

section \<open>Loading an ELF image\<close>

definition elf_rollback :: "klayout \<Rightarrow> machine \<Rightarrow> u32 list \<Rightarrow> u32 \<Rightarrow> machine" where
  "elf_rollback k m pages addressSpace = paging_destroy_address_space k (foldl free_page m pages) addressSpace"

text \<open>The page body: zero it, then copy the part of the file that falls into it.\<close>

definition elf_fill_page :: "machine \<Rightarrow> bytes \<Rightarrow> ElfSegmentPlan \<Rightarrow> u32 \<Rightarrow> u32 \<Rightarrow> machine" where
  "elf_fill_page m img segment p page =
     (let m1 = zero_page m page;
          pageStartInSegment = p * 4096
      in if pageStartInSegment < fileSize segment
         then let bytesAvailable = fileSize segment - pageStartInSegment;
                  bytesToCopy = (if bytesAvailable < 4096 then bytesAvailable else 4096);
                  src = unat (fileOffset segment) + unat pageStartInSegment
              in m1\<lparr>phys := fill_bytes (phys m1) page [0..<unat bytesToCopy] (\<lambda>i. img ! (src + i))\<rparr>
         else m1)"

text \<open>
  The loop over the pages of one segment. The first component says whether it went through; when
  not, the caller rolls back.
\<close>

fun elf_segment_pages :: "machine \<Rightarrow> bytes \<Rightarrow> u32 \<Rightarrow> ElfSegmentPlan \<Rightarrow> u32 list \<Rightarrow> nat list \<Rightarrow> bool \<times> machine \<times> u32 list" where
  "elf_segment_pages m img addressSpace segment pages [] = (True, m, pages)"
| "elf_segment_pages m img addressSpace segment pages (p # ps) =
     (if length pages \<ge> unat ELF_MAX_PAGES then (False, m, pages)
      else
        let (page, pm1) = memory_alloc_page (pm m); m1 = m\<lparr>pm := pm1\<rparr> in
        if page = 0 then (False, m1, pages)
        else
          let pages' = pages @ [page];
              m2 = elf_fill_page m1 img segment (word_of_nat p) page;
              vaddr = virtualAddress segment + word_of_nat p * 4096;
              (ok, m3) = paging_map_user_page m2 addressSpace vaddr page (writable segment)
          in if \<not> ok then (False, m3, pages') else elf_segment_pages m3 img addressSpace segment pages' ps)"

fun elf_segments :: "machine \<Rightarrow> bytes \<Rightarrow> u32 \<Rightarrow> u32 list \<Rightarrow> ElfSegmentPlan list \<Rightarrow> bool \<times> machine \<times> u32 list" where
  "elf_segments m img addressSpace pages [] = (True, m, pages)"
| "elf_segments m img addressSpace pages (segment # ss) =
     (let n = (memSize segment + 4096 - 1) div 4096;
          pagesNeeded = (if n = 0 then 1 else n);
          (ok, m1, pages1) = elf_segment_pages m img addressSpace segment pages [0..<unat pagesNeeded]
      in if \<not> ok then (False, m1, pages1) else elf_segments m1 img addressSpace pages1 ss)"

definition build_elf_space :: "klayout \<Rightarrow> machine \<Rightarrow> bytes \<Rightarrow> ElfLoadPlan \<Rightarrow> (u32 list \<times> u32 \<times> u32) option \<times> machine" where
  "build_elf_space k m img plan =
     (let (addressSpace, m1) = paging_create_address_space k m in
      if addressSpace = 0 then (None, m1)
      else
        let (ok, m2, pages) = elf_segments m1 img addressSpace [] (map (\<lambda>i. segments plan ! i) [0..<unat (segmentCount plan)]) in
        if \<not> ok then (None, elf_rollback k m2 pages addressSpace)
        else
          let (stackPage, pm3) = memory_alloc_page (pm m2); m3 = m2\<lparr>pm := pm3\<rparr> in
          if stackPage = 0 then (None, elf_rollback k m3 pages addressSpace)
          else
            let m4 = zero_page m3 stackPage;
                (ok, m5) = paging_map_user_page m4 addressSpace ELF_STACK_PAGE_VADDR stackPage True
            in if \<not> ok then (None, elf_rollback k (free_page m5 stackPage) pages addressSpace)
               else (Some (pages, stackPage, addressSpace), m5))"

text \<open>The array \<^verbatim>\<open>elfPages\<close> of eight elements whose first ones are overwritten.\<close>

definition store_pages :: "u32 list \<Rightarrow> u32 list \<Rightarrow> u32 list" where
  "store_pages old pages = foldl (\<lambda>ps i. ps[i := pages ! i]) old [0..<length pages]"

definition scheduler_create_elf_user_task :: "kimage \<Rightarrow> sched \<Rightarrow> bytes \<Rightarrow> u32 \<Rightarrow> ElfLoadPlan \<Rightarrow> (int \<times> sched) option" where
  "scheduler_create_elf_user_task k s img imageSize plan0 =
     (case elf_validate_and_plan img imageSize plan0 of
        None \<Rightarrow> None
      | Some (validation, plan) \<Rightarrow> Some (
          if validation \<noteq> Elf_None then (-1, s)
          else
            let sl = freeSlot s in
            if sl < 0 then (-1, s)
            else
              case build_elf_space (k_layout k) (mach s) img plan of
                (None, m') \<Rightarrow> (-1, s\<lparr>mach := m'\<rparr>)
              | (Some (pages, stackPage, addressSpace), m') \<Rightarrow>
                  commit_task k (s\<lparr>mach := m'\<rparr>) (nat sl) (entryPoint plan) ELF_STACK_TOP_VADDR
                    (\<lambda>t. t\<lparr>t_userCodePage := 0, t_userStackPage := stackPage, t_elfPageCount := word_of_nat (length pages),
                           t_elfPages := store_pages (t_elfPages t) pages, t_addressSpace := addressSpace\<rparr>)))"

section \<open>Running, yielding, blocking, dying\<close>

definition scheduler_on_timer_tick :: "kimage \<Rightarrow> sched \<Rightarrow> u32 \<Rightarrow> u32 \<times> sched" where
  "scheduler_on_timer_tick k s currentEsp =
     (if currentTaskIndex s < 0 then switchTo k s 0
      else
        let s1 = upd_task s (nat (currentTaskIndex s)) (\<lambda>t. t\<lparr>t_savedEsp := currentEsp\<rparr>);
            next' = pickNext s1 (currentTaskIndex s1)
        in if next' < 0 \<or> next' = currentTaskIndex s1 then (currentEsp, s1) else switchTo k s1 (nat next'))"

definition mark_current :: "sched \<Rightarrow> ProcessState \<Rightarrow> sched" where
  "mark_current s st = (if currentTaskIndex s \<ge> 0 then upd_task s (nat (currentTaskIndex s)) (\<lambda>t. t\<lparr>t_state := st\<rparr>) else s)"

definition scheduler_terminate_current :: "kimage \<Rightarrow> sched \<Rightarrow> u32 \<Rightarrow> u32 \<times> sched" where
  "scheduler_terminate_current k s currentEsp = scheduler_on_timer_tick k (mark_current s Dead) currentEsp"

definition scheduler_on_yield :: "kimage \<Rightarrow> sched \<Rightarrow> u32 \<Rightarrow> u32 \<times> sched" where
  "scheduler_on_yield k s currentEsp = scheduler_on_timer_tick k s currentEsp"

definition scheduler_exit :: "kimage \<Rightarrow> sched \<Rightarrow> u32 \<Rightarrow> u32 \<times> sched" where
  "scheduler_exit k s esp = scheduler_on_yield k (mark_current s Dead) esp"

definition scheduler_block_self :: "kimage \<Rightarrow> sched \<Rightarrow> u32 \<Rightarrow> u32 \<times> sched" where
  "scheduler_block_self k s esp = scheduler_on_yield k (mark_current s Blocked) esp"

definition scheduler_unblock :: "sched \<Rightarrow> int \<Rightarrow> sched" where
  "scheduler_unblock s pid =
     (let idx = indexForPid s (word_of_int pid) in
      if idx < 0 then s
      else if t_state (tasks s ! nat idx) = Blocked then upd_task s (nat idx) (\<lambda>t. t\<lparr>t_state := Ready\<rparr>) else s)"


end
