(* ===== verification/TaskSwitch.thy ===== *)
theory TaskSwitch
  imports Scheduler
begin

text \<open>
  The scheduling policy: \<open>pickNext\<close> is round robin over the runnable slots, and every tick, yield,
  exit, block or termination leaves exactly the current task running, its address space loaded and
  its kernel stack in the task state segment.
\<close>

section \<open>Choosing the next task\<close>

definition runnable :: "Task \<Rightarrow> bool" where
  "runnable t \<longleftrightarrow> t_state t = Ready \<or> t_state t = Running"

lemma pick_from_upt:
  "pick_from ts from [a..<b] = -1 \<and> (\<forall>x. a \<le> x \<and> x < b \<longrightarrow> \<not> runnable (ts ! ((from + x) mod 10))) \<or>
   (\<exists>x. a \<le> x \<and> x < b \<and> pick_from ts from [a..<b] = int ((from + x) mod 10) \<and> runnable (ts ! ((from + x) mod 10)) \<and>
     (\<forall>y. a \<le> y \<and> y < x \<longrightarrow> \<not> runnable (ts ! ((from + y) mod 10))))"
proof (induction "b - a" arbitrary: a)
  case 0
  then show ?case
    by auto
next
  case (Suc n)
  then have ab: "[a..<b] = a # [Suc a..<b]" "a < b"
    by (simp_all add: upt_conv_Cons)
  show ?case
  proof (cases "runnable (ts ! ((from + a) mod 10))")
    case True
    then have "pick_from ts from [a..<b] = int ((from + a) mod 10)"
      by (simp add: ab(1) MAX_TASKS_def runnable_def Let_def)
    with True ab(2) show ?thesis
      by (intro disjI2 exI [of _ a]) auto
  next
    case False
    then have step: "pick_from ts from [a..<b] = pick_from ts from [Suc a..<b]"
      by (simp add: ab(1) MAX_TASKS_def runnable_def Let_def)
    have split: "a \<le> x \<longleftrightarrow> x = a \<or> Suc a \<le> x" for x
      by linarith
    show ?thesis
      using Suc.hyps(1) [of "Suc a"] Suc.hyps(2) False unfolding step split by fastforce
  qed
qed

text \<open>Round robin: the first runnable slot after the current one, in cyclic order.\<close>

lemma pickNext_cases:
  assumes "0 \<le> c" "c < 10"
  obtains (none) "pickNext s c = -1" "\<forall>i < 10. \<not> runnable (tasks s ! i)"
  | (first) x where "1 \<le> x" "x \<le> 10" "pickNext s c = int ((nat c + x) mod 10)" "runnable (tasks s ! ((nat c + x) mod 10))"
      "\<And>y. 1 \<le> y \<Longrightarrow> y < x \<Longrightarrow> \<not> runnable (tasks s ! ((nat c + y) mod 10))"
proof -
  have pick: "pickNext s c = pick_from (tasks s) (nat c) [1..<11]"
    using assms by (simp add: pickNext_def MAX_TASKS_def)
  have cover: "\<exists>x. 1 \<le> x \<and> x < 11 \<and> i = (nat c + x) mod 10" if "i < 10" for i
  proof (intro exI conjI)
    let ?x = "(if nat c < i then i - nat c else i + 10 - nat c)"
    show "1 \<le> ?x" "?x < 11" "i = (nat c + ?x) mod 10"
      using that assms by auto
  qed
  from pick_from_upt [of "tasks s" "nat c" 1 11] show thesis
    unfolding pick [symmetric] using cover none first by (metis less_Suc_eq_le eval_nat_numeral(3) numeral_eq_Suc pred_numeral_simps(3))
qed


section \<open>The scheduling invariant\<close>

definition sched_ok :: "kimage \<Rightarrow> sched \<Rightarrow> bool" where
  "sched_ok k s \<longleftrightarrow> length (tasks s) = 10 \<and> -1 \<le> currentTaskIndex s \<and> currentTaskIndex s < 10 \<and> runnable (tasks s ! 0) \<and>
     (\<forall>i < 10. t_state (tasks s ! i) = Running \<longleftrightarrow> int i = currentTaskIndex s) \<and>
     (currentTaskIndex s \<ge> 0 \<longrightarrow> cr3 (mach s) = t_addressSpace (tasks s ! nat (currentTaskIndex s)) \<and>
        tss_esp0 s = kernelStackTop k (nat (currentTaskIndex s)))"

lemma sched_okI:
  assumes "length (tasks s) = 10" "-1 \<le> currentTaskIndex s" "currentTaskIndex s < 10" "runnable (tasks s ! 0)"
    "\<And>i. i < 10 \<Longrightarrow> t_state (tasks s ! i) = Running \<longleftrightarrow> int i = currentTaskIndex s"
    "currentTaskIndex s \<ge> 0 \<Longrightarrow> cr3 (mach s) = t_addressSpace (tasks s ! nat (currentTaskIndex s)) \<and>
        tss_esp0 s = kernelStackTop k (nat (currentTaskIndex s))"
  shows "sched_ok k s"
  using assms unfolding sched_ok_def by blast

lemma sched_okD:
  assumes "sched_ok k s"
  shows "length (tasks s) = 10" "-1 \<le> currentTaskIndex s" "currentTaskIndex s < 10" "runnable (tasks s ! 0)"
    "i < 10 \<Longrightarrow> t_state (tasks s ! i) = Running \<longleftrightarrow> int i = currentTaskIndex s"
    "currentTaskIndex s \<ge> 0 \<Longrightarrow> cr3 (mach s) = t_addressSpace (tasks s ! nat (currentTaskIndex s)) \<and>
        tss_esp0 s = kernelStackTop k (nat (currentTaskIndex s))"
  using assms unfolding sched_ok_def by blast+

text \<open>A state that is as the invariant wants it but for the state of the current task, which may have died or blocked.\<close>

definition settling :: "sched \<Rightarrow> bool" where
  "settling s \<longleftrightarrow> length (tasks s) = 10 \<and> -1 \<le> currentTaskIndex s \<and> currentTaskIndex s < 10 \<and> runnable (tasks s ! 0) \<and>
     (\<forall>i < 10. t_state (tasks s ! i) = Running \<longrightarrow> int i = currentTaskIndex s)"

definition loaded :: "kimage \<Rightarrow> sched \<Rightarrow> bool" where
  "loaded k s \<longleftrightarrow> (currentTaskIndex s \<ge> 0 \<longrightarrow> t_state (tasks s ! nat (currentTaskIndex s)) \<noteq> Ready \<and>
     cr3 (mach s) = t_addressSpace (tasks s ! nat (currentTaskIndex s)) \<and> tss_esp0 s = kernelStackTop k (nat (currentTaskIndex s)))"

lemma current_running:
  assumes "sched_ok k s" "currentTaskIndex s \<ge> 0"
  shows "t_state (tasks s ! nat (currentTaskIndex s)) = Running"
proof -
  have "nat (currentTaskIndex s) < 10"
    using sched_okD(3) [OF assms(1)] assms(2) by (simp add: nat_less_iff)
  then show ?thesis
    using sched_okD(5) [OF assms(1)] assms(2) by simp
qed

lemma sched_ok_settling: "sched_ok k s \<Longrightarrow> settling s \<and> loaded k s"
  using current_running [of k s] by (simp add: sched_ok_def settling_def loaded_def)

lemma upd_task_simps [simp]:
  "currentTaskIndex (upd_task s i f) = currentTaskIndex s" "mach (upd_task s i f) = mach s" "nextPid (upd_task s i f) = nextPid s"
  "tss_esp0 (upd_task s i f) = tss_esp0 s" "length (tasks (upd_task s i f)) = length (tasks s)"
  by (simp_all add: upd_task_def)

lemma nth_upd_task: "j < length (tasks s) \<Longrightarrow> tasks (upd_task s i f) ! j = (if j = i then f (tasks s ! j) else tasks s ! j)"
  by (simp add: upd_task_def nth_list_update)

lemma switchTo_ok:
  assumes "settling s" "n < 10" "runnable (tasks s ! n)" "switchTo k s n = (esp, s')"
  shows "sched_ok k s'" "currentTaskIndex s' = int n" "esp = t_savedEsp (tasks s ! n)"
    "i < 10 \<Longrightarrow> t_state (tasks s' ! i) = (if i = n then Running else if t_state (tasks s ! i) = Running then Ready else t_state (tasks s ! i))"
    "i < 10 \<Longrightarrow> t_pid (tasks s' ! i) = t_pid (tasks s ! i)" "nextPid s' = nextPid s"
    "i < 10 \<Longrightarrow> tasks s' ! i = (tasks s ! i)\<lparr>t_state := t_state (tasks s' ! i)\<rparr>"
    "mach s' = (mach s)\<lparr>cr3 := t_addressSpace (tasks s ! n)\<rparr>"
proof -
  define s1 where "s1 = (if currentTaskIndex s \<ge> 0 \<and> t_state (tasks s ! nat (currentTaskIndex s)) = Running
     then upd_task s (nat (currentTaskIndex s)) (\<lambda>t. t\<lparr>t_state := Ready\<rparr>) else s)"
  have len: "length (tasks s) = 10" "length (tasks s1) = 10"
    using assms(1) by (simp_all add: settling_def s1_def)
  have s': "tasks s' = tasks (upd_task s1 n (\<lambda>t. t\<lparr>t_state := Running\<rparr>))" "currentTaskIndex s' = int n" "nextPid s' = nextPid s"
    "tss_esp0 s' = kernelStackTop k n" "mach s' = (mach s)\<lparr>cr3 := t_addressSpace (tasks s' ! n)\<rparr>" "esp = t_savedEsp (tasks s' ! n)"
    using assms(4) by (auto simp: switchTo_def s1_def paging_switch_address_space_def Let_def)
  have s1: "tasks s1 ! i = (tasks s ! i)\<lparr>t_state := (if t_state (tasks s ! i) = Running then Ready else t_state (tasks s ! i))\<rparr>" if "i < 10" for i
  proof (cases "t_state (tasks s ! i) = Running")
    case True
    then have "currentTaskIndex s = int i"
      using assms(1) that by (simp add: settling_def)
    with True that len show ?thesis
      by (simp add: s1_def nth_upd_task)
  next
    case False
    then show ?thesis
      using that len by (auto simp: s1_def nth_upd_task)
  qed
  have t: "tasks s' ! i = (tasks s ! i)\<lparr>t_state := (if i = n then Running else if t_state (tasks s ! i) = Running then Ready else t_state (tasks s ! i))\<rparr>"
    if "i < 10" for i
    using that s1 [OF that] len by (auto simp: s'(1) nth_upd_task)
  show "currentTaskIndex s' = int n" "nextPid s' = nextPid s"
    by (fact s')+
  show "esp = t_savedEsp (tasks s ! n)" "mach s' = (mach s)\<lparr>cr3 := t_addressSpace (tasks s ! n)\<rparr>"
    using t [OF assms(2)] s'(5,6) by simp_all
  show st: "t_state (tasks s' ! i) = (if i = n then Running else if t_state (tasks s ! i) = Running then Ready else t_state (tasks s ! i))"
    "t_pid (tasks s' ! i) = t_pid (tasks s ! i)" "tasks s' ! i = (tasks s ! i)\<lparr>t_state := t_state (tasks s' ! i)\<rparr>" if "i < 10" for i
    using t [OF that] by simp_all
  show "sched_ok k s'"
  proof (rule sched_okI)
    show "length (tasks s') = 10"
      using len by (simp add: s'(1))
    show "runnable (tasks s' ! 0)"
      using st(1) [of 0] assms(1) by (auto simp: runnable_def settling_def)
    show "t_state (tasks s' ! i) = Running \<longleftrightarrow> int i = currentTaskIndex s'" if "i < 10" for i
      using st(1) [OF that] s'(2) by auto
    show "cr3 (mach s') = t_addressSpace (tasks s' ! nat (currentTaskIndex s')) \<and> tss_esp0 s' = kernelStackTop k (nat (currentTaskIndex s'))"
      using s'(2,4,5) t [OF assms(2)] by simp
  qed (use s'(2) assms(2) in simp_all)
qed


text \<open>A tick from a settling state picks the next runnable task; only stack pointers and states change.\<close>

definition same_but_state :: "Task \<Rightarrow> Task \<Rightarrow> bool" where
  "same_but_state t t' \<longleftrightarrow> (\<exists>st esp. t' = t\<lparr>t_state := st, t_savedEsp := esp\<rparr>)"

lemma same_but_stateI: "same_but_state t (t\<lparr>t_savedEsp := esp\<rparr>)" "same_but_state t (t\<lparr>t_state := st\<rparr>)" "same_but_state t t"
  unfolding same_but_state_def by (metis Task.surjective Task.update_convs(2,3))+

lemma same_but_stateD:
  assumes "same_but_state t t'"
  shows "t_pid t' = t_pid t" "t_addressSpace t' = t_addressSpace t" "t_isUser t' = t_isUser t" "t_userCodePage t' = t_userCodePage t"
    "t_userStackPage t' = t_userStackPage t" "t_elfPages t' = t_elfPages t" "t_elfPageCount t' = t_elfPageCount t"
  using assms by (auto simp: same_but_state_def)

lemma same_but_state_trans: "same_but_state a b \<Longrightarrow> same_but_state b c \<Longrightarrow> same_but_state a c"
  by (force simp: same_but_state_def)

lemma tick_ok:
  assumes st: "settling s" "loaded k s" and c: "currentTaskIndex s \<ge> 0" and t: "scheduler_on_timer_tick k s esp = (r, s')"
  shows "sched_ok k s'" "nextPid s' = nextPid s" "i < 10 \<Longrightarrow> same_but_state (tasks s ! i) (tasks s' ! i)"
    "i < 10 \<Longrightarrow> t_state (tasks s' ! i) \<in> {t_state (tasks s ! i), Ready, Running}"
    "i < 10 \<Longrightarrow> t_state (tasks s ! i) \<in> {Dead, Blocked, Unused} \<Longrightarrow> t_state (tasks s' ! i) = t_state (tasks s ! i)"
    "pm (mach s') = pm (mach s)" "phys (mach s') = phys (mach s)"
proof -
  define s1 where "s1 = upd_task s (nat (currentTaskIndex s)) (\<lambda>t. t\<lparr>t_savedEsp := esp\<rparr>)"
  have len: "length (tasks s) = 10" and c10: "currentTaskIndex s < 10"
    using st(1) by (simp_all add: settling_def)
  have st1: "t_state (tasks s1 ! i) = t_state (tasks s ! i)" "same_but_state (tasks s ! i) (tasks s1 ! i)" if "i < 10" for i
    using that len by (simp_all add: s1_def nth_upd_task same_but_stateI)
  then have s1: "settling s1" "loaded k s1" "currentTaskIndex s1 = currentTaskIndex s"
    using st c len c10 by (auto simp: settling_def loaded_def s1_def runnable_def same_but_stateD nth_upd_task)
  note run = t [unfolded scheduler_on_timer_tick_def Let_def s1_def [symmetric]]
  have c1: "0 \<le> currentTaskIndex s1" "currentTaskIndex s1 < 10"
    using c c10 s1(3) by simp_all
  have run0: "runnable (tasks s1 ! 0)"
    using s1(1) by (simp add: settling_def)
  have *: "sched_ok k s' \<and> nextPid s' = nextPid s1 \<and> (\<forall>i < 10. same_but_state (tasks s1 ! i) (tasks s' ! i) \<and>
      t_state (tasks s' ! i) \<in> {t_state (tasks s1 ! i), Ready, Running} \<and>
      (t_state (tasks s1 ! i) \<in> {Dead, Blocked, Unused} \<longrightarrow> t_state (tasks s' ! i) = t_state (tasks s1 ! i))) \<and>
      pm (mach s') = pm (mach s1) \<and> phys (mach s') = phys (mach s1)"
  proof (cases rule: pickNext_cases [OF c1, of s1, case_names none first])
    case none
    then show ?thesis
      using run0 by auto
  next
    case (first x)
    let ?n = "(nat (currentTaskIndex s1) + x) mod 10"
    show ?thesis
    proof (cases "int ?n = currentTaskIndex s1")
      case True
      then have "s' = s1"
        using run c first(3) s1(3) by (auto simp: not_less split: if_splits)
      moreover have "sched_ok k s1"
      proof (rule sched_okI)
        have "t_state (tasks s1 ! nat (currentTaskIndex s1)) = Running"
          using first(4) True s1(2,3) c by (metis loaded_def nat_int runnable_def)
        then show "t_state (tasks s1 ! i) = Running \<longleftrightarrow> int i = currentTaskIndex s1" if "i < 10" for i
          using s1(1) that unfolding settling_def by (metis nat_int)
      qed (use s1 in \<open>auto simp: settling_def loaded_def\<close>)
      ultimately show ?thesis
        by (simp add: same_but_stateI)
    next
      case False
      then have sw: "switchTo k s1 ?n = (r, s')"
        using run c first(3) s1(3) by (auto simp: not_less split: if_splits)
      have n: "?n < 10"
        by simp
      note w = switchTo_ok [OF s1(1) n first(4) sw]
      have "same_but_state (tasks s1 ! i) (tasks s' ! i)" if "i < 10" for i
        using w(7) [OF that] same_but_stateI(2) by metis
      then show ?thesis
        using w(1,6,8) w(4) first(4) by (auto simp: runnable_def)
    qed
  qed
  have "nextPid s1 = nextPid s" "mach s1 = mach s"
    by (simp_all add: s1_def)
  with * show "sched_ok k s'" "nextPid s' = nextPid s" "pm (mach s') = pm (mach s)" "phys (mach s') = phys (mach s)"
    by simp_all
  have each: "same_but_state (tasks s1 ! i) (tasks s' ! i)" "t_state (tasks s' ! i) \<in> {t_state (tasks s1 ! i), Ready, Running}"
    "t_state (tasks s1 ! i) \<in> {Dead, Blocked, Unused} \<Longrightarrow> t_state (tasks s' ! i) = t_state (tasks s1 ! i)" if "i < 10" for i
    using * that by blast+
  show "same_but_state (tasks s ! i) (tasks s' ! i)" if "i < 10"
    by (rule same_but_state_trans [OF st1(2) [OF that] each(1) [OF that]])
  show "t_state (tasks s' ! i) \<in> {t_state (tasks s ! i), Ready, Running}" if "i < 10"
    using each(2) [OF that] st1(1) [OF that] by (simp only:)
  show "t_state (tasks s' ! i) = t_state (tasks s ! i)" if "i < 10" "t_state (tasks s ! i) \<in> {Dead, Blocked, Unused}"
    using each(3) [OF that(1)] st1(1) [OF that(1)] that(2) by (simp only:)
qed


end
