(* ===== verification/TaskCreate.thy ===== *)
theory TaskCreate
  imports TaskSwitch
begin

text \<open>
  Creating tasks: the slot chosen, what a creation changes in the task table, and the runs of the
  scheduler as a step relation with its invariant.
\<close>

section \<open>Creating a task changes one free slot\<close>

lemma find_from_cases:
  "find_from ts w is = -1 \<and> (\<forall>i \<in> set is. t_state (ts ! i) \<noteq> w) \<or> (\<exists>i \<in> set is. find_from ts w is = int i \<and> t_state (ts ! i) = w)"
  by (induction "is") auto

lemma freeSlot_cases:
  obtains (full) "freeSlot s = -1" "\<forall>i < 10. t_state (tasks s ! i) \<notin> {Unused, Dead}"
  | (slot) i where "i < 10" "freeSlot s = int i" "t_state (tasks s ! i) \<in> {Unused, Dead}"
proof -
  have ids: "set [0..<MAX_TASKS] = {..<10}"
    by (auto simp: MAX_TASKS_def)
  show thesis
    using find_from_cases [of "tasks s" Unused "[0..<MAX_TASKS]"] find_from_cases [of "tasks s" Dead "[0..<MAX_TASKS]"] full slot
    unfolding ids by (fastforce simp: freeSlot_def findSlot_def Let_def)
qed

lemma cr3_destroy_loop: "cr3 (destroy_loop m d is) = cr3 m"
  by (induction m d "is" rule: destroy_loop.induct) (simp_all add: Let_def)

lemma cr3_destroy [simp]: "cr3 (paging_destroy_address_space k m d) = cr3 m"
  by (simp add: paging_destroy_address_space_def cr3_destroy_loop Let_def)

lemma cr3_create: "paging_create_address_space k m = (a, m') \<Longrightarrow> cr3 m' = cr3 m"
  by (auto simp: paging_create_address_space_def Let_def split: prod.splits if_splits)

lemma cr3_map: "paging_map_user_page m d v p w = (ok, m') \<Longrightarrow> cr3 m' = cr3 m"
  by (auto simp: paging_map_user_page_def table_for_def Let_def split: prod.splits if_splits)

lemma cr3_zero_page [simp]: "cr3 (zero_page m p) = cr3 m"
  by (simp add: zero_page_def)

lemma cr3_free_elf: "free_elf_pages m ps is = (m', ps') \<Longrightarrow> cr3 m' = cr3 m \<and> length ps' = length ps"
  by (induction m ps "is" rule: free_elf_pages.induct) auto

lemma reclaimSlot_shape:
  fixes k :: kimage
  assumes "sl < length (tasks s)"
  defines "s' \<equiv> reclaimSlot k s sl"
  shows "cr3 (mach s') = cr3 (mach s)" "nextPid s' = nextPid s" "currentTaskIndex s' = currentTaskIndex s" "tss_esp0 s' = tss_esp0 s"
    "length (tasks s') = length (tasks s)" "j < length (tasks s) \<Longrightarrow> j \<noteq> sl \<Longrightarrow> tasks s' ! j = tasks s ! j"
    "t_elfPageCount (tasks s' ! sl) = 0" "length (t_elfPages (tasks s' ! sl)) = length (t_elfPages (tasks s ! sl))"
    "t_userCodePage (tasks s' ! sl) = 0" "t_userStackPage (tasks s' ! sl) = 0" "\<not> t_isUser (tasks s' ! sl)"
    "t_addressSpace (tasks s' ! sl) = kernelDirectory (k_layout k)"
  using assms(1) cr3_free_elf unfolding s'_def
  by (auto simp: reclaimSlot_def nth_upd_task paging_kernel_address_space_def Let_def split: prod.splits)

lemma cr3_build_user: "build_user_space k m code = (r, m') \<Longrightarrow> cr3 m' = cr3 m"
  using cr3_create [of k] cr3_map
  by (fastforce simp: build_user_space_def Let_def split: prod.splits if_splits)


lemma cr3_fill_page [simp]: "cr3 (elf_fill_page m img sg p page) = cr3 m"
  by (simp add: elf_fill_page_def Let_def)

lemma cr3_segment_pages: "elf_segment_pages m img d sg pages ps = (ok, m', pages') \<Longrightarrow> cr3 m' = cr3 m"
  by (induction m img d sg pages ps rule: elf_segment_pages.induct)
     (fastforce simp: Let_def cr3_map split: prod.splits if_splits)+

lemma cr3_segments: "elf_segments m img d pages sgs = (ok, m', pages') \<Longrightarrow> cr3 m' = cr3 m"
  by (induction m img d pages sgs rule: elf_segments.induct)
     (auto simp: Let_def cr3_segment_pages simp del: elf_segment_pages.simps upt_rec_numeral split: prod.splits if_splits)

lemma cr3_free_pages: "cr3 (foldl free_page m ps) = cr3 m"
  by (induction ps arbitrary: m) simp_all

lemma cr3_build_elf: "build_elf_space k m img plan = (r, m') \<Longrightarrow> cr3 m' = cr3 m"
  using cr3_create [of k] cr3_segments cr3_map
  by (fastforce simp: build_elf_space_def elf_rollback_def cr3_free_pages Let_def split: prod.splits if_splits)

text \<open>The new occupant of a slot.\<close>

definition occupied :: "kimage \<Rightarrow> sched \<Rightarrow> nat \<Rightarrow> sched \<Rightarrow> bool" where
  "occupied k s sl s' \<longleftrightarrow> (\<exists>t. tasks s' = (tasks s)[sl := t] \<and> t_state t = Ready \<and> t_pid t = nextPid s) \<and>
     nextPid s' = nextPid s + 1 \<and> currentTaskIndex s' = currentTaskIndex s \<and> tss_esp0 s' = tss_esp0 s \<and> cr3 (mach s') = cr3 (mach s)"

lemma prepare_frame [simp]:
  "t_state (prepareInitialFrame k i e t) = t_state t" "t_pid (prepareInitialFrame k i e t) = t_pid t"
  "t_state (prepareUserInitialFrame k i e u t) = t_state t" "t_pid (prepareUserInitialFrame k i e u t) = t_pid t"
  by (simp_all add: prepareInitialFrame_def prepareUserInitialFrame_def placeInitialFrame_def Let_def)

lemma tasks_reclaim: "sl < length (tasks s) \<Longrightarrow> tasks (reclaimSlot k s sl) = (tasks s)[sl := tasks (reclaimSlot k s sl) ! sl]"
  using reclaimSlot_shape(5,6) [of sl s, where k = k] by (intro nth_equalityI) (auto simp: nth_list_update)

lemma tasks_upd_task: "tasks (upd_task s i f) = (tasks s)[i := f (tasks s ! i)]"
  by (simp add: upd_task_def)

lemma commit_task_occupied:
  assumes "sl < length (tasks s)" "commit_task k s sl e u f = (r, s')" "\<And>t. t_state (f t) = t_state t \<and> t_pid (f t) = t_pid t"
  shows "occupied k s sl s'"
proof -
  let ?s1 = "reclaimSlot k s sl"
  note sh = reclaimSlot_shape(1-4) [OF assms(1), where k = k]
  define t where "t = prepareUserInitialFrame k sl e u (f ((tasks ?s1 ! sl)\<lparr>t_pid := nextPid ?s1, t_state := Ready, t_isUser := True\<rparr>))"
  have s'_eq: "s' = upd_task (?s1\<lparr>nextPid := nextPid ?s1 + 1\<rparr>) sl
      (\<lambda>t. prepareUserInitialFrame k sl e u (f (t\<lparr>t_pid := nextPid ?s1, t_state := Ready, t_isUser := True\<rparr>)))"
    using conjunct2 [OF assms(2) [unfolded commit_task_def Let_def prod.inject]] by (rule sym)
  have s': "tasks s' = (tasks ?s1)[sl := t]" "nextPid s' = nextPid ?s1 + 1" "currentTaskIndex s' = currentTaskIndex ?s1"
    "tss_esp0 s' = tss_esp0 ?s1" "mach s' = mach ?s1"
    unfolding s'_eq tasks_upd_task t_def by simp_all
  have "tasks s' = (tasks s)[sl := t]"
    unfolding s'(1) by (subst tasks_reclaim [OF assms(1)]) (rule list_update_overwrite)
  moreover have "t_state t = Ready" "t_pid t = nextPid s"
    using assms(3) sh(2) by (simp_all add: t_def)
  ultimately show ?thesis
    using s'(2-5) sh unfolding occupied_def by (intro conjI exI [of _ t]) simp_all
qed


definition untouched :: "sched \<Rightarrow> sched \<Rightarrow> bool" where
  "untouched s s' \<longleftrightarrow> tasks s' = tasks s \<and> nextPid s' = nextPid s \<and> currentTaskIndex s' = currentTaskIndex s \<and>
     tss_esp0 s' = tss_esp0 s \<and> cr3 (mach s') = cr3 (mach s)"

text \<open>Every creation either leaves the task table alone or fills one unused or dead slot.\<close>

definition creation :: "kimage \<Rightarrow> sched \<Rightarrow> sched \<Rightarrow> bool" where
  "creation k s s' \<longleftrightarrow> untouched s s' \<or> (\<exists>sl < 10. t_state (tasks s ! sl) \<in> {Unused, Dead} \<and> occupied k s sl s')"

lemma occupied_mach: "occupied k (s\<lparr>mach := m\<rparr>) sl s' \<Longrightarrow> cr3 m = cr3 (mach s) \<Longrightarrow> occupied k s sl s'"
  by (simp add: occupied_def)

lemma create_task_creation:
  assumes "length (tasks s) = 10" "scheduler_create_task k s entry = (r, s')"
  shows "creation k s s'"
proof (cases rule: freeSlot_cases [of s, case_names full slot])
  case full
  then show ?thesis
    using assms(2) by (simp add: scheduler_create_task_def creation_def untouched_def)
next
  case (slot sl)
  let ?s1 = "reclaimSlot k s sl"
  define t where "t = prepareInitialFrame k sl entry ((tasks ?s1 ! sl)\<lparr>t_pid := nextPid ?s1, t_state := Ready\<rparr>)"
  have sl: "sl < length (tasks s)"
    using slot(1) assms(1) by simp
  note sh = reclaimSlot_shape(1-4) [OF sl, where k = k]
  have s'_eq: "s' = upd_task (?s1\<lparr>nextPid := nextPid ?s1 + 1\<rparr>) sl
      (\<lambda>t. prepareInitialFrame k sl entry (t\<lparr>t_pid := nextPid ?s1, t_state := Ready\<rparr>))"
    using assms(2) slot(2) by (simp add: scheduler_create_task_def Let_def)
  have "tasks s' = (tasks ?s1)[sl := t]"
    unfolding s'_eq tasks_upd_task t_def by simp
  also have "\<dots> = (tasks s)[sl := t]"
    by (subst tasks_reclaim [OF sl]) (rule list_update_overwrite)
  finally have "tasks s' = (tasks s)[sl := t]" .
  moreover have "t_state t = Ready" "t_pid t = nextPid s"
    using sh(2) by (simp_all add: t_def)
  moreover have "nextPid s' = nextPid s + 1" "currentTaskIndex s' = currentTaskIndex s" "tss_esp0 s' = tss_esp0 s" "cr3 (mach s') = cr3 (mach s)"
    using sh unfolding s'_eq by simp_all
  ultimately show ?thesis
    using slot(1,3) unfolding creation_def occupied_def by blast
qed

lemma create_user_creation:
  assumes "length (tasks s) = 10" "scheduler_create_user_task k s code = (r, s')"
  shows "creation k s s'"
proof (cases "length code > 4096")
  case True
  then show ?thesis
    using assms(2) by (simp add: scheduler_create_user_task_def creation_def untouched_def)
next
  case False
  show ?thesis
  proof (cases rule: freeSlot_cases [of s, case_names full slot])
    case full
    then show ?thesis
      using assms(2) False by (simp add: scheduler_create_user_task_def creation_def untouched_def)
  next
    case (slot sl)
    obtain res m' where b: "build_user_space (k_layout k) (mach s) code = (res, m')"
      by fastforce
    show ?thesis
    proof (cases res)
      case None
      then show ?thesis
        using assms(2) False slot(2) b cr3_build_user [OF b]
        by (auto simp: scheduler_create_user_task_def creation_def untouched_def Let_def)
    next
      case (Some z)
      obtain c st a where z: "z = (c, st, a)"
        by (cases z)
      have com: "commit_task k (s\<lparr>mach := m'\<rparr>) sl USER_CODE_VADDR USER_STACK_TOP_VADDR
          (\<lambda>t. t\<lparr>t_userCodePage := c, t_userStackPage := st, t_addressSpace := a\<rparr>) = (r, s')"
        using assms(2) False slot(2) b Some z by (simp add: scheduler_create_user_task_def Let_def)
      have "occupied k (s\<lparr>mach := m'\<rparr>) sl s'"
        by (rule commit_task_occupied [OF _ com]) (simp_all add: assms(1) slot(1))
      then show ?thesis
        using slot(1,3) occupied_mach [OF _ cr3_build_user [OF b]] unfolding creation_def by blast
    qed
  qed
qed

lemma create_elf_creation:
  assumes "length (tasks s) = 10" "scheduler_create_elf_user_task k s img len plan0 = Some (r, s')"
  shows "creation k s s'"
proof -
  obtain e plan where v: "elf_validate_and_plan img len plan0 = Some (e, plan)"
    using assms(2) by (auto simp: scheduler_create_elf_user_task_def split: option.splits)
  show ?thesis
  proof (cases "e = Elf_None")
    case False
    then show ?thesis
      using assms(2) v by (simp add: scheduler_create_elf_user_task_def creation_def untouched_def)
  next
    case True
    show ?thesis
    proof (cases rule: freeSlot_cases [of s, case_names full slot])
      case full
      then show ?thesis
        using assms(2) v True by (simp add: scheduler_create_elf_user_task_def creation_def untouched_def)
    next
      case (slot sl)
      obtain res m' where b: "build_elf_space (k_layout k) (mach s) img plan = (res, m')"
        by fastforce
      show ?thesis
      proof (cases res)
        case None
        then show ?thesis
          using assms(2) v True slot(2) b cr3_build_elf [OF b]
          by (auto simp: scheduler_create_elf_user_task_def creation_def untouched_def Let_def)
      next
        case (Some z)
        obtain pages st a where z: "z = (pages, st, a)"
          by (cases z)
        have com: "commit_task k (s\<lparr>mach := m'\<rparr>) sl (entryPoint plan) ELF_STACK_TOP_VADDR
            (\<lambda>t. t\<lparr>t_userCodePage := 0, t_userStackPage := st, t_elfPageCount := word_of_nat (length pages),
               t_elfPages := store_pages (t_elfPages t) pages, t_addressSpace := a\<rparr>) = (r, s')"
          using assms(2) v True slot(2) b Some z by (simp add: scheduler_create_elf_user_task_def Let_def)
        have "occupied k (s\<lparr>mach := m'\<rparr>) sl s'"
          by (rule commit_task_occupied [OF _ com]) (simp_all add: assms(1) slot(1))
        then show ?thesis
          using slot(1,3) occupied_mach [OF _ cr3_build_elf [OF b]] unfolding creation_def by blast
      qed
    qed
  qed
qed

lemma creation_sched_ok:
  assumes ok: "sched_ok k s" and c: "creation k s s'"
  shows "sched_ok k s'"
  using c unfolding creation_def
proof
  assume "untouched s s'"
  then show ?thesis
    using ok by (simp add: sched_ok_def untouched_def)
next
  assume "\<exists>sl < 10. t_state (tasks s ! sl) \<in> {Unused, Dead} \<and> occupied k s sl s'"
  then obtain sl t where sl: "sl < 10" "t_state (tasks s ! sl) \<in> {Unused, Dead}" and t: "tasks s' = (tasks s)[sl := t]" "t_state t = Ready"
    and rest: "currentTaskIndex s' = currentTaskIndex s" "tss_esp0 s' = tss_esp0 s" "cr3 (mach s') = cr3 (mach s)"
    unfolding occupied_def by blast
  have len: "length (tasks s) = 10"
    by (rule sched_okD(1) [OF ok])
  have "sl \<noteq> 0"
    using sched_okD(4) [OF ok] sl(2) by (intro notI) (auto simp: runnable_def)
  then have ne: "int sl \<noteq> currentTaskIndex s" "sl \<noteq> 0"
    using sched_okD(5) [OF ok sl(1)] sl(2) by auto
  show ?thesis
  proof (rule sched_okI)
    show "t_state (tasks s' ! i) = Running \<longleftrightarrow> int i = currentTaskIndex s'" if "i < 10" for i
      using sched_okD(5) [OF ok that] ne(1) that len t(2) rest(1) unfolding t(1) by (cases "i = sl") (auto simp: nth_list_update)
    show "runnable (tasks s' ! 0)"
      using sched_okD(4) [OF ok] ne(2) by (simp add: t)
    show "cr3 (mach s') = t_addressSpace (tasks s' ! nat (currentTaskIndex s')) \<and> tss_esp0 s' = kernelStackTop k (nat (currentTaskIndex s'))"
      if "currentTaskIndex s' \<ge> 0"
      using sched_okD(6) [OF ok] that ne(1) rest t by (metis nat_0_le nth_list_update_neq)
  qed (use sched_okD(2,3) [OF ok] len t rest in simp_all)
qed


section \<open>Runs of the scheduler\<close>

datatype sched_event = Create u32 | Create_user bytes | Create_elf bytes | Tick u32 | Exit u32 | Terminate u32 | Block u32 | Unblock int

text \<open>
  The kernel's transitions. Exiting, blocking and being terminated are things the running task does or
  that happen to it; the idle task of slot 0 does none of them. The plan an ELF creation fills is an
  uninitialised local: any plan with its array of four. Each operation is one step. The tick and
  termination run behind interrupt gates, which keep further interrupts out. Exit and block set the
  state and then raise the yield interrupt, and the creation functions run with interrupts as they find
  them; a tick inside one of these is not represented. During a creation it could come between setting
  the slot to \<^verbatim>\<open>Ready\<close> and preparing its frame, and schedule a half-built task; and a second creation
  could read the same \<^verbatim>\<open>nextPid\<close>.
\<close>

inductive kernel_step :: "kimage \<Rightarrow> sched \<Rightarrow> sched_event \<Rightarrow> sched \<Rightarrow> bool" where
  step_create: "scheduler_create_task k s entry = (r, s') \<Longrightarrow> kernel_step k s (Create entry) s'"
| step_user: "scheduler_create_user_task k s code = (r, s') \<Longrightarrow> kernel_step k s (Create_user code) s'"
| step_elf: "scheduler_create_elf_user_task k s img (word_of_nat (length img)) plan0 = Some (r, s') \<Longrightarrow>
    length img < 2 ^ 32 \<Longrightarrow> length (segments plan0) = 4 \<Longrightarrow> kernel_step k s (Create_elf img) s'"
| step_tick: "scheduler_on_timer_tick k s esp = (r, s') \<Longrightarrow> kernel_step k s (Tick esp) s'"
| step_exit: "currentTaskIndex s > 0 \<Longrightarrow> scheduler_exit k s esp = (r, s') \<Longrightarrow> kernel_step k s (Exit esp) s'"
| step_terminate: "currentTaskIndex s > 0 \<Longrightarrow> scheduler_terminate_current k s esp = (r, s') \<Longrightarrow> kernel_step k s (Terminate esp) s'"
| step_block: "currentTaskIndex s > 0 \<Longrightarrow> scheduler_block_self k s esp = (r, s') \<Longrightarrow> kernel_step k s (Block esp) s'"
| step_unblock: "s' = scheduler_unblock s pid \<Longrightarrow> kernel_step k s (Unblock pid) s'"

inductive kernel_run :: "kimage \<Rightarrow> sched \<Rightarrow> sched_event list \<Rightarrow> sched \<Rightarrow> bool" where
  run_start: "kernel_run k s [] s"
| run_step: "kernel_run k s es s1 \<Longrightarrow> kernel_step k s1 e s2 \<Longrightarrow> kernel_run k s (es @ [e]) s2"

text \<open>What one transition does to the table: a creation, a change of states and stack pointers only.\<close>

definition switched :: "sched \<Rightarrow> sched \<Rightarrow> bool" where
  "switched s s' \<longleftrightarrow> nextPid s' = nextPid s \<and> pm (mach s') = pm (mach s) \<and> phys (mach s') = phys (mach s) \<and> length (tasks s') = 10 \<and>
     (\<forall>i < 10. same_but_state (tasks s ! i) (tasks s' ! i) \<and>
        (t_state (tasks s ! i) \<in> {Dead, Unused} \<longrightarrow> t_state (tasks s' ! i) = t_state (tasks s ! i)) \<and>
        (t_state (tasks s ! i) \<notin> {Dead, Unused} \<longrightarrow> t_state (tasks s' ! i) \<noteq> Unused))"

lemma mark_current_settling:
  assumes ok: "sched_ok k s" and c: "currentTaskIndex s > 0" and st: "st \<in> {Dead, Blocked}"
  defines "s1 \<equiv> mark_current s st"
  shows "settling s1" "loaded k s1" "currentTaskIndex s1 = currentTaskIndex s" "nextPid s1 = nextPid s" "mach s1 = mach s"
    "i < 10 \<Longrightarrow> same_but_state (tasks s ! i) (tasks s1 ! i)"
    "i < 10 \<Longrightarrow> t_state (tasks s1 ! i) = (if int i = currentTaskIndex s then st else t_state (tasks s ! i))"
proof -
  let ?c = "nat (currentTaskIndex s)"
  note len = sched_okD(1) [OF ok]
  have s1: "s1 = upd_task s ?c (\<lambda>t. t\<lparr>t_state := st\<rparr>)"
    using c by (simp add: s1_def mark_current_def)
  have t: "tasks s1 ! i = (if int i = currentTaskIndex s then (tasks s ! i)\<lparr>t_state := st\<rparr> else tasks s ! i)" if "i < 10" for i
    using that len c by (auto simp: s1 nth_upd_task)
  show cs: "currentTaskIndex s1 = currentTaskIndex s" "nextPid s1 = nextPid s" "mach s1 = mach s"
    by (simp_all add: s1)
  show "same_but_state (tasks s ! i) (tasks s1 ! i)" "t_state (tasks s1 ! i) = (if int i = currentTaskIndex s then st else t_state (tasks s ! i))"
    if "i < 10" for i
    using t [OF that] by (simp_all add: same_but_stateI)
  have c10: "?c < 10"
    using sched_okD(3) [OF ok] c by (simp add: nat_less_iff)
  show "settling s1"
    using sched_okD(2,3,4,5) [OF ok] t [of 0] t c len st unfolding settling_def cs by (auto simp: s1 runnable_def)
  show "loaded k s1"
    using sched_okD(6) [OF ok] t [OF c10] c st unfolding loaded_def cs by (auto simp: s1)
qed


lemma tick_switched:
  assumes st: "settling s1" "loaded k s1" "currentTaskIndex s1 \<ge> 0" and t: "scheduler_on_timer_tick k s1 esp = (r, s')"
    and s: "nextPid s1 = nextPid s" "mach s1 = mach s" "\<And>i. i < 10 \<Longrightarrow> same_but_state (tasks s ! i) (tasks s1 ! i)"
    "\<And>i. i < 10 \<Longrightarrow> t_state (tasks s ! i) \<in> {Dead, Unused} \<longleftrightarrow> t_state (tasks s1 ! i) \<in> {Dead, Unused} \<and> t_state (tasks s1 ! i) = t_state (tasks s ! i)"
    "\<And>i. i < 10 \<Longrightarrow> t_state (tasks s1 ! i) = Unused \<Longrightarrow> t_state (tasks s ! i) = Unused"
  shows "sched_ok k s' \<and> switched s s'"
proof -
  note tk = tick_ok [OF st t]
  have "same_but_state (tasks s ! i) (tasks s' ! i) \<and>
        (t_state (tasks s ! i) \<in> {Dead, Unused} \<longrightarrow> t_state (tasks s' ! i) = t_state (tasks s ! i)) \<and>
        (t_state (tasks s ! i) \<notin> {Dead, Unused} \<longrightarrow> t_state (tasks s' ! i) \<noteq> Unused)" if "i < 10" for i
    using same_but_state_trans [OF s(3) [OF that] tk(3) [OF that]] s(4,5) [OF that] tk(4) [OF that] tk(5) [OF that] by auto
  then show ?thesis
    using tk(1,2,6,7) s(1,2) sched_okD(1) [OF tk(1)] by (simp add: switched_def)
qed

lemma first_tick:
  assumes ok: "sched_ok k s" and c: "currentTaskIndex s < 0" and t: "scheduler_on_timer_tick k s esp = (r, s')"
  shows "sched_ok k s' \<and> switched s s'"
proof -
  have st: "settling s"
    using sched_ok_settling [OF ok] by simp
  have sw: "switchTo k s 0 = (r, s')"
    using t c by (simp add: scheduler_on_timer_tick_def)
  note w = switchTo_ok [OF st _ sched_okD(4) [OF ok] sw]
  have "same_but_state (tasks s ! i) (tasks s' ! i) \<and>
        (t_state (tasks s ! i) \<in> {Dead, Unused} \<longrightarrow> t_state (tasks s' ! i) = t_state (tasks s ! i)) \<and>
        (t_state (tasks s ! i) \<notin> {Dead, Unused} \<longrightarrow> t_state (tasks s' ! i) \<noteq> Unused)" if i: "i < 10" for i
  proof -
    have "same_but_state (tasks s ! i) (tasks s' ! i)"
      using w(7) [OF _ i] same_but_stateI(2) by (metis zero_less_numeral)
    moreover have "t_state (tasks s ! 0) \<notin> {Dead, Unused}"
      using sched_okD(4) [OF ok] by (auto simp: runnable_def)
    ultimately show ?thesis
      using w(4) [OF _ i] by (cases "i = 0") auto
  qed
  then show ?thesis
    using w(1,6,8) sched_okD(1) [of k s'] by (simp add: switched_def)
qed

lemma timer_tick_ok:
  assumes ok: "sched_ok k s" and t: "scheduler_on_timer_tick k s esp = (r, s')"
  shows "sched_ok k s' \<and> switched s s'"
proof (cases "currentTaskIndex s < 0")
  case False
  then show ?thesis
    using sched_ok_settling [OF ok] by (intro tick_switched [OF _ _ _ t]) (auto simp: same_but_stateI)
qed (rule first_tick [OF ok _ t])

lemma leave_ok:
  assumes ok: "sched_ok k s" and c: "currentTaskIndex s > 0" and st: "st \<in> {Dead, Blocked}"
    and t: "scheduler_on_timer_tick k (mark_current s st) esp = (r, s')"
  shows "sched_ok k s' \<and> switched s s'"
proof -
  note m = mark_current_settling [OF ok c st]
  have run: "t_state (tasks s ! i) = Running" if "int i = currentTaskIndex s" for i
    using current_running [OF ok] that c by (metis nat_int order_less_imp_le)
  show ?thesis
  proof (rule tick_switched [OF m(1,2) _ t m(4,5,6)])
    show "currentTaskIndex (mark_current s st) \<ge> 0"
      using m(3) c by simp
    fix i :: nat assume i: "i < 10"
    show "t_state (tasks s ! i) \<in> {Dead, Unused} \<longleftrightarrow>
        t_state (tasks (mark_current s st) ! i) \<in> {Dead, Unused} \<and> t_state (tasks (mark_current s st) ! i) = t_state (tasks s ! i)"
      using m(7) [OF i] run [of i] st by (cases "int i = currentTaskIndex s") auto
    assume "t_state (tasks (mark_current s st) ! i) = Unused"
    then show "t_state (tasks s ! i) = Unused"
      using m(7) [OF i] st by (auto split: if_splits)
  qed
qed

lemma index_from_cases:
  "index_from ts pid is = -1 \<or> (\<exists>i \<in> set is. index_from ts pid is = int i \<and> t_pid (ts ! i) = pid)"
  by (induction "is") auto

lemma unblock_ok:
  assumes ok: "sched_ok k s"
  shows "sched_ok k (scheduler_unblock s pid) \<and> switched s (scheduler_unblock s pid)"
proof -
  note len = sched_okD(1) [OF ok]
  have same: "switched s s"
    using len by (auto simp: switched_def same_but_stateI)
  consider "scheduler_unblock s pid = s" | i where "i < 10" "t_state (tasks s ! i) = Blocked"
      "scheduler_unblock s pid = upd_task s i (\<lambda>t. t\<lparr>t_state := Ready\<rparr>)"
  proof (cases "\<exists>i < 10. indexForPid s (word_of_int pid) = int i \<and> t_state (tasks s ! i) = Blocked")
    case True
    then show thesis
      using that(2) by (auto simp: scheduler_unblock_def Let_def)
  next
    case False
    have "indexForPid s (word_of_int pid) = -1 \<or> (\<exists>i < 10. indexForPid s (word_of_int pid) = int i)"
      using index_from_cases [of "tasks s" "word_of_int pid" "[0..<MAX_TASKS]"] by (auto simp: indexForPid_def MAX_TASKS_def)
    with False show thesis
      using that(1) by (auto simp: scheduler_unblock_def Let_def)
  qed
  then show ?thesis
  proof cases
    case 1
    then show ?thesis
      using ok same by simp
  next
    case (2 i)
    let ?s = "upd_task s i (\<lambda>t. t\<lparr>t_state := Ready\<rparr>)"
    have t: "tasks ?s ! j = (if j = i then (tasks s ! j)\<lparr>t_state := Ready\<rparr> else tasks s ! j)" if "j < 10" for j
      using that len by (simp add: nth_upd_task)
    have "int i \<noteq> currentTaskIndex s"
      using sched_okD(5) [OF ok 2(1)] 2(2) by simp
    then have "sched_ok k ?s"
      using ok t [of 0] sched_okD(3) [OF ok] unfolding sched_ok_def
      by (auto simp: t runnable_def nat_less_iff)
    moreover have "switched s ?s"
      using t len 2(2) by (auto simp: switched_def same_but_stateI)
    ultimately show ?thesis
      using 2(3) by simp
  qed
qed

lemma kernel_step_cases:
  assumes "sched_ok k s" "kernel_step k s e s'"
  shows "sched_ok k s' \<and> (creation k s s' \<or> switched s s')"
  using assms(2)
proof cases
  case (step_create entry r)
  then show ?thesis
    using create_task_creation [OF sched_okD(1) [OF assms(1)]] creation_sched_ok [OF assms(1)] by blast
next
  case (step_user code r)
  then show ?thesis
    using create_user_creation [OF sched_okD(1) [OF assms(1)]] creation_sched_ok [OF assms(1)] by blast
next
  case (step_elf img plan0 r)
  then show ?thesis
    using create_elf_creation [OF sched_okD(1) [OF assms(1)]] creation_sched_ok [OF assms(1)] by blast
next
  case (step_tick esp r)
  then show ?thesis
    using timer_tick_ok [OF assms(1)] by blast
next
  case (step_exit esp r)
  then show ?thesis
    using leave_ok [OF assms(1), of Dead] unfolding scheduler_exit_def scheduler_on_yield_def by blast
next
  case (step_terminate esp r)
  then show ?thesis
    using leave_ok [OF assms(1), of Dead] unfolding scheduler_terminate_current_def by blast
next
  case (step_block esp r)
  then show ?thesis
    using leave_ok [OF assms(1), of Blocked] unfolding scheduler_block_self_def scheduler_on_yield_def by blast
next
  case (step_unblock pid)
  then show ?thesis
    using unblock_ok [OF assms(1)] by blast
qed


section \<open>Process identifiers\<close>

definition pids_ok :: "sched \<Rightarrow> bool" where
  "pids_ok s \<longleftrightarrow> (\<forall>i < 10. t_state (tasks s ! i) \<noteq> Unused \<longrightarrow> t_pid (tasks s ! i) < nextPid s) \<and>
     (\<forall>i < 10. \<forall>j < 10. i \<noteq> j \<and> t_state (tasks s ! i) \<noteq> Unused \<and> t_state (tasks s ! j) \<noteq> Unused \<longrightarrow>
        t_pid (tasks s ! i) \<noteq> t_pid (tasks s ! j))"

lemma pids_ok_creation:
  assumes p: "pids_ok s" and len: "length (tasks s) = 10" and c: "creation k s s'" and n: "unat (nextPid s) + 1 < 2 ^ 32"
  shows "pids_ok s' \<and> unat (nextPid s') \<le> unat (nextPid s) + 1"
  using c unfolding creation_def
proof
  assume "untouched s s'"
  then show ?thesis
    using p by (simp add: pids_ok_def untouched_def)
next
  assume "\<exists>sl < 10. t_state (tasks s ! sl) \<in> {Unused, Dead} \<and> occupied k s sl s'"
  then obtain sl t where sl: "sl < 10" and t: "tasks s' = (tasks s)[sl := t]" "t_pid t = nextPid s" "nextPid s' = nextPid s + 1"
    unfolding occupied_def by blast
  have nx: "unat (nextPid s') = unat (nextPid s) + 1"
    using n by (simp add: t(3) unat_word_ariths)
  then have up: "a < nextPid s' \<longleftrightarrow> a < nextPid s \<or> a = nextPid s" for a
    by (auto simp: word_less_nat_alt word_unat_eq_iff)
  have nth: "tasks s' ! i = (if i = sl then t else tasks s ! i)" if "i < 10" for i
    using that len sl by (simp add: t(1) nth_list_update)
  have old: "t_pid (tasks s ! i) < nextPid s" "t_pid (tasks s ! i) \<noteq> nextPid s" if "i < 10" "t_state (tasks s ! i) \<noteq> Unused" for i
    using p that unfolding pids_ok_def by (blast, force)
  have "t_pid (tasks s' ! i) \<noteq> t_pid (tasks s' ! j)"
    if "i < 10" "j < 10" "i \<noteq> j" "t_state (tasks s' ! i) \<noteq> Unused" "t_state (tasks s' ! j) \<noteq> Unused" for i j
    using that nth [OF that(1)] nth [OF that(2)] old(2) [OF that(1)] old(2) [OF that(2)] t(2) p unfolding pids_ok_def
    by (cases "i = sl"; cases "j = sl") auto
  moreover have "t_pid (tasks s' ! i) < nextPid s'" if "i < 10" "t_state (tasks s' ! i) \<noteq> Unused" for i
    using that nth [OF that(1)] old(1) [OF that(1)] t(2) unfolding up by (cases "i = sl") auto
  ultimately show ?thesis
    using nx unfolding pids_ok_def by simp
qed

lemma pids_ok_switched:
  assumes "pids_ok s" "switched s s'"
  shows "pids_ok s' \<and> nextPid s' = nextPid s"
proof -
  have pid: "t_pid (tasks s' ! i) = t_pid (tasks s ! i)" if "i < 10" for i
    using assms(2) that same_but_stateD(1) unfolding switched_def by blast
  have st: "t_state (tasks s ! i) \<noteq> Unused" if "i < 10" "t_state (tasks s' ! i) \<noteq> Unused" for i
    using assms(2) that unfolding switched_def by force
  have nx: "nextPid s' = nextPid s"
    using assms(2) by (simp add: switched_def)
  have "t_pid (tasks s' ! i) < nextPid s" if "i < 10" "t_state (tasks s' ! i) \<noteq> Unused" for i
    using assms(1) pid [OF that(1)] st [OF that] that(1) unfolding pids_ok_def by simp
  moreover have "t_pid (tasks s' ! i) \<noteq> t_pid (tasks s' ! j)"
    if "i < 10" "j < 10" "i \<noteq> j" "t_state (tasks s' ! i) \<noteq> Unused" "t_state (tasks s' ! j) \<noteq> Unused" for i j
    using assms(1) pid [OF that(1)] pid [OF that(2)] st [OF that(1,4)] st [OF that(2,5)] that(1-3) unfolding pids_ok_def by simp
  ultimately show ?thesis
    unfolding pids_ok_def nx by blast
qed

section \<open>Round robin is fair\<close>

fun ticks :: "kimage \<Rightarrow> sched \<Rightarrow> u32 list \<Rightarrow> sched" where
  "ticks k s [] = s"
| "ticks k s (esp # esps) = ticks k (snd (scheduler_on_timer_tick k s esp)) esps"

text \<open>How many slots the scheduler has to walk from the current task to slot \<open>i\<close>.\<close>

definition slots_until :: "sched \<Rightarrow> nat \<Rightarrow> nat" where
  "slots_until s i = (i + 10 - nat (currentTaskIndex s)) mod 10"

lemma tick_advances:
  assumes ok: "sched_ok k s" and c: "currentTaskIndex s \<ge> 0" and i: "i < 10" "runnable (tasks s ! i)" "int i \<noteq> currentTaskIndex s"
    and t: "scheduler_on_timer_tick k s esp = (r, s')"
  shows "sched_ok k s'" "currentTaskIndex s' \<ge> 0" "runnable (tasks s' ! i)" "slots_until s' i < slots_until s i"
proof -
  define s1 where "s1 = upd_task s (nat (currentTaskIndex s)) (\<lambda>t. t\<lparr>t_savedEsp := esp\<rparr>)"
  note len = sched_okD(1) [OF ok] and c10 = sched_okD(3) [OF ok] and st = sched_ok_settling [OF ok]
  note tk = tick_ok [OF conjunct1 [OF st] conjunct2 [OF st] c t]
  show "sched_ok k s'"
    by (rule tk(1))
  have st1: "runnable (tasks s1 ! j) \<longleftrightarrow> runnable (tasks s ! j)" if "j < 10" for j
    using that len by (simp add: s1_def nth_upd_task runnable_def)
  have c1: "0 \<le> currentTaskIndex s1" "currentTaskIndex s1 < 10"
    using c c10 by (simp_all add: s1_def)
  define n where "n = nat (currentTaskIndex s)"
  have n: "n < 10" "nat (currentTaskIndex s1) = n" "n \<noteq> i" "int n = currentTaskIndex s" "currentTaskIndex s1 = int n"
    using c c10 i(3) by (auto simp: n_def s1_def nat_less_iff)
  define d where "d = (i + 10 - n) mod 10"
  have d: "1 \<le> d" "d < 10" "(n + d) mod 10 = i"
    using n i(1) by (auto simp: d_def mod_if)
  show run: "runnable (tasks s' ! i)"
    using tk(4) [OF i(1)] i(2) by (auto simp: runnable_def)
  have "\<exists>x. 1 \<le> x \<and> x \<le> d \<and> currentTaskIndex s' = int ((n + x) mod 10)"
  proof (cases rule: pickNext_cases [OF c1, of s1, case_names none first])
    case none
    then show ?thesis
      using i(1,2) st1 by blast
  next
    case (first x)
    have "x \<le> d"
    proof (rule ccontr)
      assume "\<not> x \<le> d"
      then have "\<not> runnable (tasks s1 ! ((n + d) mod 10))"
        using first(5) [of d] d(1) n(2) by simp
      then show False
        using d(3) i(1,2) st1 by simp
    qed
    moreover have "currentTaskIndex s' = int ((n + x) mod 10)"
    proof (cases "int ((n + x) mod 10) = int n")
      case True
      then have "x = 10"
        using first(1,2) n(1) by (auto simp: mod_if split: if_splits)
      then show ?thesis
        using \<open>x \<le> d\<close> d(2) by simp
    next
      case False
      have "switchTo k s1 ((n + x) mod 10) = (r, s')"
        using t False first(3) n c unfolding scheduler_on_timer_tick_def Let_def s1_def [symmetric] by simp
      then show ?thesis
        by (auto simp: switchTo_def Let_def)
    qed
    ultimately show ?thesis
      using first(1) by blast
  qed
  then obtain x where x: "1 \<le> x" "x \<le> d" "currentTaskIndex s' = int ((n + x) mod 10)"
    by blast
  then show "currentTaskIndex s' \<ge> 0"
    by simp
  have "slots_until s i = d"
    by (simp add: slots_until_def d_def n_def)
  moreover have "slots_until s' i = d - x"
    using x d n(1) i(1) by (auto simp: slots_until_def mod_if split: if_splits)
  ultimately show "slots_until s' i < slots_until s i"
    using x d by simp
qed

lemma runs_within:
  assumes "sched_ok k s" "currentTaskIndex s \<ge> 0" "i < 10" "runnable (tasks s ! i)" "slots_until s i \<le> length esps"
  shows "\<exists>n \<le> length esps. currentTaskIndex (ticks k s (take n esps)) = int i"
  using assms
proof (induction esps arbitrary: s)
  case Nil
  then have "int i = currentTaskIndex s"
    using sched_okD(3) [OF Nil.prems(1)] by (auto simp: slots_until_def mod_if split: if_splits)
  then show ?case
    by simp
next
  case (Cons esp esps)
  show ?case
  proof (cases "int i = currentTaskIndex s")
    case True
    then show ?thesis
      by (intro exI [of _ 0]) simp
  next
    case False
    obtain r s' where t: "scheduler_on_timer_tick k s esp = (r, s')"
      by fastforce
    note adv = tick_advances [OF Cons.prems(1-4) False t]
    have "slots_until s' i \<le> length esps"
      using adv(4) Cons.prems(5) by simp
    from Cons.IH [OF adv(1,2) Cons.prems(3) adv(3) this] obtain n where
      "n \<le> length esps" "currentTaskIndex (ticks k s' (take n esps)) = int i"
      by blast
    then show ?thesis
      using t by (intro exI [of _ "Suc n"]) simp
  qed
qed


section \<open>From boot\<close>

text \<open>The static task table starts zeroed, and \<^verbatim>\<open>nextPid\<close> at 1.\<close>

definition blank_frame :: InterruptFrame where
  "blank_frame = \<lparr>f_gs = 0, f_fs = 0, f_es = 0, f_ds = 0, f_edi = 0, f_esi = 0, f_ebp = 0, f_esp = 0, f_ebx = 0, f_edx = 0,
     f_ecx = 0, f_eax = 0, f_interrupt_number = 0, f_error_code = 0, f_eip = 0, f_cs = 0, f_eflags = 0, f_useresp = 0, f_ss = 0\<rparr>"

definition blank_task :: Task where
  "blank_task = \<lparr>t_pid = 0, t_state = Unused, t_savedEsp = 0, t_isUser = False, t_userCodePage = 0, t_userStackPage = 0,
     t_elfPages = replicate 8 0, t_elfPageCount = 0, t_addressSpace = 0, t_frame = blank_frame\<rparr>"

definition sched_boot :: "kimage \<Rightarrow> machine \<Rightarrow> sched" where
  "sched_boot k m = scheduler_init k
     \<lparr>mach = m, tasks = replicate 10 blank_task, currentTaskIndex = -1, nextPid = 1, tss_esp0 = 0\<rparr>"

lemma sched_boot_fields:
  "length (tasks (sched_boot k m)) = 10" "currentTaskIndex (sched_boot k m) = -1" "nextPid (sched_boot k m) = 2"
  "mach (sched_boot k m) = m" "t_state (tasks (sched_boot k m) ! 0) = Ready" "t_pid (tasks (sched_boot k m) ! 0) = 1"
  "0 < i \<Longrightarrow> i < 10 \<Longrightarrow> t_state (tasks (sched_boot k m) ! i) = Unused"
  "i < 10 \<Longrightarrow> t_userCodePage (tasks (sched_boot k m) ! i) = 0 \<and> t_userStackPage (tasks (sched_boot k m) ! i) = 0 \<and>
     t_elfPageCount (tasks (sched_boot k m) ! i) = 0 \<and> length (t_elfPages (tasks (sched_boot k m) ! i)) = 8 \<and>
     \<not> t_isUser (tasks (sched_boot k m) ! i) \<and> t_addressSpace (tasks (sched_boot k m) ! i) = kernelDirectory (k_layout k)"
  by (simp_all add: sched_boot_def scheduler_init_def nth_upd_task Let_def blank_task_def paging_kernel_address_space_def
      prepareInitialFrame_def placeInitialFrame_def)

lemma sched_boot_ok: "sched_ok k (sched_boot k m)" "pids_ok (sched_boot k m)"
proof -
  have st: "t_state (tasks (sched_boot k m) ! i) = (if i = 0 then Ready else Unused)" if "i < 10" for i
    using that sched_boot_fields(5,7) by simp
  show "sched_ok k (sched_boot k m)"
    by (rule sched_okI) (auto simp: sched_boot_fields(1,2,5) st runnable_def)
  have "i = 0" if "i < 10" "t_state (tasks (sched_boot k m) ! i) \<noteq> Unused" for i
    using st [OF that(1)] that(2) by (simp split: if_splits)
  then have only: "i = 0" if "i < 10 \<and> t_state (tasks (sched_boot k m) ! i) \<noteq> Unused" for i
    using that by blast
  have "t_pid (tasks (sched_boot k m) ! 0) < 2"
    by (simp add: sched_boot_fields(6))
  then show "pids_ok (sched_boot k m)"
    unfolding pids_ok_def sched_boot_fields(3) using only by blast
qed

lemma kernel_run_ok:
  assumes "kernel_run k s0 es s" "sched_ok k s0" "pids_ok s0" "unat (nextPid s0) + length es < 2 ^ 32 - 1"
  shows "sched_ok k s \<and> pids_ok s \<and> unat (nextPid s) \<le> unat (nextPid s0) + length es"
  using assms
proof (induction rule: kernel_run.induct)
  case (run_step k s0 es s1 e s2)
  then have IH: "sched_ok k s1" "pids_ok s1" "unat (nextPid s1) \<le> unat (nextPid s0) + length es"
    by simp_all
  have "unat (nextPid s1) + 1 < 2 ^ 32"
    using IH(3) run_step.prems(3) by simp
  with kernel_step_cases [OF IH(1) run_step.hyps(2)] show ?case
    using pids_ok_creation [OF IH(2) sched_okD(1) [OF IH(1)]] pids_ok_switched [OF IH(2)] IH(3) by fastforce
qed simp

section \<open>Properties\<close>

text \<open>
  C36. In every state the scheduler reaches from boot: at most one task is running and it is the
  current one, with its own address space loaded and its own kernel stack in the task state
  segment; the idle task can always run; live and dead tasks have distinct process identifiers.
  Whatever the next operation is, a dead slot stays dead or is given to a new task under an
  identifier no slot carries, so a finished task never runs again.
\<close>

theorem scheduler_invariant:
  assumes "kernel_run k (sched_boot k m) es s" "length es < 2 ^ 32 - 4"
  shows "(\<forall>i < 10. t_state (tasks s ! i) = Running \<longleftrightarrow> int i = currentTaskIndex s) \<and>
    (currentTaskIndex s \<ge> 0 \<longrightarrow> cr3 (mach s) = t_addressSpace (tasks s ! nat (currentTaskIndex s)) \<and>
       tss_esp0 s = kernelStackTop k (nat (currentTaskIndex s))) \<and>
    t_state (tasks s ! 0) \<in> {Ready, Running} \<and>
    (\<forall>i < 10. \<forall>j < 10. i \<noteq> j \<and> t_state (tasks s ! i) \<noteq> Unused \<and> t_state (tasks s ! j) \<noteq> Unused \<longrightarrow> t_pid (tasks s ! i) \<noteq> t_pid (tasks s ! j)) \<and>
    (\<forall>e s' i. kernel_step k s e s' \<and> i < 10 \<and> t_state (tasks s ! i) = Dead \<longrightarrow>
       t_state (tasks s' ! i) = Dead \<and> t_pid (tasks s' ! i) = t_pid (tasks s ! i) \<or>
       t_state (tasks s' ! i) = Ready \<and> t_pid (tasks s' ! i) = nextPid s \<and>
       (\<forall>j < 10. t_state (tasks s ! j) \<noteq> Unused \<longrightarrow> t_pid (tasks s ! j) \<noteq> nextPid s))"
proof -
  have "unat (nextPid (sched_boot k m)) + length es < 2 ^ 32 - 1"
    using assms(2) by (simp add: sched_boot_fields(3))
  note inv = kernel_run_ok [OF assms(1) sched_boot_ok this]
  have ok: "sched_ok k s" and pids: "pids_ok s"
    using inv by simp_all
  have dead: "t_state (tasks s' ! i) = Dead \<and> t_pid (tasks s' ! i) = t_pid (tasks s ! i) \<or>
       t_state (tasks s' ! i) = Ready \<and> t_pid (tasks s' ! i) = nextPid s \<and>
       (\<forall>j < 10. t_state (tasks s ! j) \<noteq> Unused \<longrightarrow> t_pid (tasks s ! j) \<noteq> nextPid s)"
    if "kernel_step k s e s'" "i < 10" "t_state (tasks s ! i) = Dead" for e s' i
  proof -
    have fresh: "\<forall>j < 10. t_state (tasks s ! j) \<noteq> Unused \<longrightarrow> t_pid (tasks s ! j) \<noteq> nextPid s"
      using pids unfolding pids_ok_def by force
    from kernel_step_cases [OF ok that(1)] show ?thesis
      using that(2,3) fresh sched_okD(1) [OF ok] same_but_stateD(1) [of "tasks s ! i" "tasks s' ! i"]
      by (auto simp: creation_def untouched_def occupied_def switched_def nth_list_update)
  qed
  show ?thesis
    using ok pids dead unfolding sched_ok_def pids_ok_def runnable_def by blast
qed

definition sample_image :: kimage where
  "sample_image = \<lparr>k_layout = sample_layout, k_stackTop = (\<lambda>i. 1130496 + 4096 * word_of_nat i), k_idleEntry = 1048576\<rparr>"

theorem scheduler_invariant_witness:
  "\<exists>s. kernel_run sample_image (sched_boot sample_image (boot_machine sample_layout 1179648 (\<lambda>_. 0))) [Tick 7] s \<and>
     t_state (tasks s ! 0) \<in> {Ready, Running}"
proof -
  let ?s = "sched_boot sample_image (boot_machine sample_layout 1179648 (\<lambda>_. 0))"
  obtain r s where "scheduler_on_timer_tick sample_image ?s 7 = (r, s)"
    by fastforce
  then have run: "kernel_run sample_image ?s [Tick 7] s"
    using run_step [OF run_start step_tick] by fastforce
  with scheduler_invariant [OF run] show ?thesis
    by auto
qed

text \<open>
  C37. No runnable task starves: from any state the scheduler reaches after its first tick, a task that
  is ready becomes the current one within at most ten ticks, whatever stack pointers they save.
\<close>

theorem round_robin_is_fair:
  assumes "kernel_run k (sched_boot k m) es s" "length es < 2 ^ 32 - 4" "currentTaskIndex s \<ge> 0"
    and "i < 10" "t_state (tasks s ! i) = Ready" "length esps = 10"
  shows "\<exists>n \<le> 10. currentTaskIndex (ticks k s (take n esps)) = int i"
proof -
  have "unat (nextPid (sched_boot k m)) + length es < 2 ^ 32 - 1"
    using assms(2) by (simp add: sched_boot_fields(3))
  note ok = conjunct1 [OF kernel_run_ok [OF assms(1) sched_boot_ok this]]
  have "slots_until s i \<le> length esps"
    using assms(6) by (simp add: slots_until_def less_imp_le)
  from runs_within [OF ok assms(3,4) _ this] show ?thesis
    using assms(5,6) by (simp add: runnable_def)
qed

lemma sample_ready_task:
  fixes m :: machine
  defines "b \<equiv> sched_boot sample_image m"
  shows "\<exists>s. kernel_run sample_image b [Create 5, Tick 7] s \<and> currentTaskIndex s = 0 \<and> t_state (tasks s ! 1) = Ready"
proof -
  note f = sched_boot_fields [where k = sample_image and m = m, folded b_def]
  have "[0..<10] = 0 # 1 # [2..<10 :: nat]"
    by (simp add: upt_rec)
  then have slot: "freeSlot b = 1"
    using f(5) f(7) [of 1] by (simp add: freeSlot_def findSlot_def MAX_TASKS_def)
  obtain r1 s1 where c: "scheduler_create_task sample_image b 5 = (r1, s1)"
    by fastforce
  then have st: "t_state (tasks s1 ! 1) = Ready" "currentTaskIndex s1 = -1"
    using reclaimSlot_shape(3,5) [of 1 b, where k = sample_image] f(1,2)
    by (auto simp: scheduler_create_task_def slot nth_upd_task Let_def)
  have ok: "sched_ok sample_image s1"
    using creation_sched_ok [OF _ create_task_creation [OF f(1) c]] sched_boot_ok(1) unfolding b_def by blast
  obtain r s where t: "scheduler_on_timer_tick sample_image s1 7 = (r, s)"
    by fastforce
  then have "switchTo sample_image s1 0 = (r, s)"
    using st(2) by (simp add: scheduler_on_timer_tick_def)
  note w = switchTo_ok [OF conjunct1 [OF sched_ok_settling [OF ok]] _ sched_okD(4) [OF ok] this]
  have "kernel_run sample_image b ([] @ [Create 5] @ [Tick 7]) s"
    using run_step [OF run_step [OF run_start step_create [OF c]] step_tick [OF t]] by simp
  moreover have "currentTaskIndex s = 0" "t_state (tasks s ! 1) = Ready"
    using w(2) w(4) [where i = 1] st(1) by simp_all
  ultimately show ?thesis
    by auto
qed

theorem round_robin_is_fair_witness:
  "\<exists>s n. kernel_run sample_image (sched_boot sample_image (boot_machine sample_layout 1179648 (\<lambda>_. 0))) [Create 5, Tick 7] s \<and>
     n \<le> 10 \<and> currentTaskIndex (ticks sample_image s (take n (replicate 10 9))) = 1"
proof -
  obtain s where run: "kernel_run sample_image (sched_boot sample_image (boot_machine sample_layout 1179648 (\<lambda>_. 0))) [Create 5, Tick 7] s"
    and s: "currentTaskIndex s = 0" "t_state (tasks s ! 1) = Ready"
    using sample_ready_task by blast
  have "\<exists>n \<le> 10. currentTaskIndex (ticks sample_image s (take n (replicate 10 9))) = int 1"
    by (rule round_robin_is_fair [OF run]) (use s in simp_all)
  then show ?thesis
    using run by auto
qed

end
