(* ===== verification/OgIr.thy ===== *)
theory OgIr
  imports Prelude
begin

text \<open>
  The back end of the compiler up to register allocation, \<^verbatim>\<open>03-compiler/oglang\<close>: the intermediate
  representation (\<^verbatim>\<open>ir/ir.hpp\<close>), the live ranges (\<^verbatim>\<open>analysis/liveness.cpp\<close>), the interference
  graph (\<^verbatim>\<open>analysis/interference.cpp\<close>) and the graph-colouring allocator
  (\<^verbatim>\<open>codegen/register_allocator.cpp\<close>).

  A \<^verbatim>\<open>std::unordered_map\<close> that a loop iterates over is an association list whose order is the
  iteration order of that object; the standard leaves the order open and promises only that erasing
  keeps the order of the rest. \<^verbatim>\<open>working\<close> is a copy of the graph, so its order is an argument of its
  own, and every result below holds for all orders. A map that is only looked up in is a HOL map, an
  \<^verbatim>\<open>unordered_set\<close> a list without repetition.
\<close>

type_synonym ValueId = int

datatype OpCode =
    ConstI32 | AddI32 | SubI32 | MulI32 | DivI32
  | CmpEqI32 | CmpNeI32 | CmpGtI32 | CmpLtI32 | CmpGeI32 | CmpLeI32
  | ParamI32 | MoveI32 | Call | AddressOfI32 | LoadI32 | StoreI32 | PtrSubI32 | BoundsCheckI32
  | Label | Jump | JumpIfZero | ReturnI32 | InlineAsmI32

record IRInstruction =
  opcode :: OpCode
  destination :: ValueId
  left :: ValueId
  right :: ValueId
  immediate :: int
  args :: "ValueId list"
  label :: string

text \<open>Aggregate initialisation \<^verbatim>\<open>{opcode, destination, left, right, value, args, label}\<close>.\<close>

definition mk_inst ::
  "OpCode \<Rightarrow> ValueId \<Rightarrow> ValueId \<Rightarrow> ValueId \<Rightarrow> int \<Rightarrow> ValueId list \<Rightarrow> string \<Rightarrow> IRInstruction"
where
  "mk_inst op d l r v as lab =
     \<lparr>opcode = op, destination = d, left = l, right = r, immediate = v, args = as, label = lab\<rparr>"

record IRFunction =
  ir_name :: string
  paramCount :: int
  instructions :: "IRInstruction list"
  addressTakenValues :: "ValueId list"
  arrayGroups :: "ValueId list list"

section \<open>Live ranges\<close>

record LiveRange =
  range_start :: nat
  range_end :: nat

type_synonym ranges = "(ValueId \<times> LiveRange) list"

text \<open>\<open>touch\<close> is the lambda of \<^verbatim>\<open>analyze\<close>: a new value gets the range \<open>{i, i}\<close>, a known one is extended.\<close>

fun extend_range :: "nat \<Rightarrow> ValueId \<Rightarrow> ranges \<Rightarrow> ranges" where
  "extend_range i v [] = [(v, \<lparr>range_start = i, range_end = i\<rparr>)]"
| "extend_range i v ((w, r) # rs) =
     (if w = v then (w, r\<lparr>range_end := max (range_end r) i\<rparr>) # rs else (w, r) # extend_range i v rs)"

definition touch :: "nat \<Rightarrow> ValueId \<Rightarrow> ranges \<Rightarrow> ranges" where
  "touch i v rs = (if v < 0 then rs else extend_range i v rs)"

definition touched :: "IRInstruction \<Rightarrow> ValueId list" where
  "touched inst = [destination inst, left inst, right inst] @ args inst"

fun analyze_loop :: "nat \<Rightarrow> IRInstruction list \<Rightarrow> ranges \<Rightarrow> ranges" where
  "analyze_loop i [] rs = rs"
| "analyze_loop i (inst # is) rs = analyze_loop (Suc i) is (foldl (\<lambda>rs v. touch i v rs) rs (touched inst))"

definition analyze :: "IRFunction \<Rightarrow> ranges" where
  "analyze f = analyze_loop 0 (instructions f) []"

section \<open>Interference\<close>

type_synonym graph = "(ValueId \<times> ValueId list) list"

text \<open>\<open>graph[a]\<close> creates an empty set on first use; \<open>graph_insert a b\<close> is \<^verbatim>\<open>graph[a].insert(b)\<close>.\<close>

fun graph_at :: "ValueId \<Rightarrow> graph \<Rightarrow> graph" where
  "graph_at a [] = [(a, [])]"
| "graph_at a ((v, ns) # g) = (if v = a then (v, ns) # g else (v, ns) # graph_at a g)"

definition graph_insert :: "ValueId \<Rightarrow> ValueId \<Rightarrow> graph \<Rightarrow> graph" where
  "graph_insert a b g =
     map (\<lambda>(v, ns). if v = a then (v, List.insert b ns) else (v, ns)) (graph_at a g)"

definition overlap :: "LiveRange \<Rightarrow> LiveRange \<Rightarrow> bool" where
  "overlap a b \<longleftrightarrow> range_start a < range_end b \<and> range_start b < range_end a"

definition build_pair :: "ValueId \<times> LiveRange \<Rightarrow> graph \<Rightarrow> ValueId \<times> LiveRange \<Rightarrow> graph" where
  "build_pair p g q =
     (if fst p \<ge> fst q then g
      else if overlap (snd p) (snd q) then graph_insert (fst q) (fst p) (graph_insert (fst p) (fst q) g)
      else g)"

definition build :: "ranges \<Rightarrow> graph" where
  "build rs = foldl (\<lambda>g p. foldl (build_pair p) (graph_at (fst p) g) rs) [] rs"

section \<open>Register allocation\<close>

definition reg_names :: "string list" where
  "reg_names = [''eax'', ''ecx'', ''edx'', ''esi'']"

abbreviation (input) K :: nat where "K \<equiv> 4"

record RegisterAllocation =
  registers :: "ValueId \<rightharpoonup> string"
  spillSlots :: "ValueId \<rightharpoonup> nat"
  spillSlotCount :: nat

definition no_allocation :: RegisterAllocation where
  "no_allocation = \<lparr>registers = Map.empty, spillSlots = Map.empty, spillSlotCount = 0\<rparr>"

text \<open>\<open>removeFromWorking\<close> is the lambda of the same name; a missing value is left alone.\<close>

definition removeFromWorking :: "ValueId \<Rightarrow> graph \<Rightarrow> graph" where
  "removeFromWorking v w =
     (case map_of w v of
        None \<Rightarrow> w
      | Some ns \<Rightarrow>
          filter (\<lambda>(k, s). k \<noteq> v)
            (map (\<lambda>(k, s). if k \<in> set ns then (k, removeAll v s) else (k, s)) w))"

definition take_slot :: "ValueId \<Rightarrow> RegisterAllocation \<Rightarrow> RegisterAllocation" where
  "take_slot v r =
     r\<lparr>spillSlots := (spillSlots r)(v \<mapsto> spillSlotCount r), spillSlotCount := spillSlotCount r + 1\<rparr>"

definition reserve :: "RegisterAllocation \<times> graph \<Rightarrow> ValueId \<Rightarrow> RegisterAllocation \<times> graph" where
  "reserve rw v = (take_slot v (fst rw), removeFromWorking v (snd rw))"

definition reserve_groups :: "ValueId list list \<Rightarrow> RegisterAllocation \<times> graph \<Rightarrow> RegisterAllocation \<times> graph" where
  "reserve_groups gs rw = foldl (foldl reserve) rw gs"

definition force :: "RegisterAllocation \<times> graph \<Rightarrow> ValueId \<Rightarrow> RegisterAllocation \<times> graph" where
  "force rw v = (if spillSlots (fst rw) v \<noteq> None then rw else reserve rw v)"

text \<open>
  The simplify phase: the first node with fewer than \<open>K\<close> neighbours left, otherwise the first of the
  highest degree. \<open>working[chosen]\<close> exists, so the removal is \<open>removeFromWorking\<close>.
\<close>

fun highest_degree :: "int \<Rightarrow> ValueId \<Rightarrow> graph \<Rightarrow> ValueId" where
  "highest_degree d c [] = c"
| "highest_degree d c ((v, ns) # w) =
     (if int (length ns) > d then highest_degree (int (length ns)) v w else highest_degree d c w)"

definition choose_node :: "graph \<Rightarrow> ValueId" where
  "choose_node w =
     (case find (\<lambda>(v, ns). length ns < K) w of
        Some (v, ns) \<Rightarrow> v
      | None \<Rightarrow> highest_degree (-1) (fst (hd w)) w)"

lemma highest_degree_cases: "highest_degree d c w = c \<or> highest_degree d c w \<in> fst ` set w"
proof (induction w arbitrary: d c)
  case (Cons p w)
  obtain v ns where p: "p = (v, ns)"
    by (cases p)
  show ?case
    using Cons.IH [of "int (length ns)" v] Cons.IH [of d c] by (auto simp: p)
qed simp

lemma choose_node_in: "w \<noteq> [] \<Longrightarrow> choose_node w \<in> fst ` set w"
proof -
  assume w: "w \<noteq> []"
  show ?thesis
  proof (cases "find (\<lambda>(v, ns). length ns < 4) w")
    case None
    then show ?thesis
      using highest_degree_cases [of "-1" "fst (hd w)" w] w by (auto simp: choose_node_def)
  next
    case (Some p)
    then have "p \<in> set w"
      by (metis find_Some_iff nth_mem)
    then show ?thesis
      using Some by (auto simp: choose_node_def image_iff split: prod.splits) (metis fst_conv)
  qed
qed

lemma removeFromWorking_filter:
  "removeFromWorking v w =
     (case map_of w v of None \<Rightarrow> w
      | Some ns \<Rightarrow> map (\<lambda>(k, s). if k \<in> set ns then (k, removeAll v s) else (k, s)) (filter (\<lambda>p. fst p \<noteq> v) w))"
  by (cases "map_of w v")
    (simp_all add: removeFromWorking_def filter_map o_def case_prod_beta' if_distrib [of fst] cong: if_cong)

lemma length_removeFromWorking_less:
  assumes "v \<in> fst ` set w"
  shows "length (removeFromWorking v w) < length w"
proof -
  obtain ns where ns: "map_of w v = Some ns"
    using assms by (metis domD dom_map_of_conv_image_fst)
  obtain p where "p \<in> set w" "\<not> fst p \<noteq> v"
    using assms by auto
  then have "length (filter (\<lambda>p. fst p \<noteq> v) w) < length w"
    by (rule length_filter_less)
  then show ?thesis
    by (simp add: removeFromWorking_filter ns)
qed

function simplify_nodes :: "graph \<Rightarrow> ValueId list \<Rightarrow> ValueId list" where
  "simplify_nodes w stack =
     (if w = [] then stack
      else let v = choose_node w in simplify_nodes (removeFromWorking v w) (v # stack))"
  by pat_completeness auto

termination
  by (relation "measure (\<lambda>(w, stack). length w)") (simp_all add: length_removeFromWorking_less choose_node_in)

declare simplify_nodes.simps [simp del]

text \<open>
  The select phase. The stack list has the last pushed value first, the order in which the loop over
  \<^verbatim>\<open>rbegin\<close> visits it; \<open>first_free\<close> is the loop over the \<^verbatim>\<open>used\<close> flags.
\<close>

definition neighbour_regs :: "graph \<Rightarrow> RegisterAllocation \<Rightarrow> ValueId \<Rightarrow> string list" where
  "neighbour_regs g r v =
     (case map_of g v of None \<Rightarrow> [] | Some ns \<Rightarrow> List.map_filter (registers r) ns)"

definition first_free :: "string list \<Rightarrow> string option" where
  "first_free used = find (\<lambda>n. n \<notin> set used) reg_names"

definition assign_reg :: "graph \<Rightarrow> RegisterAllocation \<Rightarrow> ValueId \<Rightarrow> RegisterAllocation" where
  "assign_reg g r v =
     (case first_free (neighbour_regs g r v) of
        Some n \<Rightarrow> r\<lparr>registers := (registers r)(v \<mapsto> n)\<rparr>
      | None \<Rightarrow> take_slot v r)"

definition allocate :: "graph \<Rightarrow> graph \<Rightarrow> ValueId list \<Rightarrow> ValueId list list \<Rightarrow> RegisterAllocation" where
  "allocate working g forcedSpills groups =
     (let (r, w) = foldl force (reserve_groups groups (no_allocation, working)) forcedSpills
      in foldl (assign_reg g) r (simplify_nodes w []))"

end
