(* ===== verification/OgAlloc.thy ===== *)
theory OgAlloc
  imports OgIr
begin

text \<open>
  What the back end promises. The live range of a value covers every instruction that touches it;
  values whose ranges overlap interfere; the allocator gives interfering values different registers,
  every spilled value a slot of its own and the elements of an array consecutive slots. A machine that
  executes an instruction on the places of its operands then computes what the same machine computes
  with a private cell per value, as long as no jump goes backwards.
\<close>

section \<open>Live ranges\<close>

definition covers :: "ranges \<Rightarrow> ValueId \<Rightarrow> nat \<Rightarrow> bool" where
  "covers rs v i \<longleftrightarrow> (\<exists>r. map_of rs v = Some r \<and> range_start r \<le> i \<and> i \<le> range_end r)"

definition starts_before :: "nat \<Rightarrow> ranges \<Rightarrow> bool" where
  "starts_before i rs \<longleftrightarrow> (\<forall>v r. map_of rs v = Some r \<longrightarrow> range_start r \<le> i)"

lemma map_of_extend_range:
  "map_of (extend_range i v rs) w =
     (if w = v then Some (case map_of rs v of None \<Rightarrow> \<lparr>range_start = i, range_end = i\<rparr>
                          | Some r \<Rightarrow> r\<lparr>range_end := max (range_end r) i\<rparr>)
      else map_of rs w)"
  by (induction i v rs rule: extend_range.induct) auto

lemma keys_extend: "fst ` set (extend_range i v rs) = insert v (fst ` set rs)"
  by (induction i v rs rule: extend_range.induct) auto

lemma distinct_extend: "distinct (map fst rs) \<Longrightarrow> distinct (map fst (extend_range i v rs))"
proof (induction i v rs rule: extend_range.induct)
  case (2 i v w r rs)
  have "w \<notin> fst ` set (extend_range i v rs)" if "w \<noteq> v"
    using 2(2) that by (auto simp: keys_extend)
  with 2 show ?case
    by auto
qed simp

lemma covers_touch: "covers rs v j \<Longrightarrow> covers (touch i w rs) v j"
  by (auto simp: covers_def touch_def map_of_extend_range)

lemma covers_touched: "starts_before i rs \<Longrightarrow> 0 \<le> v \<Longrightarrow> covers (touch i v rs) v i"
  by (auto simp: covers_def touch_def map_of_extend_range starts_before_def split: option.split)

lemma starts_touch: "starts_before i rs \<Longrightarrow> starts_before i (touch i v rs)"
  by (auto simp: touch_def map_of_extend_range starts_before_def split: option.split)

lemma covers_touches: "covers rs v j \<Longrightarrow> covers (foldl (\<lambda>rs v. touch i v rs) rs vs) v j"
  by (induction vs arbitrary: rs) (simp_all add: covers_touch)

lemma starts_touches: "starts_before i rs \<Longrightarrow> starts_before i (foldl (\<lambda>rs v. touch i v rs) rs vs)"
  by (induction vs arbitrary: rs) (simp_all add: starts_touch)

lemma covers_touches_all:
  "starts_before i rs \<Longrightarrow> v \<in> set vs \<Longrightarrow> 0 \<le> v \<Longrightarrow> covers (foldl (\<lambda>rs v. touch i v rs) rs vs) v i"
  by (induction vs arbitrary: rs) (auto simp: starts_touch covers_touches covers_touched)

lemma covers_analyze_loop: "covers rs v j \<Longrightarrow> covers (analyze_loop i is rs) v j"
  by (induction i "is" rs rule: analyze_loop.induct) (simp_all add: covers_touches)

lemma analyze_loop_covers:
  "starts_before i rs \<Longrightarrow> k < length is \<Longrightarrow> v \<in> set (touched (is ! k)) \<Longrightarrow> 0 \<le> v \<Longrightarrow>
   covers (analyze_loop i is rs) v (i + k)"
proof (induction i "is" rs arbitrary: k rule: analyze_loop.induct)
  case (2 i inst "is" rs)
  let ?rs = "foldl (\<lambda>rs v. touch i v rs) rs (touched inst)"
  show ?case
  proof (cases k)
    case 0
    then have "covers ?rs v i"
      using 2 by (intro covers_touches_all) simp_all
    then show ?thesis
      using 0 by (simp add: covers_analyze_loop)
  next
    case (Suc j)
    have "starts_before (Suc i) ?rs"
      using starts_touches [OF 2(2)] by (force simp: starts_before_def)
    from 2(1) [OF this, of j] show ?thesis
      using 2 Suc by simp
  qed
qed simp

lemma analyze_covers:
  "k < length (instructions f) \<Longrightarrow> v \<in> set (touched (instructions f ! k)) \<Longrightarrow> 0 \<le> v \<Longrightarrow> covers (analyze f) v k"
  using analyze_loop_covers [of 0 "[]" k "instructions f" v] by (simp add: analyze_def starts_before_def)

section \<open>The interference graph\<close>

definition adj :: "graph \<Rightarrow> ValueId \<Rightarrow> ValueId \<Rightarrow> bool" where
  "adj g a b \<longleftrightarrow> b \<in> set (case map_of g a of None \<Rightarrow> [] | Some ns \<Rightarrow> ns)"

abbreviation keys :: "('a \<times> 'b) list \<Rightarrow> 'a set" where
  "keys g \<equiv> fst ` set g"

lemma map_of_graph_at:
  "map_of (graph_at a g) v = (if v = a then Some (case map_of g a of None \<Rightarrow> [] | Some ns \<Rightarrow> ns) else map_of g v)"
  by (induction a g rule: graph_at.induct) auto

lemma map_of_graph_insert:
  "map_of (graph_insert a b g) v =
     (if v = a then Some (List.insert b (case map_of g a of None \<Rightarrow> [] | Some ns \<Rightarrow> ns)) else map_of g v)"
proof -
  have "map_of (map (\<lambda>(v, ns). if v = a then (v, List.insert b ns) else (v, ns)) g') v =
          (if v = a then map_option (List.insert b) (map_of g' v) else map_of g' v)" for g' :: graph
    by (induction g') auto
  then show ?thesis
    by (simp add: graph_insert_def map_of_graph_at)
qed

lemma adj_graph_at [simp]: "adj (graph_at c g) a b = adj g a b"
  by (auto simp: adj_def map_of_graph_at split: option.split)

lemma adj_graph_insert: "adj (graph_insert c d g) a b \<longleftrightarrow> adj g a b \<or> (a = c \<and> b = d)"
  by (auto simp: adj_def map_of_graph_insert split: option.split)

lemma keys_graph_at: "keys (graph_at a g) = insert a (keys g)"
  by (induction a g rule: graph_at.induct) auto

lemma keys_graph_insert: "keys (graph_insert a b g) = insert a (keys g)"
proof -
  have "keys (map (\<lambda>(v, ns). if v = a then (v, List.insert b ns) else (v, ns)) g') = keys g'" for g' :: graph
    by (induction g') auto
  then show ?thesis
    by (simp add: graph_insert_def keys_graph_at)
qed

lemma adj_build_pair:
  "adj (build_pair p g q) a b \<longleftrightarrow>
     adj g a b \<or> (fst p < fst q \<and> overlap (snd p) (snd q) \<and>
                  ((a = fst p \<and> b = fst q) \<or> (a = fst q \<and> b = fst p)))"
  by (auto simp: build_pair_def adj_graph_insert)

lemma adj_build_row:
  "adj (foldl (build_pair p) g rs) a b \<longleftrightarrow>
     adj g a b \<or> (\<exists>q \<in> set rs. fst p < fst q \<and> overlap (snd p) (snd q) \<and>
                  ((a = fst p \<and> b = fst q) \<or> (a = fst q \<and> b = fst p)))"
  by (induction rs arbitrary: g) (auto simp: adj_build_pair)

lemma adj_build_rows:
  "adj (foldl (\<lambda>g p. foldl (build_pair p) (graph_at (fst p) g) rs) g ps) a b \<longleftrightarrow>
     adj g a b \<or> (\<exists>p \<in> set ps. \<exists>q \<in> set rs. fst p < fst q \<and> overlap (snd p) (snd q) \<and>
                  ((a = fst p \<and> b = fst q) \<or> (a = fst q \<and> b = fst p)))"
  by (induction ps arbitrary: g) (auto simp: adj_build_row)

lemma adj_build:
  "adj (build rs) a b \<longleftrightarrow>
     (\<exists>p \<in> set rs. \<exists>q \<in> set rs. fst p < fst q \<and> overlap (snd p) (snd q) \<and>
        ((a = fst p \<and> b = fst q) \<or> (a = fst q \<and> b = fst p)))"
  unfolding build_def adj_build_rows by (simp add: adj_def)

lemma overlap_sym: "overlap a b = overlap b a"
  by (auto simp: overlap_def)

lemma adj_build_sym: "adj (build rs) a b \<Longrightarrow> adj (build rs) b a"
  unfolding adj_build by blast

lemma adj_build_ranges:
  assumes "map_of rs a = Some r" "map_of rs b = Some r'" "a \<noteq> b" "overlap r r'"
  shows "adj (build rs) a b"
proof -
  have m: "(a, r) \<in> set rs" "(b, r') \<in> set rs"
    using assms by (auto dest: map_of_SomeD)
  show ?thesis
  proof (cases "a < b")
    case True
    then show ?thesis
      unfolding adj_build using m assms(4) by (intro bexI [of _ "(a, r)"] bexI [of _ "(b, r')"]) simp_all
  next
    case False
    then show ?thesis
      unfolding adj_build using m assms(3,4) overlap_sym
      by (intro bexI [of _ "(b, r')"] bexI [of _ "(a, r)"]) simp_all
  qed
qed

lemma keys_build_pair: "fst p \<in> keys g \<Longrightarrow> fst q \<in> keys g \<Longrightarrow> keys (build_pair p g q) = keys g"
  by (auto simp: build_pair_def keys_graph_insert)

lemma keys_build_pair_mono: "keys g \<subseteq> keys (build_pair p g q)"
  by (auto simp: build_pair_def keys_graph_insert)

lemma keys_build_row: "keys g \<subseteq> keys (foldl (build_pair p) g rs)"
proof (induction rs arbitrary: g)
  case (Cons q rs)
  show ?case
    using subset_trans [OF keys_build_pair_mono Cons] by simp
qed simp

lemma keys_build_rows:
  "keys g \<union> keys ps \<subseteq> keys (foldl (\<lambda>g p. foldl (build_pair p) (graph_at (fst p) g) rs) g ps)"
proof (induction ps arbitrary: g)
  case (Cons p ps)
  have "insert (fst p) (keys g) \<subseteq> keys (foldl (build_pair p) (graph_at (fst p) g) rs)"
    using keys_build_row [of "graph_at (fst p) g" p rs] by (simp add: keys_graph_at)
  then show ?case
    using Cons [of "foldl (build_pair p) (graph_at (fst p) g) rs"] by auto
qed simp

lemma keys_build: "keys rs \<subseteq> keys (build rs)"
  using keys_build_rows [of "[]" rs rs] by (simp add: build_def)

section \<open>Allocation\<close>

definition slots_ok :: "RegisterAllocation \<Rightarrow> bool" where
  "slots_ok r \<longleftrightarrow>
     (\<forall>v n. spillSlots r v = Some n \<longrightarrow> n < spillSlotCount r) \<and>
     (\<forall>v w n. spillSlots r v = Some n \<longrightarrow> spillSlots r w = Some n \<longrightarrow> v = w)"

lemma slots_ok_take: "slots_ok r \<Longrightarrow> slots_ok (take_slot v r)"
  unfolding slots_ok_def take_slot_def by (auto simp: less_Suc_eq)

lemma keys_shrink:
  "map fst (map (\<lambda>(k, s). if k \<in> set ns then (k, removeAll v s) else (k, s)) w) = map fst (w :: graph)"
  by (induction w) auto

lemma removeFromWorking_fst: "map fst (removeFromWorking v w) = filter (\<lambda>k. k \<noteq> v) (map fst w)"
proof (cases "map_of w v")
  case None
  then have "v \<notin> set (map fst w)"
    by (simp add: map_of_eq_None_iff)
  then have "filter (\<lambda>k. k \<noteq> v) (map fst w) = map fst w"
    by (metis (mono_tags, lifting) filter_True)
  with None show ?thesis
    by (simp add: removeFromWorking_def)
next
  case (Some ns)
  have "map fst (removeFromWorking v w) = map fst (filter (\<lambda>p. fst p \<noteq> v) w)"
    unfolding removeFromWorking_filter Some option.case by (rule keys_shrink)
  then show ?thesis
    by (simp add: filter_map o_def)
qed

lemma keys_removeFromWorking [simp]: "keys (removeFromWorking v w) = keys w - {v}"
proof -
  have "set (map fst (removeFromWorking v w)) = set (map fst w) - {v}"
    unfolding removeFromWorking_fst by auto
  then show ?thesis
    by simp
qed

lemma distinct_removeFromWorking: "distinct (map fst w) \<Longrightarrow> distinct (map fst (removeFromWorking v w))"
  by (simp add: removeFromWorking_fst)

text \<open>The state between the phases: registers only for values that left the graph without a slot.\<close>

definition reserving :: "ValueId set \<Rightarrow> RegisterAllocation \<times> graph \<Rightarrow> bool" where
  "reserving V rw \<longleftrightarrow>
     slots_ok (fst rw) \<and> registers (fst rw) = Map.empty \<and> distinct (map fst (snd rw)) \<and>
     V \<subseteq> keys (snd rw) \<union> dom (spillSlots (fst rw)) \<and>
     keys (snd rw) \<inter> dom (spillSlots (fst rw)) = {}"

lemma reserving_reserve:
  assumes "reserving V rw"
  shows "reserving V (reserve rw v)"
proof -
  have "dom (spillSlots (fst (reserve rw v))) = insert v (dom (spillSlots (fst rw)))"
    by (simp add: reserve_def take_slot_def)
  moreover have "registers (fst (reserve rw v)) = registers (fst rw)"
    by (simp add: reserve_def take_slot_def)
  moreover have "snd (reserve rw v) = removeFromWorking v (snd rw)" "fst (reserve rw v) = take_slot v (fst rw)"
    by (simp_all add: reserve_def)
  ultimately show ?thesis
    using assms unfolding reserving_def by (auto simp: slots_ok_take distinct_removeFromWorking)
qed

lemma reserving_force: "reserving V rw \<Longrightarrow> reserving V (force rw v)"
  by (simp add: force_def reserving_reserve)

lemma reserving_folds:
  "reserving V rw \<Longrightarrow> reserving V (foldl reserve rw vs)"
  "reserving V rw \<Longrightarrow> reserving V (foldl force rw vs)"
  by (induction vs arbitrary: rw) (simp_all add: reserving_reserve reserving_force)

lemma reserve_groups_concat: "reserve_groups gs rw = foldl reserve rw (concat gs)"
  unfolding reserve_groups_def by (induction gs arbitrary: rw) simp_all

lemma reserve_slots:
  "spillSlots (fst (reserve rw v)) = (spillSlots (fst rw))(v \<mapsto> spillSlotCount (fst rw))"
  "spillSlotCount (fst (reserve rw v)) = spillSlotCount (fst rw) + 1"
  by (simp_all add: reserve_def take_slot_def)

lemma reserve_keeps:
  "v \<notin> set vs \<Longrightarrow> spillSlots (fst (foldl reserve rw vs)) v = spillSlots (fst rw) v"
  by (induction vs arbitrary: rw) (simp_all add: reserve_slots)

lemma reserve_contiguous:
  "distinct vs \<Longrightarrow> j < length vs \<Longrightarrow>
   spillSlots (fst (foldl reserve rw vs)) (vs ! j) = Some (spillSlotCount (fst rw) + j)"
proof (induction vs arbitrary: rw j)
  case (Cons v vs)
  show ?case
  proof (cases j)
    case 0
    then show ?thesis
      using Cons(2) by (simp add: reserve_keeps reserve_slots)
  next
    case (Suc i)
    then show ?thesis
      using Cons(1) [of i "reserve rw v"] Cons(2,3) by (simp add: reserve_slots)
  qed
qed simp

lemma reserve_dom: "set vs \<subseteq> dom (spillSlots (fst (foldl reserve rw vs)))"
proof (induction vs arbitrary: rw)
  case (Cons v vs)
  show ?case
  proof (cases "v \<in> set vs")
    case True
    with Cons [of "reserve rw v"] show ?thesis
      by auto
  next
    case False
    then have "spillSlots (fst (foldl reserve (reserve rw v) vs)) v = Some (spillSlotCount (fst rw))"
      by (simp add: reserve_keeps reserve_slots)
    with Cons [of "reserve rw v"] show ?thesis
      by auto
  qed
qed simp

lemma force_keeps: "spillSlots (fst rw) v = Some n \<Longrightarrow> spillSlots (fst (foldl force rw vs)) v = Some n"
proof (induction vs arbitrary: rw)
  case (Cons u vs)
  have "spillSlots (fst (force rw u)) v = Some n"
    using Cons(2) by (auto simp: force_def reserve_slots)
  with Cons(1) show ?case
    by simp
qed simp

lemma force_dom: "set vs \<subseteq> dom (spillSlots (fst (foldl force rw vs)))"
proof (induction vs arbitrary: rw)
  case (Cons u vs)
  have "\<exists>n. spillSlots (fst (force rw u)) u = Some n"
    by (auto simp: force_def reserve_slots)
  then have "u \<in> dom (spillSlots (fst (foldl force (force rw u) vs)))"
    using force_keeps by blast
  with Cons show ?case
    by simp
qed simp

lemma simplify_nodes_set: "set (simplify_nodes w stack) = set stack \<union> keys w"
proof (induction w stack rule: simplify_nodes.induct)
  case (1 w stack)
  show ?case
    using 1 choose_node_in [of w] by (subst simplify_nodes.simps) (auto simp: Let_def)
qed

lemma simplify_nodes_distinct:
  "distinct (map fst w) \<Longrightarrow> distinct stack \<Longrightarrow> set stack \<inter> keys w = {} \<Longrightarrow> distinct (simplify_nodes w stack)"
proof (induction w stack rule: simplify_nodes.induct)
  case (1 w stack)
  show ?case
  proof (cases "w = []")
    case True
    then show ?thesis
      using 1 by (simp add: simplify_nodes.simps)
  next
    case False
    let ?v = "choose_node w"
    have "?v \<in> keys w"
      using False by (rule choose_node_in)
    then have "distinct (?v # stack)" "set (?v # stack) \<inter> keys (removeFromWorking ?v w) = {}"
      using 1(3,4) by auto
    with 1(1) [OF False refl distinct_removeFromWorking [OF 1(2)]] show ?thesis
      using False by (subst simplify_nodes.simps) (simp add: Let_def)
  qed
qed

text \<open>The state of the select phase after some of the stack is assigned.\<close>

definition selecting :: "graph \<Rightarrow> RegisterAllocation \<Rightarrow> bool" where
  "selecting g r \<longleftrightarrow>
     slots_ok r \<and> dom (registers r) \<inter> dom (spillSlots r) = {} \<and>
     (\<forall>u v n. adj g u v \<longrightarrow> u \<noteq> v \<longrightarrow> registers r u = Some n \<longrightarrow> registers r v \<noteq> Some n)"

lemma neighbour_regs_adj: "adj g v u \<Longrightarrow> registers r u = Some n \<Longrightarrow> n \<in> set (neighbour_regs g r v)"
  by (force simp: adj_def neighbour_regs_def List.map_filter_def split: option.splits)

lemma first_free_fresh: "first_free used = Some n \<Longrightarrow> n \<notin> set used \<and> n \<in> set reg_names"
  unfolding first_free_def by (auto simp: find_Some_iff)

lemma assign_reg_dom:
  "dom (registers (assign_reg g r v)) \<union> dom (spillSlots (assign_reg g r v)) =
     insert v (dom (registers r) \<union> dom (spillSlots r))"
  by (auto simp: assign_reg_def take_slot_def split: option.split)

lemma assign_reg_keeps:
  "v \<noteq> u \<Longrightarrow> spillSlots (assign_reg g r v) u = spillSlots r u"
  by (simp add: assign_reg_def take_slot_def split: option.split)

lemma selecting_assign:
  assumes r: "selecting g r" and v: "v \<notin> dom (registers r) \<union> dom (spillSlots r)"
    and sym: "\<And>a b. adj g a b \<Longrightarrow> adj g b a"
  shows "selecting g (assign_reg g r v)"
proof (cases "first_free (neighbour_regs g r v)")
  case None
  then have eq: "assign_reg g r v = take_slot v r"
    by (simp add: assign_reg_def)
  have "registers (take_slot v r) = registers r" "dom (spillSlots (take_slot v r)) = insert v (dom (spillSlots r))"
    by (simp_all add: take_slot_def)
  then show ?thesis
    using r v slots_ok_take unfolding eq selecting_def by auto
next
  case (Some n)
  then have eq: "assign_reg g r v = r\<lparr>registers := (registers r)(v \<mapsto> n)\<rparr>"
    by (simp add: assign_reg_def)
  have fresh: "registers r u \<noteq> Some n" if "adj g v u" for u
    using first_free_fresh [OF Some] neighbour_regs_adj [OF that] by auto
  have ok: "slots_ok (r\<lparr>registers := (registers r)(v \<mapsto> n)\<rparr>)"
    using r by (simp add: selecting_def slots_ok_def)
  have "((registers r)(v \<mapsto> n)) b \<noteq> Some m"
    if a: "adj g a b" "a \<noteq> b" "((registers r)(v \<mapsto> n)) a = Some m" for a b m
  proof (cases "a = v")
    case True
    then show ?thesis
      using a fresh by auto
  next
    case False
    show ?thesis
    proof (cases "b = v")
      case True
      then show ?thesis
        using a False fresh [OF sym, of a] by auto
    next
      case nb: False
      then show ?thesis
        using a False r unfolding selecting_def by auto
    qed
  qed
  then show ?thesis
    using r v ok unfolding eq selecting_def by auto
qed

lemma select_all:
  assumes sym: "\<And>a b. adj g a b \<Longrightarrow> adj g b a"
  shows "selecting g r \<Longrightarrow> distinct vs \<Longrightarrow> set vs \<inter> (dom (registers r) \<union> dom (spillSlots r)) = {} \<Longrightarrow>
    selecting g (foldl (assign_reg g) r vs) \<and>
    dom (registers (foldl (assign_reg g) r vs)) \<union> dom (spillSlots (foldl (assign_reg g) r vs)) =
      set vs \<union> dom (registers r) \<union> dom (spillSlots r) \<and>
    (\<forall>u. u \<notin> set vs \<longrightarrow> spillSlots (foldl (assign_reg g) r vs) u = spillSlots r u)"
proof (induction vs arbitrary: r)
  case (Cons v vs)
  let ?r = "assign_reg g r v"
  have sel: "selecting g ?r"
    using Cons.prems sym by (intro selecting_assign) auto
  have fresh: "set vs \<inter> (dom (registers ?r) \<union> dom (spillSlots ?r)) = {}"
    unfolding assign_reg_dom using Cons.prems by auto
  note IH = Cons.IH [OF sel _ fresh]
  show ?case
    using IH Cons.prems(2) assign_reg_dom [of g r v] assign_reg_keeps [of v _ g r] by auto
qed simp

text \<open>What \<^verbatim>\<open>allocate\<close> returns, whatever the iteration order of its copy of the graph.\<close>

definition allocation_ok :: "graph \<Rightarrow> ValueId list \<Rightarrow> ValueId list list \<Rightarrow> RegisterAllocation \<Rightarrow> bool" where
  "allocation_ok g forced groups a \<longleftrightarrow>
     selecting g a \<and> keys g \<subseteq> dom (registers a) \<union> dom (spillSlots a) \<and>
     set forced \<union> set (concat groups) \<subseteq> dom (spillSlots a) \<and>
     (distinct (concat groups) \<longrightarrow>
        (\<forall>j < length (concat groups). spillSlots a (concat groups ! j) = Some j))"

lemma allocate_ok:
  assumes w: "distinct (map fst w)" "keys w = keys g"
    and sym: "\<And>a b. adj g a b \<Longrightarrow> adj g b a"
  shows "allocation_ok g forced groups (allocate w g forced groups)"
proof -
  define rw1 where "rw1 = foldl reserve (no_allocation, w) (concat groups)"
  define rw2 where "rw2 = foldl force rw1 forced"
  let ?stack = "simplify_nodes (snd rw2) []"
  let ?a = "foldl (assign_reg g) (fst rw2) ?stack"
  have a: "allocate w g forced groups = ?a"
    by (simp add: allocate_def reserve_groups_concat rw1_def rw2_def case_prod_beta)
  have "reserving (keys g) (no_allocation, w)"
    using w by (simp add: reserving_def no_allocation_def slots_ok_def)
  then have res: "reserving (keys g) rw2"
    unfolding rw2_def rw1_def by (intro reserving_folds)
  have stack: "set ?stack = keys (snd rw2)" "distinct ?stack"
    using simplify_nodes_distinct [of "snd rw2" "[]"] res by (simp_all add: simplify_nodes_set reserving_def)
  have sel0: "selecting g (fst rw2)"
    using res by (simp add: reserving_def selecting_def)
  have fresh: "set ?stack \<inter> (dom (registers (fst rw2)) \<union> dom (spillSlots (fst rw2))) = {}"
    using res unfolding stack(1) reserving_def by auto
  note fin = select_all [OF sym sel0 stack(2) fresh]
  have kept: "spillSlots ?a v = Some n" if "spillSlots (fst rw2) v = Some n" for v n
  proof -
    have "v \<notin> set ?stack"
      using that fresh by auto
    then show ?thesis
      using fin that by simp
  qed
  have kept1: "spillSlots ?a v = Some n" if "spillSlots (fst rw1) v = Some n" for v n
    using kept force_keeps that unfolding rw2_def by blast
  have groups_dom: "set (concat groups) \<subseteq> dom (spillSlots ?a)"
    using reserve_dom [of "concat groups" "(no_allocation, w)"] kept1 unfolding rw1_def by blast
  have forced_dom: "set forced \<subseteq> dom (spillSlots ?a)"
    using force_dom [of forced rw1] kept unfolding rw2_def by blast
  have contiguous: "spillSlots ?a (concat groups ! j) = Some j"
    if "distinct (concat groups)" "j < length (concat groups)" for j
    using reserve_contiguous [OF that, of "(no_allocation, w)"] kept1 unfolding rw1_def by (simp add: no_allocation_def)
  have "keys g \<subseteq> dom (registers ?a) \<union> dom (spillSlots ?a)"
    using fin res stack(1) unfolding reserving_def by auto
  then show ?thesis
    unfolding a allocation_ok_def using fin groups_dom forced_dom contiguous by auto
qed

lemma allocation_okD:
  assumes "allocation_ok g forced groups a"
  shows "selecting g a" "keys g \<subseteq> dom (registers a) \<union> dom (spillSlots a)"
    "set forced \<union> set (concat groups) \<subseteq> dom (spillSlots a)"
  using assms unfolding allocation_ok_def by blast+

lemma selectingD:
  assumes "selecting g a"
  shows "slots_ok a" "dom (registers a) \<inter> dom (spillSlots a) = {}"
    "adj g u v \<Longrightarrow> u \<noteq> v \<Longrightarrow> registers a u = Some n \<Longrightarrow> registers a v \<noteq> Some n"
  using assms unfolding selecting_def by metis+

end
