(* ===== verification/OgMachine.thy ===== *)
theory OgMachine
  imports OgAlloc
begin

text \<open>
  The meaning of the intermediate representation, from the comments of \<^verbatim>\<open>ir/ir.hpp\<close>, as a machine whose
  values live in places: an instruction reads the places of its operands and writes the place of its
  destination. With a private cell per value it is the reference semantics; with the registers and
  stack slots of an allocation it is what the code generator is to implement. Slot \<open>n\<close> is at \<open>-8 (n + 1)\<close>
  from the frame pointer. The machine is this development's reading of those comments; no function of the
  compiler interprets the representation. Calls and inline assembly are the argument \<open>ext\<close>, a function of their
  text and argument values alone: a callee that reads or writes memory through a pointer it is given cannot be
  expressed, so what is shown of the allocation covers calls that only return a value.
\<close>

datatype rt = IntV "32 word" | PtrV int

datatype place = Own ValueId | Reg string | Slot nat

type_synonym store = "place \<rightharpoonup> rt"

datatype status = Running nat store | Returned rt | Trapped | Stuck

datatype outcome = Done rt | Trap | Wrong | Out_of_fuel

definition slot_address :: "nat \<Rightarrow> int" where
  "slot_address n = - 8 * (int n + 1)"

definition address_slot :: "int \<Rightarrow> nat option" where
  "address_slot a = (if a < 0 \<and> a mod 8 = 0 then Some (nat (- a div 8 - 1)) else None)"

lemma address_slot_address [simp]: "address_slot (slot_address n) = Some n"
  by (simp add: address_slot_def slot_address_def)

definition rd :: "(ValueId \<Rightarrow> place) \<Rightarrow> store \<Rightarrow> ValueId \<Rightarrow> rt option" where
  "rd loc s v = (if v < 0 then None else s (loc v))"

definition wr :: "(ValueId \<Rightarrow> place) \<Rightarrow> store \<Rightarrow> nat \<Rightarrow> ValueId \<Rightarrow> rt \<Rightarrow> status" where
  "wr loc s pc v x = (if v < 0 then Stuck else Running (Suc pc) (s(loc v \<mapsto> x)))"

fun arith :: "OpCode \<Rightarrow> 32 word \<Rightarrow> 32 word \<Rightarrow> 32 word option" where
  "arith AddI32 x y = Some (x + y)"
| "arith SubI32 x y = Some (x - y)"
| "arith MulI32 x y = Some (x * y)"
| "arith CmpEqI32 x y = Some (if x = y then 1 else 0)"
| "arith CmpNeI32 x y = Some (if x \<noteq> y then 1 else 0)"
| "arith CmpGtI32 x y = Some (if sint x > sint y then 1 else 0)"
| "arith CmpLtI32 x y = Some (if sint x < sint y then 1 else 0)"
| "arith CmpGeI32 x y = Some (if sint x \<ge> sint y then 1 else 0)"
| "arith CmpLeI32 x y = Some (if sint x \<le> sint y then 1 else 0)"
| "arith DivI32 x y =
     (let q = (if sint y = 0 then 0 else sgn (sint x) * sgn (sint y) * (\<bar>sint x\<bar> div \<bar>sint y\<bar>))
      in if sint y = 0 \<or> q = 2 ^ 31 then None else Some (word_of_int q))"
| "arith _ x y = None"

fun reads_of :: "(ValueId \<Rightarrow> place) \<Rightarrow> store \<Rightarrow> ValueId list \<Rightarrow> rt list option" where
  "reads_of loc s [] = Some []"
| "reads_of loc s (v # vs) =
     (case rd loc s v of None \<Rightarrow> None
      | Some x \<Rightarrow> (case reads_of loc s vs of None \<Rightarrow> None | Some xs \<Rightarrow> Some (x # xs)))"

definition label_pos :: "IRInstruction list \<Rightarrow> string \<Rightarrow> nat option" where
  "label_pos is l = find (\<lambda>k. opcode (is ! k) = Label \<and> label (is ! k) = l) [0..<length is]"

definition goto :: "IRInstruction list \<Rightarrow> string \<Rightarrow> store \<Rightarrow> status" where
  "goto is l s = (case label_pos is l of None \<Rightarrow> Stuck | Some t \<Rightarrow> Running t s)"

definition og_step ::
  "(string \<Rightarrow> rt list \<Rightarrow> rt option) \<Rightarrow> rt list \<Rightarrow> IRInstruction list \<Rightarrow> (ValueId \<Rightarrow> place) \<Rightarrow> nat \<Rightarrow> store \<Rightarrow> status"
where
  "og_step ext params is loc pc s =
     (let i = is ! pc; write = wr loc s pc (destination i) in
      case opcode i of
        ConstI32 \<Rightarrow> write (IntV (word_of_int (immediate i)))
      | ParamI32 \<Rightarrow> (if 0 \<le> immediate i \<and> nat (immediate i) < length params
                    then write (params ! nat (immediate i)) else Stuck)
      | MoveI32 \<Rightarrow> (case rd loc s (left i) of Some x \<Rightarrow> write x | None \<Rightarrow> Stuck)
      | Call \<Rightarrow> (case reads_of loc s (args i) of
                   Some xs \<Rightarrow> (case ext (label i) xs of Some x \<Rightarrow> write x | None \<Rightarrow> Stuck)
                 | None \<Rightarrow> Stuck)
      | InlineAsmI32 \<Rightarrow> (case ext (label i) [] of Some x \<Rightarrow> write x | None \<Rightarrow> Stuck)
      | AddressOfI32 \<Rightarrow> (if left i < 0 then Stuck
                        else case loc (left i) of Slot n \<Rightarrow> write (PtrV (slot_address n)) | _ \<Rightarrow> Stuck)
      | LoadI32 \<Rightarrow> (case rd loc s (left i) of
                      Some (PtrV a) \<Rightarrow>
                        (case address_slot a of
                           Some n \<Rightarrow> (case s (Slot n) of Some (IntV x) \<Rightarrow> write (IntV x) | _ \<Rightarrow> Stuck)
                         | None \<Rightarrow> Stuck)
                    | _ \<Rightarrow> Stuck)
      | StoreI32 \<Rightarrow> (case rd loc s (left i) of
                       Some (PtrV a) \<Rightarrow>
                         (case address_slot a of
                            Some n \<Rightarrow>
                              (case (s (Slot n), rd loc s (right i)) of
                                 (Some _, Some (IntV x)) \<Rightarrow> Running (Suc pc) (s(Slot n \<mapsto> IntV x))
                               | _ \<Rightarrow> Stuck)
                          | None \<Rightarrow> Stuck)
                     | _ \<Rightarrow> Stuck)
      | PtrSubI32 \<Rightarrow> (case (rd loc s (left i), rd loc s (right i)) of
                        (Some (PtrV a), Some (IntV x)) \<Rightarrow> write (PtrV (a - sint x))
                      | _ \<Rightarrow> Stuck)
      | BoundsCheckI32 \<Rightarrow> (case rd loc s (left i) of
                             Some (IntV x) \<Rightarrow>
                               (if x < word_of_int (immediate i) then Running (Suc pc) s else Trapped)
                           | _ \<Rightarrow> Stuck)
      | Label \<Rightarrow> Running (Suc pc) s
      | Jump \<Rightarrow> goto is (label i) s
      | JumpIfZero \<Rightarrow> (case rd loc s (left i) of
                         Some (IntV x) \<Rightarrow> (if x = 0 then goto is (label i) s else Running (Suc pc) s)
                       | _ \<Rightarrow> Stuck)
      | ReturnI32 \<Rightarrow> (case rd loc s (left i) of Some x \<Rightarrow> Returned x | None \<Rightarrow> Stuck)
      | binop \<Rightarrow> (case (rd loc s (left i), rd loc s (right i)) of
                    (Some (IntV x), Some (IntV y)) \<Rightarrow>
                      (case arith binop x y of
                         Some z \<Rightarrow> write (IntV z)
                       | None \<Rightarrow> (if binop = DivI32 then Trapped else Stuck))
                  | _ \<Rightarrow> Stuck))"

fun og_run ::
  "(string \<Rightarrow> rt list \<Rightarrow> rt option) \<Rightarrow> rt list \<Rightarrow> IRInstruction list \<Rightarrow> (ValueId \<Rightarrow> place) \<Rightarrow>
   nat \<Rightarrow> nat \<Rightarrow> store \<Rightarrow> outcome"
where
  "og_run ext params is loc 0 pc s = Out_of_fuel"
| "og_run ext params is loc (Suc fuel) pc s =
     (if length is \<le> pc then Wrong
      else case og_step ext params is loc pc s of
             Running pc' s' \<Rightarrow> og_run ext params is loc fuel pc' s'
           | Returned x \<Rightarrow> Done x
           | Trapped \<Rightarrow> Trap
           | Stuck \<Rightarrow> Wrong)"

text \<open>
  The reference places: a value whose address is taken or that is an array element lives in its slot,
  every other value in a cell of its own. The allocated places: the register if there is one,
  otherwise the slot.
\<close>

definition memory_values :: "IRFunction \<Rightarrow> ValueId set" where
  "memory_values f = set (addressTakenValues f) \<union> set (concat (arrayGroups f))"

definition home :: "IRFunction \<Rightarrow> RegisterAllocation \<Rightarrow> ValueId \<Rightarrow> place" where
  "home f a v = (if v \<in> memory_values f then Slot (the (spillSlots a v)) else Own v)"

definition place_of :: "RegisterAllocation \<Rightarrow> ValueId \<Rightarrow> place" where
  "place_of a v =
     (case registers a v of
        Some r \<Rightarrow> Reg r
      | None \<Rightarrow> (case spillSlots a v of Some n \<Rightarrow> Slot n | None \<Rightarrow> Own v))"

definition jumps_forward :: "IRInstruction list \<Rightarrow> bool" where
  "jumps_forward is \<longleftrightarrow>
     (\<forall>k < length is. opcode (is ! k) \<in> {Jump, JumpIfZero} \<longrightarrow>
        (case label_pos is (label (is ! k)) of None \<Rightarrow> True | Some t \<Rightarrow> k < t))"

section \<open>Allocated code computes what the reference computes\<close>

definition well_placed :: "IRFunction \<Rightarrow> ranges \<Rightarrow> RegisterAllocation \<Rightarrow> bool" where
  "well_placed f rs a \<longleftrightarrow>
     (\<forall>k < length (instructions f). \<forall>v \<in> set (touched (instructions f ! k)). 0 \<le> v \<longrightarrow> covers rs v k) \<and>
     memory_values f \<subseteq> dom (spillSlots a) \<and>
     keys rs \<subseteq> dom (registers a) \<union> dom (spillSlots a) \<and>
     dom (registers a) \<inter> dom (spillSlots a) = {} \<and> slots_ok a \<and>
     (\<forall>v w r r' n. map_of rs v = Some r \<longrightarrow> map_of rs w = Some r' \<longrightarrow> v \<noteq> w \<longrightarrow> overlap r r' \<longrightarrow>
        registers a v = Some n \<longrightarrow> registers a w \<noteq> Some n)"

lemma place_of_slot: "dom (registers a) \<inter> dom (spillSlots a) = {} \<Longrightarrow> spillSlots a v = Some n \<Longrightarrow> place_of a v = Slot n"
  by (auto simp: place_of_def split: option.split)

lemma place_of_eq_slot: "place_of a v = Slot n \<Longrightarrow> spillSlots a v = Some n"
  by (auto simp: place_of_def split: option.splits)

lemma place_of_eq_reg: "place_of a v = Reg n \<Longrightarrow> registers a v = Some n"
  by (auto simp: place_of_def split: option.splits)

lemma home_memory:
  assumes "well_placed f rs a" "v \<in> memory_values f"
  shows "home f a v = place_of a v \<and> (\<exists>n. spillSlots a v = Some n \<and> place_of a v = Slot n)"
proof -
  obtain n where "spillSlots a v = Some n"
    using assms by (auto simp: well_placed_def)
  then show ?thesis
    using assms place_of_slot [of a v n] by (simp add: home_def well_placed_def)
qed

lemma places_distinct:
  assumes wp: "well_placed f rs a" and v: "map_of rs v = Some r" and w: "map_of rs w = Some r'"
    and ne: "v \<noteq> w" and ov: "overlap r r'"
  shows "place_of a v \<noteq> place_of a w"
proof
  assume eq: "place_of a v = place_of a w"
  have "v \<in> keys rs"
    using v by (metis domI dom_map_of_conv_image_fst)
  then have "v \<in> dom (registers a) \<union> dom (spillSlots a)"
    using wp by (auto simp: well_placed_def)
  then consider n where "registers a v = Some n" | n where "registers a v = None" "spillSlots a v = Some n"
    by (cases "registers a v") auto
  then show False
  proof cases
    case 1
    then have "registers a w = Some n"
      using eq place_of_eq_reg [of a w n] by (simp add: place_of_def [of a v])
    with 1 show False
      using wp v w ne ov unfolding well_placed_def by metis
  next
    case 2
    then have "spillSlots a w = Some n"
      using eq place_of_eq_slot [of a w n] by (simp add: place_of_def [of a v])
    with 2 ne show False
      using wp unfolding well_placed_def slots_ok_def by metis
  qed
qed

text \<open>
  The simulation before instruction \<open>pc\<close>: \<open>S\<close> is the store of the reference, \<open>T\<close> of the allocated
  code. A memory value agrees always, any other value as long as its live range lasts.
\<close>

definition own_agrees :: "ranges \<Rightarrow> RegisterAllocation \<Rightarrow> nat \<Rightarrow> store \<Rightarrow> ValueId \<Rightarrow> rt \<Rightarrow> bool" where
  "own_agrees rs a pc T v x \<longleftrightarrow>
     (\<exists>r. map_of rs v = Some r \<and> range_start r < pc \<and> (pc \<le> range_end r \<longrightarrow> T (place_of a v) = Some x))"

definition sim :: "IRFunction \<Rightarrow> ranges \<Rightarrow> RegisterAllocation \<Rightarrow> nat \<Rightarrow> store \<Rightarrow> store \<Rightarrow> bool" where
  "sim f rs a pc S T \<longleftrightarrow>
     (\<forall>n x. S (Slot n) = Some x \<longrightarrow>
        T (Slot n) = Some x \<and> (\<exists>v \<in> memory_values f. spillSlots a v = Some n)) \<and>
     (\<forall>v x. S (Own v) = Some x \<longrightarrow> v \<notin> memory_values f \<and> own_agrees rs a pc T v x)"

lemma own_agrees_later: "own_agrees rs a pc T v x \<Longrightarrow> pc \<le> pc' \<Longrightarrow> own_agrees rs a pc' T v x"
  by (fastforce simp: own_agrees_def)

lemma simI:
  assumes "\<And>n x. S (Slot n) = Some x \<Longrightarrow> T (Slot n) = Some x \<and> (\<exists>v \<in> memory_values f. spillSlots a v = Some n)"
    and "\<And>v x. S (Own v) = Some x \<Longrightarrow> v \<notin> memory_values f \<and> own_agrees rs a pc T v x"
  shows "sim f rs a pc S T"
  using assms unfolding sim_def by simp

lemma sim_slot: "sim f rs a pc S T \<Longrightarrow> S (Slot n) = Some x \<Longrightarrow> T (Slot n) = Some x \<and> (\<exists>v \<in> memory_values f. spillSlots a v = Some n)"
  unfolding sim_def by simp

lemma sim_own: "sim f rs a pc S T \<Longrightarrow> S (Own v) = Some x \<Longrightarrow> v \<notin> memory_values f \<and> own_agrees rs a pc T v x"
  unfolding sim_def by simp

lemma sim_later: "sim f rs a pc S T \<Longrightarrow> pc \<le> pc' \<Longrightarrow> sim f rs a pc' S T"
  by (rule simI) (metis sim_slot, metis sim_own own_agrees_later)

lemma well_placed_covers:
  "well_placed f rs a \<Longrightarrow> k < length (instructions f) \<Longrightarrow> v \<in> set (touched (instructions f ! k)) \<Longrightarrow> 0 \<le> v \<Longrightarrow>
   covers rs v k"
  by (simp add: well_placed_def)

lemma rd_sim:
  assumes wp: "well_placed f rs a" and sim: "sim f rs a pc S T" and pc: "pc < length (instructions f)"
    and v: "v \<in> set (touched (instructions f ! pc))" and x: "rd (home f a) S v = Some x"
  shows "rd (place_of a) T v = Some x"
proof (cases "v \<in> memory_values f")
  case True
  obtain n where "spillSlots a v = Some n" "place_of a v = Slot n" "home f a v = place_of a v"
    using home_memory [OF wp True] by blast
  then show ?thesis
    using x sim by (auto simp: rd_def sim_def split: if_splits)
next
  case False
  have v0: "0 \<le> v" and "S (Own v) = Some x"
    using x False by (auto simp: rd_def home_def split: if_splits)
  then have ag: "own_agrees rs a pc T v x"
    using sim by (simp add: sim_def)
  have "covers rs v pc"
    using wp pc v v0 by (simp add: well_placed_def)
  then have "T (place_of a v) = Some x"
    using ag by (auto simp: covers_def own_agrees_def)
  then show ?thesis
    using v0 by (simp add: rd_def)
qed

lemma reads_sim:
  assumes "well_placed f rs a" "sim f rs a pc S T" "pc < length (instructions f)"
  shows "set vs \<subseteq> set (touched (instructions f ! pc)) \<Longrightarrow> reads_of (home f a) S vs = Some xs \<Longrightarrow>
    reads_of (place_of a) T vs = Some xs"
proof (induction vs arbitrary: xs)
  case (Cons v vs)
  then obtain y ys where y: "rd (home f a) S v = Some y" "reads_of (home f a) S vs = Some ys" "xs = y # ys"
    by (auto split: option.splits)
  have "rd (place_of a) T v = Some y"
    using rd_sim [OF assms _ y(1)] Cons.prems(1) by simp
  then show ?case
    using Cons.IH [OF _ y(2)] Cons.prems(1) y(3) by simp
qed simp

lemma sim_write:
  assumes wp: "well_placed f rs a" and sim: "sim f rs a pc S T" and pc: "pc < length (instructions f)"
    and d: "d \<in> set (touched (instructions f ! pc))" "0 \<le> d"
  shows "sim f rs a (Suc pc) (S(home f a d \<mapsto> x)) (T(place_of a d \<mapsto> x))"
proof -
  obtain r where r: "map_of rs d = Some r" "range_start r \<le> pc" "pc \<le> range_end r"
    using well_placed_covers [OF wp pc d] by (auto simp: covers_def)
  have inj: "w = w'" if "spillSlots a w = Some n" "spillSlots a w' = Some n" for w w' n
    using wp that unfolding well_placed_def slots_ok_def by metis
  have others: "T' (place_of a w) = T (place_of a w)"
    if "own_agrees rs a pc T w y" "w \<noteq> d" "range_end r' \<ge> Suc pc" "map_of rs w = Some r'"
      "T' = T(place_of a d \<mapsto> x)" for w y r' T'
  proof -
    have "overlap r r'"
      using that(1,3,4) r by (auto simp: overlap_def own_agrees_def)
    then have "place_of a d \<noteq> place_of a w"
      using places_distinct [OF wp r(1) that(4)] that(2) by blast
    then show ?thesis
      using that(5) by simp
  qed
  have own: "own_agrees rs a (Suc pc) (T(place_of a d \<mapsto> x)) w y"
    if w: "S (Own w) = Some y" "w \<noteq> d" for w y
  proof -
    have ag: "own_agrees rs a pc T w y"
      using sim w(1) by (simp add: sim_def)
    then obtain r' where r': "map_of rs w = Some r'" "range_start r' < pc"
      "pc \<le> range_end r' \<Longrightarrow> T (place_of a w) = Some y"
      by (auto simp: own_agrees_def)
    show ?thesis
      unfolding own_agrees_def using r' others [OF ag w(2) _ r'(1) refl] by (intro exI [of _ r']) auto
  qed
  show ?thesis
  proof (cases "d \<in> memory_values f")
    case True
    obtain m where m: "spillSlots a d = Some m" "place_of a d = Slot m" "home f a d = Slot m"
      using home_memory [OF wp True] by auto
    show ?thesis
    proof (rule simI)
      fix n y
      assume "(S(home f a d \<mapsto> x)) (Slot n) = Some y"
      then show "(T(place_of a d \<mapsto> x)) (Slot n) = Some y \<and> (\<exists>v \<in> memory_values f. spillSlots a v = Some n)"
        using sim_slot [OF sim, of n y] True m by (cases "n = m") auto
    next
      fix v y
      assume "(S(home f a d \<mapsto> x)) (Own v) = Some y"
      then have v: "S (Own v) = Some y"
        by (simp add: m)
      have "v \<notin> memory_values f"
        using sim_own [OF sim v] by blast
      then show "v \<notin> memory_values f \<and> own_agrees rs a (Suc pc) (T(place_of a d \<mapsto> x)) v y"
        using own [OF v] True by blast
    qed
  next
    case False
    then have h: "home f a d = Own d"
      by (simp add: home_def)
    have slots: "(T(place_of a d \<mapsto> x)) (Slot n) = Some y" if n: "S (Slot n) = Some y" for n y
    proof -
      obtain v where v: "v \<in> memory_values f" "spillSlots a v = Some n" "T (Slot n) = Some y"
        using sim_slot [OF sim n] by blast
      then have "place_of a d \<noteq> Slot n"
        using inj place_of_eq_slot False by blast
      then show ?thesis
        using v by simp
    qed
    have self: "own_agrees rs a (Suc pc) (T(place_of a d \<mapsto> x)) d x"
      using r by (auto simp: own_agrees_def)
    show ?thesis
    proof (rule simI)
      fix n y
      assume "(S(home f a d \<mapsto> x)) (Slot n) = Some y"
      then have n: "S (Slot n) = Some y"
        by (simp add: h)
      show "(T(place_of a d \<mapsto> x)) (Slot n) = Some y \<and> (\<exists>v \<in> memory_values f. spillSlots a v = Some n)"
        using slots [OF n] sim_slot [OF sim n] by blast
    next
      fix v y
      assume v: "(S(home f a d \<mapsto> x)) (Own v) = Some y"
      show "v \<notin> memory_values f \<and> own_agrees rs a (Suc pc) (T(place_of a d \<mapsto> x)) v y"
      proof (cases "v = d")
        case True
        then show ?thesis
          using v self False by (simp add: h)
      next
        case ne: False
        then have "S (Own v) = Some y"
          using v by (simp add: h)
        then show ?thesis
          using sim_own [OF sim] own ne by blast
      qed
    qed
  qed
qed

lemma sim_store:
  assumes wp: "well_placed f rs a" and sim: "sim f rs a pc S T" and n: "S (Slot n) = Some y"
  shows "sim f rs a (Suc pc) (S(Slot n \<mapsto> x)) (T(Slot n \<mapsto> x))"
proof (rule simI)
  obtain u where u: "u \<in> memory_values f" "spillSlots a u = Some n"
    using sim_slot [OF sim n] by blast
  fix m z
  assume "(S(Slot n \<mapsto> x)) (Slot m) = Some z"
  then show "(T(Slot n \<mapsto> x)) (Slot m) = Some z \<and> (\<exists>v \<in> memory_values f. spillSlots a v = Some m)"
    using sim_slot [OF sim, of m z] u by (cases "m = n") auto
next
  obtain u where u: "u \<in> memory_values f" "spillSlots a u = Some n"
    using sim_slot [OF sim n] by blast
  fix v z
  assume "(S(Slot n \<mapsto> x)) (Own v) = Some z"
  then have v: "v \<notin> memory_values f" "own_agrees rs a (Suc pc) T v z"
    using sim_own [OF sim, of v z] own_agrees_later [of rs a pc T v z "Suc pc"] by auto
  have "place_of a v \<noteq> Slot n"
  proof
    assume "place_of a v = Slot n"
    then have "v = u"
      using place_of_eq_slot [of a v n] u wp unfolding well_placed_def slots_ok_def by metis
    then show False
      using u v by blast
  qed
  then show "v \<notin> memory_values f \<and> own_agrees rs a (Suc pc) (T(Slot n \<mapsto> x)) v z"
    using v by (simp add: own_agrees_def)
qed

text \<open>One step: unless the reference is stuck, the allocated code does the same and stays related.\<close>

definition st_sim :: "IRFunction \<Rightarrow> ranges \<Rightarrow> RegisterAllocation \<Rightarrow> nat \<Rightarrow> status \<Rightarrow> status \<Rightarrow> bool" where
  "st_sim f rs a pc st st' \<longleftrightarrow>
     (case st of
        Running pc' S' \<Rightarrow> (\<exists>T'. st' = Running pc' T' \<and> pc < pc' \<and> sim f rs a pc' S' T')
      | Stuck \<Rightarrow> True
      | _ \<Rightarrow> st' = st)"

lemma st_sim_simps [simp]:
  "st_sim f rs a pc Stuck st'"
  "st_sim f rs a pc Trapped st' \<longleftrightarrow> st' = Trapped"
  "st_sim f rs a pc (Returned x) st' \<longleftrightarrow> st' = Returned x"
  "st_sim f rs a pc (Running pc' S') (Running pc'' T') \<longleftrightarrow> pc'' = pc' \<and> pc < pc' \<and> sim f rs a pc' S' T'"
  by (auto simp: st_sim_def)

lemma st_sim_wr:
  assumes "well_placed f rs a" "sim f rs a pc S T" "pc < length (instructions f)"
    and d: "d \<in> set (touched (instructions f ! pc))"
  shows "st_sim f rs a pc (wr (home f a) S pc d x) (wr (place_of a) T pc d x)"
proof (cases "d < 0")
  case False
  then show ?thesis
    using sim_write [OF assms, of x] by (simp add: wr_def)
qed (simp add: wr_def)

lemma st_sim_goto:
  assumes sim: "sim f rs a pc S T" and fwd: "jumps_forward (instructions f)"
    and pc: "pc < length (instructions f)" "opcode (instructions f ! pc) \<in> {Jump, JumpIfZero}"
  shows "st_sim f rs a pc (goto (instructions f) (label (instructions f ! pc)) S)
           (goto (instructions f) (label (instructions f ! pc)) T)"
proof (cases "label_pos (instructions f) (label (instructions f ! pc))")
  case (Some t)
  then have "pc < t"
    using fwd pc unfolding jumps_forward_def by fastforce
  then show ?thesis
    using sim_later [OF sim, of t] by (simp add: goto_def Some)
qed (simp add: goto_def)

lemma st_sim_rd:
  assumes "\<And>x. rd (home f a) S v = Some x \<Longrightarrow> rd (place_of a) T v = Some x"
    and "\<And>x. rd (home f a) S v = Some x \<Longrightarrow> st_sim f rs a pc (F x) (G x)"
  shows "st_sim f rs a pc (case rd (home f a) S v of None \<Rightarrow> Stuck | Some x \<Rightarrow> F x)
           (case rd (place_of a) T v of None \<Rightarrow> Stuck | Some x \<Rightarrow> G x)"
  using assms by (cases "rd (home f a) S v") auto

lemma step_sim:
  assumes wp: "well_placed f rs a" and sim: "sim f rs a pc S T" and pc: "pc < length (instructions f)"
    and fwd: "jumps_forward (instructions f)"
  shows "st_sim f rs a pc (og_step ext params (instructions f) (home f a) pc S)
           (og_step ext params (instructions f) (place_of a) pc T)"
proof -
  let ?i = "instructions f ! pc"
  let ?H = "home f a" and ?P = "place_of a"
  have d: "destination ?i \<in> set (touched ?i)" and l: "left ?i \<in> set (touched ?i)"
    and r: "right ?i \<in> set (touched ?i)" and as: "set (args ?i) \<subseteq> set (touched ?i)"
    by (auto simp: touched_def)
  note W = st_sim_wr [OF wp sim pc d]
  note L = rd_sim [OF wp sim pc l]
  note R = rd_sim [OF wp sim pc r]
  have next_pc: "sim f rs a (Suc pc) S T"
    using sim by (rule sim_later) simp
  have binop: ?thesis
    if op: "og_step ext params (instructions f) ?H pc S =
        (case (rd ?H S (left ?i), rd ?H S (right ?i)) of
           (Some (IntV x), Some (IntV y)) \<Rightarrow>
             (case arith b x y of Some z \<Rightarrow> wr ?H S pc (destination ?i) (IntV z)
              | None \<Rightarrow> (if b = DivI32 then Trapped else Stuck))
         | _ \<Rightarrow> Stuck)"
      "og_step ext params (instructions f) ?P pc T =
        (case (rd ?P T (left ?i), rd ?P T (right ?i)) of
           (Some (IntV x), Some (IntV y)) \<Rightarrow>
             (case arith b x y of Some z \<Rightarrow> wr ?P T pc (destination ?i) (IntV z)
              | None \<Rightarrow> (if b = DivI32 then Trapped else Stuck))
         | _ \<Rightarrow> Stuck)" for b
    unfolding op using L R W by (auto split: option.split rt.split)
  show ?thesis
  proof (cases "opcode ?i")
    case ConstI32
    then show ?thesis
      using W by (simp add: og_step_def Let_def)
  next
    case ParamI32
    then show ?thesis
      using W by (simp add: og_step_def Let_def)
  next
    case MoveI32
    then show ?thesis
      using W L by (auto simp: og_step_def Let_def split: option.split)
  next
    case Call
    then show ?thesis
      using W reads_sim [OF wp sim pc as] by (auto simp: og_step_def Let_def split: option.split)
  next
    case InlineAsmI32
    then show ?thesis
      using W by (auto simp: og_step_def Let_def split: option.split)
  next
    case Label
    then show ?thesis
      using next_pc by (simp add: og_step_def Let_def)
  next
    case Jump
    then show ?thesis
      using st_sim_goto [OF sim fwd pc] by (simp add: og_step_def Let_def)
  next
    case JumpIfZero
    then show ?thesis
      using st_sim_goto [OF sim fwd pc] L next_pc by (auto simp: og_step_def Let_def split: option.split rt.split)
  next
    case ReturnI32
    then show ?thesis
      using L by (auto simp: og_step_def Let_def split: option.split)
  next
    case BoundsCheckI32
    then show ?thesis
      using L next_pc by (auto simp: og_step_def Let_def split: option.split rt.split)
  next
    case PtrSubI32
    then show ?thesis
      using L R W by (auto simp: og_step_def Let_def split: option.split rt.split)
  next
    case AddressOfI32
    show ?thesis
    proof (cases "left ?i \<in> memory_values f")
      case True
      then obtain n where "?H (left ?i) = Slot n" "?P (left ?i) = Slot n"
        using home_memory [OF wp, of "left ?i"] by auto
      then show ?thesis
        using W AddressOfI32 by (simp add: og_step_def Let_def)
    next
      case False
      then show ?thesis
        using AddressOfI32 by (simp add: og_step_def Let_def home_def)
    qed
  next
    case LoadI32
    show ?thesis
    proof (cases "rd ?H S (left ?i)")
      case None
      then show ?thesis
        using LoadI32 by (simp add: og_step_def Let_def)
    next
      case (Some v)
      then show ?thesis
        using LoadI32 L [OF Some] W sim_slot [OF sim]
        by (cases v) (auto simp: og_step_def Let_def split: option.split rt.split)
    qed
  next
    case StoreI32
    show ?thesis
    proof (cases "rd ?H S (left ?i)")
      case None
      then show ?thesis
        using StoreI32 by (simp add: og_step_def Let_def)
    next
      case (Some v)
      then show ?thesis
        using StoreI32 L [OF Some] R sim_slot [OF sim] sim_store [OF wp sim]
        by (cases v) (auto simp: og_step_def Let_def split: option.split rt.split)
    qed
  qed (rule binop; simp add: og_step_def Let_def)+
qed

lemma run_sim:
  assumes wp: "well_placed f rs a" and fwd: "jumps_forward (instructions f)"
  shows "sim f rs a pc S T \<Longrightarrow>
    og_run ext params (instructions f) (home f a) fuel pc S \<in> {Done x, Trap} \<Longrightarrow>
    og_run ext params (instructions f) (place_of a) fuel pc T =
      og_run ext params (instructions f) (home f a) fuel pc S"
proof (induction fuel arbitrary: pc S T)
  case (Suc fuel)
  let ?st = "og_step ext params (instructions f) (home f a) pc S"
  have pc: "pc < length (instructions f)"
    using Suc.prems(2) by (auto split: if_splits)
  note st = step_sim [OF wp Suc.prems(1) pc fwd, of ext params]
  show ?case
  proof (cases ?st)
    case (Running pc' S')
    then obtain T' where T': "og_step ext params (instructions f) (place_of a) pc T = Running pc' T'"
      "sim f rs a pc' S' T'"
      using st by (auto simp: st_sim_def)
    show ?thesis
      using Suc.IH [OF T'(2)] Suc.prems(2) pc by (simp add: Running T'(1))
  qed (use st Suc.prems(2) pc in simp_all)
qed simp

lemma sim_start: "sim f rs a 0 Map.empty T"
  by (simp add: sim_def)

text \<open>Forward jumps end: the program counter grows with every step.\<close>

lemma label_pos_less: "label_pos is l = Some t \<Longrightarrow> t < length is"
  by (auto simp: label_pos_def find_Some_iff)

lemma step_forward:
  assumes "jumps_forward is" "pc < length is" "og_step ext params is loc pc s = Running pc' s'"
  shows "pc < pc' \<and> pc' \<le> length is"
proof -
  have wr: "pc < pc' \<and> pc' \<le> length is" if "wr loc s pc v x = Running pc' s'" for v x
    using that assms(2) by (auto simp: wr_def split: if_splits)
  have goto: "pc < pc' \<and> pc' \<le> length is"
    if go: "goto is (label (is ! pc)) s = Running pc' s'" "opcode (is ! pc) \<in> {Jump, JumpIfZero}"
  proof -
    obtain t where t: "label_pos is (label (is ! pc)) = Some t" "pc' = t"
      using go(1) by (auto simp: goto_def split: option.splits)
    then show ?thesis
      using assms(1,2) go(2) label_pos_less [OF t(1)] unfolding jumps_forward_def by fastforce
  qed
  have stay: "pc < Suc pc \<and> Suc pc \<le> length is"
    using assms(2) by simp
  show ?thesis
    using assms(3) wr goto stay
    by (cases "opcode (is ! pc)")
      (auto simp: og_step_def Let_def split: option.splits rt.splits place.splits if_splits)
qed

lemma forward_runs_end:
  "jumps_forward is \<Longrightarrow> pc \<le> length is \<Longrightarrow> length is < pc + fuel \<Longrightarrow>
   og_run ext params is loc fuel pc s \<noteq> Out_of_fuel"
proof (induction fuel arbitrary: pc s)
  case (Suc fuel)
  show ?case
  proof (cases "length is \<le> pc")
    case False
    have "og_run ext params is loc fuel pc' s' \<noteq> Out_of_fuel"
      if "og_step ext params is loc pc s = Running pc' s'" for pc' s'
      using step_forward [OF Suc.prems(1) _ that] False Suc.prems by (intro Suc.IH) simp_all
    then show ?thesis
      using False by (simp split: status.split)
  qed simp
qed simp

text \<open>
  The contract between the allocator and the code generator: from any working copy of a symmetric
  graph, an allocation that meets \<^const>\<open>allocation_ok\<close>. Whatever keeps it, runs are preserved.
\<close>

locale register_allocator =
  fixes alloc :: "graph \<Rightarrow> graph \<Rightarrow> ValueId list \<Rightarrow> ValueId list list \<Rightarrow> RegisterAllocation"
  assumes alloc_ok:
    "distinct (map fst w) \<Longrightarrow> keys w = keys g \<Longrightarrow> (\<And>a b. adj g a b \<Longrightarrow> adj g b a) \<Longrightarrow>
     allocation_ok g forced groups (alloc w g forced groups)"
begin

lemma well_placed:
  assumes rs: "map_of rs = map_of (analyze f)" and w: "distinct (map fst w)" "set w = set (build rs)"
  shows "well_placed f rs (alloc w (build rs) (addressTakenValues f) (arrayGroups f))"
proof -
  let ?g = "build rs"
  let ?a = "alloc w ?g (addressTakenValues f) (arrayGroups f)"
  have ok: "allocation_ok ?g (addressTakenValues f) (arrayGroups f) ?a"
    by (rule alloc_ok) (use w in \<open>simp_all only:\<close>, rule adj_build_sym)
  have covers: "covers rs v k"
    if "k < length (instructions f)" "v \<in> set (touched (instructions f ! k))" "0 \<le> v" for k v
    using analyze_covers [OF that] by (simp add: covers_def rs)
  note sel = allocation_okD(1) [OF ok]
  have adjacent: "registers ?a v' \<noteq> Some n"
    if "map_of rs v = Some r" "map_of rs v' = Some r'" "v \<noteq> v'" "overlap r r'" "registers ?a v = Some n" for v v' r r' n
    by (rule selectingD(3) [OF sel adj_build_ranges [OF that(1-4)] that(3,5)])
  show ?thesis
    unfolding well_placed_def
  proof (intro conjI allI impI ballI)
    show "memory_values f \<subseteq> dom (spillSlots ?a)"
      unfolding memory_values_def by (rule allocation_okD(3) [OF ok])
    show "keys rs \<subseteq> dom (registers ?a) \<union> dom (spillSlots ?a)"
      by (rule subset_trans [OF keys_build allocation_okD(2) [OF ok]])
  qed (use covers adjacent selectingD(1,2) [OF sel] in blast)+
qed

lemma preserves_runs:
  assumes "jumps_forward (instructions f)"
    and "distinct (map fst rs)" "map_of rs = map_of (analyze f)"
    and "distinct (map fst w)" "set w = set (build rs)"
    and "a = alloc w (build rs) (addressTakenValues f) (arrayGroups f)"
    and "n = Suc (length (instructions f))"
  shows "og_run ext params (instructions f) (home f a) n 0 Map.empty \<noteq> Out_of_fuel \<and>
    (og_run ext params (instructions f) (home f a) n 0 Map.empty = Wrong \<or>
     og_run ext params (instructions f) (place_of a) n 0 T =
       og_run ext params (instructions f) (home f a) n 0 Map.empty)"
proof -
  have wp: "well_placed f rs a"
    using well_placed [OF assms(3-5)] assms(6) by simp
  have "og_run ext params (instructions f) (home f a) n 0 Map.empty \<noteq> Out_of_fuel"
    using assms(1,7) by (intro forward_runs_end) simp_all
  moreover have "og_run ext params (instructions f) (place_of a) n 0 T = o'"
    if "og_run ext params (instructions f) (home f a) n 0 Map.empty = o'" "o' \<in> {Done x, Trap}" for o' x
    using run_sim [OF wp assms(1) sim_start, of ext params n x T] that by simp
  ultimately show ?thesis
    by (cases "og_run ext params (instructions f) (home f a) n 0 Map.empty") auto
qed

end

interpretation coloring: register_allocator allocate
  by unfold_locales (rule allocate_ok)

text \<open>
  C38. Register allocation preserves the meaning of every function whose jumps go forward: from any
  contents of the registers and the stack, the code that keeps every value in its allocated place ends
  exactly as the reference does, and it always ends. This holds for every iteration order of the
  unordered maps the analysis and the allocator walk over.
\<close>

theorem register_allocation_correct:
  assumes "jumps_forward (instructions f)"
    and "distinct (map fst rs)" "map_of rs = map_of (analyze f)"
    and "distinct (map fst w)" "set w = set (build rs)"
    and "a = allocate w (build rs) (addressTakenValues f) (arrayGroups f)"
    and "n = Suc (length (instructions f))"
  shows "og_run ext params (instructions f) (home f a) n 0 Map.empty \<noteq> Out_of_fuel \<and>
    (og_run ext params (instructions f) (home f a) n 0 Map.empty = Wrong \<or>
     og_run ext params (instructions f) (place_of a) n 0 T =
       og_run ext params (instructions f) (home f a) n 0 Map.empty)"
  by (rule coloring.preserves_runs [OF assms])

text \<open>The function \<open>f(a, b) { let c = a * b; if (c > a) { c = c - 1; } return c; }\<close>.\<close>

definition sample_function :: IRFunction where
  "sample_function =
     \<lparr>ir_name = ''f'', paramCount = 2,
      instructions =
        [mk_inst ParamI32 0 (-1) (-1) 0 [] [], mk_inst ParamI32 1 (-1) (-1) 1 [] [],
         mk_inst MulI32 2 0 1 0 [] [], mk_inst CmpGtI32 3 2 0 0 [] [],
         mk_inst JumpIfZero (-1) 3 (-1) 0 [] ''.Lend1'',
         mk_inst ConstI32 4 (-1) (-1) 1 [] [], mk_inst SubI32 5 2 4 0 [] [],
         mk_inst MoveI32 2 5 (-1) 0 [] [], mk_inst Label (-1) (-1) (-1) 0 [] ''.Lend1'',
         mk_inst ReturnI32 (-1) 2 (-1) 0 [] []],
      addressTakenValues = [], arrayGroups = []\<rparr>"

definition sample_allocation :: RegisterAllocation where
  "sample_allocation =
     allocate (build (analyze sample_function)) (build (analyze sample_function))
       (addressTakenValues sample_function) (arrayGroups sample_function)"

lemma sample_reference:
  "og_run (\<lambda>_ _. None) [IntV 6, IntV 7] (instructions sample_function)
     (home sample_function sample_allocation) 11 0 Map.empty = Done (IntV 41)"
  by code_simp

theorem register_allocation_correct_witness:
  "og_run (\<lambda>_ _. None) [IntV 6, IntV 7] (instructions sample_function)
     (place_of sample_allocation) 11 0 (\<lambda>_. Some (IntV 99)) = Done (IntV 41)"
proof -
  have "jumps_forward (instructions sample_function)"
    by code_simp
  moreover have "distinct (map fst (analyze sample_function))" "distinct (map fst (build (analyze sample_function)))"
    by code_simp+
  moreover have "11 = Suc (length (instructions sample_function))"
    by code_simp
  ultimately show ?thesis
    using register_allocation_correct [OF _ _ refl _ refl sample_allocation_def,
        of 11 "\<lambda>_ _. None" "[IntV 6, IntV 7]" "\<lambda>_. Some (IntV 99)"] sample_reference
    by simp
qed

end
