(* ===== verification/OgLower.thy ===== *)
theory OgLower
  imports OgMachine
begin

text \<open>
  Lowering, \<^verbatim>\<open>03-compiler/oglang/ir/lower.cpp\<close> over the syntax tree of \<^verbatim>\<open>ast/ast.hpp\<close>. The lowerer's
  fields and the function it fills are the state; a computation returns a value and the new state, or
  the exception that leaves \<^verbatim>\<open>lower\<close>. The \<^verbatim>\<open>dynamic_cast\<close> chains are the clauses of the functions.
\<close>

section \<open>Syntax tree\<close>

datatype Expr =
    IntegerExpr int
  | VariableExpr string
  | BinaryExpr char Expr Expr
  | UnaryExpr char Expr
  | AddressOfExpr string
  | DerefExpr Expr
  | IndexExpr string Expr
  | FieldAccessExpr string string
  | AsmExpr string
  | CallExpr string "Expr list"

text \<open>\<open>LetStmt name type initializer\<close>, \<open>ArrayDeclStmt name elementType count\<close>, \<open>StructVarDeclStmt name structType\<close>.\<close>

datatype Statement =
    LetStmt string string Expr
  | ReturnStmt Expr
  | AssignStmt string Expr
  | StoreStmt Expr Expr
  | ArrayDeclStmt string string int
  | IndexStoreStmt string Expr Expr
  | StructVarDeclStmt string string
  | FieldStoreStmt string string Expr
  | WhileStmt Expr "Statement list"
  | IfStmt Expr "Statement list" "Statement list"

record Param =
  param_name :: string
  param_type :: string

record Function =
  fn_name :: string
  fn_params :: "Param list"
  fn_returnType :: string
  fn_body :: "Statement list"

section \<open>The lowerer\<close>

text \<open>\<open>Undefined\<close> marks an access to the first element of an empty vector.\<close>

datatype LowerError = RuntimeError string | OutOfRange | LengthError | Undefined

record IRLowerer =
  nextValue :: ValueId
  nextLabel :: nat
  variables :: "string \<rightharpoonup> ValueId"
  arrays :: "string \<rightharpoonup> ValueId list"
  structFieldOrder :: "string \<rightharpoonup> string list"
  enumVariants :: "string \<rightharpoonup> (string \<rightharpoonup> int)"
  structVars :: "string \<rightharpoonup> ValueId list"
  structVarTypes :: "string \<rightharpoonup> string"
  ir :: IRFunction

type_synonym 'a lowering = "IRLowerer \<Rightarrow> LowerError + ('a \<times> IRLowerer)"

definition yields :: "'a \<Rightarrow> 'a lowering" where
  "yields x s = Inr (x, s)"

definition throws :: "LowerError \<Rightarrow> 'a lowering" where
  "throws e s = Inl e"

definition andThen :: "'a lowering \<Rightarrow> ('a \<Rightarrow> 'b lowering) \<Rightarrow> 'b lowering" where
  "andThen m k s = (case m s of Inl e \<Rightarrow> Inl e | Inr (x, s') \<Rightarrow> k x s')"

definition reads :: "(IRLowerer \<Rightarrow> 'a) \<Rightarrow> 'a lowering" where
  "reads f s = Inr (f s, s)"

definition modifies :: "(IRLowerer \<Rightarrow> IRLowerer) \<Rightarrow> unit lowering" where
  "modifies f s = Inr ((), f s)"

text \<open>\<^verbatim>\<open>ir.instructions.push_back\<close>, \<^verbatim>\<open>nextValue++\<close> and \<^verbatim>\<open>freshLabel\<close>.\<close>

definition emit :: "IRInstruction \<Rightarrow> unit lowering" where
  "emit i = modifies (\<lambda>s. s\<lparr>ir := (ir s)\<lparr>instructions := instructions (ir s) @ [i]\<rparr>\<rparr>)"

definition fresh :: "ValueId lowering" where
  "fresh s = Inr (nextValue s, s\<lparr>nextValue := nextValue s + 1\<rparr>)"

definition freshLabel :: "string \<Rightarrow> string lowering" where
  "freshLabel prefix s = Inr (prefix @ to_string (nextLabel s), s\<lparr>nextLabel := nextLabel s + 1\<rparr>)"

text \<open>\<open>produce\<close> is the recurring pair \<^verbatim>\<open>dst = nextValue++; push_back({op, dst, ...})\<close>.\<close>

definition produce :: "OpCode \<Rightarrow> ValueId \<Rightarrow> ValueId \<Rightarrow> int \<Rightarrow> ValueId list \<Rightarrow> string \<Rightarrow> ValueId lowering" where
  "produce op l r v as lab =
     andThen fresh (\<lambda>d. andThen (emit (mk_inst op d l r v as lab)) (\<lambda>_. yields d))"

definition effect :: "OpCode \<Rightarrow> ValueId \<Rightarrow> ValueId \<Rightarrow> int \<Rightarrow> string \<Rightarrow> unit lowering" where
  "effect op l r v lab = emit (mk_inst op (-1) l r v [] lab)"

definition find_or :: "LowerError \<Rightarrow> (IRLowerer \<Rightarrow> 'a option) \<Rightarrow> 'a lowering" where
  "find_or e f = andThen (reads f) (\<lambda>r. case r of None \<Rightarrow> throws e | Some x \<Rightarrow> yields x)"

definition first_of :: "ValueId list \<Rightarrow> ValueId lowering" where
  "first_of vs = (case vs of [] \<Rightarrow> throws Undefined | v # _ \<Rightarrow> yields v)"

definition lowerElementAddress :: "string \<Rightarrow> ValueId lowering \<Rightarrow> ValueId lowering" where
  "lowerElementAddress arrayName lowerIndex =
     andThen (find_or (RuntimeError (''Indexing unknown array: '' @ arrayName)) (\<lambda>s. arrays s arrayName)) (\<lambda>es.
     andThen (first_of es) (\<lambda>elementZero.
     andThen lowerIndex (\<lambda>index.
     andThen (effect BoundsCheckI32 index (-1) (int (length es)) []) (\<lambda>_.
     andThen (produce ConstI32 (-1) (-1) 8 [] []) (\<lambda>eight.
     andThen (produce MulI32 index eight 0 [] []) (\<lambda>byteOffset.
     andThen (produce AddressOfI32 elementZero (-1) 0 [] []) (\<lambda>baseAddress.
     produce PtrSubI32 baseAddress byteOffset 0 [] [])))))))"

fun index_of :: "string \<Rightarrow> string list \<Rightarrow> nat \<Rightarrow> int" where
  "index_of x [] i = -1"
| "index_of x (y # ys) i = (if y = x then int i else index_of x ys (i + 1))"

definition lowerFieldAddress :: "string \<Rightarrow> string \<Rightarrow> ValueId lowering" where
  "lowerFieldAddress structVarName fieldName =
     andThen (find_or (RuntimeError (''Unknown struct variable: '' @ structVarName)) (\<lambda>s. structVars s structVarName)) (\<lambda>fields.
     andThen (find_or OutOfRange (\<lambda>s. structVarTypes s structVarName)) (\<lambda>structType.
     andThen (find_or OutOfRange (\<lambda>s. structFieldOrder s structType)) (\<lambda>order.
     let fieldIndex = index_of fieldName order 0 in
     if fieldIndex < 0
     then throws (RuntimeError (''Struct '' @ [CHR 39] @ structType @ [CHR 39] @ '' has no field named: '' @ fieldName))
     else
       andThen (first_of fields) (\<lambda>fieldZero.
       andThen (produce ConstI32 (-1) (-1) (fieldIndex * 8) [] []) (\<lambda>byteOffset.
       andThen (produce AddressOfI32 fieldZero (-1) 0 [] []) (\<lambda>baseAddress.
       produce PtrSubI32 baseAddress byteOffset 0 [] []))))))"

definition binary_opcode :: "char \<Rightarrow> OpCode option" where
  "binary_opcode c =
     map_of [(CHR ''+'', AddI32), (CHR ''-'', SubI32), (CHR ''*'', MulI32), (CHR ''/'', DivI32),
             (CHR ''='', CmpEqI32), (CHR ''!'', CmpNeI32), (CHR ''>'', CmpGtI32), (CHR ''<'', CmpLtI32),
             (CHR ''G'', CmpGeI32), (CHR ''L'', CmpLeI32)] c"

definition load_from :: "ValueId \<Rightarrow> ValueId lowering" where
  "load_from address = produce LoadI32 address (-1) 0 [] []"

text \<open>The struct variable wins over an enumeration of the same name; \<^verbatim>\<open>at\<close> on an unknown variant throws.\<close>

definition lowerFieldAccess :: "string \<Rightarrow> string \<Rightarrow> ValueId lowering" where
  "lowerFieldAccess structVarName fieldName =
     andThen (reads (\<lambda>s. (structVars s structVarName, enumVariants s structVarName))) (\<lambda>r. case r of
       (None, Some variants) \<Rightarrow>
         (case variants fieldName of
            None \<Rightarrow> throws OutOfRange
          | Some ordinal \<Rightarrow> produce ConstI32 (-1) (-1) ordinal [] [])
     | _ \<Rightarrow> andThen (lowerFieldAddress structVarName fieldName) load_from)"

definition take_address :: "string \<Rightarrow> ValueId lowering" where
  "take_address name =
     andThen (find_or (RuntimeError (''Cannot take the address of unknown variable: '' @ name)) (\<lambda>s. variables s name)) (\<lambda>v.
     andThen (modifies (\<lambda>s. s\<lparr>ir := (ir s)\<lparr>addressTakenValues := addressTakenValues (ir s) @ [v]\<rparr>\<rparr>)) (\<lambda>_.
     produce AddressOfI32 v (-1) 0 [] []))"

fun lowerExpr :: "Expr \<Rightarrow> ValueId lowering" and lowerArgs :: "Expr list \<Rightarrow> ValueId list lowering" where
  "lowerExpr (IntegerExpr n) = produce ConstI32 (-1) (-1) n [] []"
| "lowerExpr (VariableExpr name) =
     find_or (RuntimeError (''Unknown variable: '' @ name)) (\<lambda>s. variables s name)"
| "lowerExpr (UnaryExpr op operand) =
     (if op \<noteq> CHR ''-'' then throws (RuntimeError ''Unsupported unary operator'')
      else andThen (lowerExpr operand) (\<lambda>v.
           andThen (produce ConstI32 (-1) (-1) 0 [] []) (\<lambda>zero.
           produce SubI32 zero v 0 [] [])))"
| "lowerExpr (AddressOfExpr name) = take_address name"
| "lowerExpr (DerefExpr pointer) = andThen (lowerExpr pointer) load_from"
| "lowerExpr (IndexExpr arrayName index) = andThen (lowerElementAddress arrayName (lowerExpr index)) load_from"
| "lowerExpr (FieldAccessExpr structVarName fieldName) = lowerFieldAccess structVarName fieldName"
| "lowerExpr (AsmExpr template) = produce InlineAsmI32 (-1) (-1) 0 [] template"
| "lowerExpr (CallExpr callee as) = andThen (lowerArgs as) (\<lambda>vs. produce Call (-1) (-1) 0 vs callee)"
| "lowerExpr (BinaryExpr op l r) =
     andThen (lowerExpr l) (\<lambda>lv.
     andThen (lowerExpr r) (\<lambda>rv.
     andThen fresh (\<lambda>d. case binary_opcode op of
       None \<Rightarrow> throws (RuntimeError ''Unsupported binary operator'')
     | Some opc \<Rightarrow> andThen (emit (mk_inst opc d lv rv 0 [] [])) (\<lambda>_. yields d))))"
| "lowerArgs [] = yields []"
| "lowerArgs (e # es) = andThen (lowerExpr e) (\<lambda>v. andThen (lowerArgs es) (\<lambda>vs. yields (v # vs)))"

text \<open>The loop that creates zeroed elements of an array or fields of a structure.\<close>

fun zeroed :: "nat \<Rightarrow> ValueId list lowering" where
  "zeroed 0 = yields []"
| "zeroed (Suc n) =
     andThen (produce ConstI32 (-1) (-1) 0 [] []) (\<lambda>v. andThen (zeroed n) (\<lambda>vs. yields (v # vs)))"

definition add_group :: "ValueId list \<Rightarrow> unit lowering" where
  "add_group vs = modifies (\<lambda>s. s\<lparr>ir := (ir s)\<lparr>arrayGroups := arrayGroups (ir s) @ [vs]\<rparr>\<rparr>)"

definition declare_array :: "string \<Rightarrow> int \<Rightarrow> unit lowering" where
  "declare_array name count =
     (if count < 0 then throws LengthError
      else andThen (zeroed (nat count)) (\<lambda>vs.
           andThen (add_group vs) (\<lambda>_.
           modifies (\<lambda>s. s\<lparr>arrays := (arrays s)(name \<mapsto> vs)\<rparr>))))"

definition declare_struct :: "string \<Rightarrow> string \<Rightarrow> unit lowering" where
  "declare_struct name structType =
     andThen (find_or OutOfRange (\<lambda>s. structFieldOrder s structType)) (\<lambda>order.
     andThen (zeroed (length order)) (\<lambda>vs.
     andThen (add_group vs) (\<lambda>_.
     modifies (\<lambda>s. s\<lparr>structVars := (structVars s)(name \<mapsto> vs),
                     structVarTypes := (structVarTypes s)(name \<mapsto> structType)\<rparr>))))"

fun lowerStatement :: "Statement \<Rightarrow> unit lowering" and lowerBlock :: "Statement list \<Rightarrow> unit lowering" where
  "lowerStatement (LetStmt name type init) =
     andThen (lowerExpr init) (\<lambda>v. modifies (\<lambda>s. s\<lparr>variables := (variables s)(name \<mapsto> v)\<rparr>))"
| "lowerStatement (AssignStmt name e) =
     andThen (find_or (RuntimeError (''Assignment to unknown variable: '' @ name)) (\<lambda>s. variables s name)) (\<lambda>target.
     andThen (lowerExpr e) (\<lambda>v. emit (mk_inst MoveI32 target v (-1) 0 [] [])))"
| "lowerStatement (StoreStmt pointer e) =
     andThen (lowerExpr pointer) (\<lambda>p. andThen (lowerExpr e) (\<lambda>v. effect StoreI32 p v 0 []))"
| "lowerStatement (ArrayDeclStmt name elementType count) = declare_array name count"
| "lowerStatement (StructVarDeclStmt name structType) = declare_struct name structType"
| "lowerStatement (FieldStoreStmt structVarName fieldName e) =
     andThen (lowerFieldAddress structVarName fieldName) (\<lambda>address.
     andThen (lowerExpr e) (\<lambda>v. effect StoreI32 address v 0 []))"
| "lowerStatement (IndexStoreStmt arrayName index e) =
     andThen (lowerElementAddress arrayName (lowerExpr index)) (\<lambda>address.
     andThen (lowerExpr e) (\<lambda>v. effect StoreI32 address v 0 []))"
| "lowerStatement (WhileStmt condition body) =
     andThen (freshLabel ''.Lloop'') (\<lambda>loopStart.
     andThen (freshLabel ''.Lloopend'') (\<lambda>loopEnd.
     andThen (effect Label (-1) (-1) 0 loopStart) (\<lambda>_.
     andThen (lowerExpr condition) (\<lambda>cond.
     andThen (effect JumpIfZero cond (-1) 0 loopEnd) (\<lambda>_.
     andThen (lowerBlock body) (\<lambda>_.
     andThen (effect Jump (-1) (-1) 0 loopStart) (\<lambda>_.
     effect Label (-1) (-1) 0 loopEnd)))))))"
| "lowerStatement (ReturnStmt e) = andThen (lowerExpr e) (\<lambda>v. effect ReturnI32 v (-1) 0 [])"
| "lowerStatement (IfStmt condition thenBody elseBody) =
     andThen (lowerExpr condition) (\<lambda>cond.
     andThen (freshLabel ''.Lelse'') (\<lambda>elseLabel.
     andThen (freshLabel ''.Lend'') (\<lambda>endLabel.
     andThen (effect JumpIfZero cond (-1) 0 (if elseBody = [] then endLabel else elseLabel)) (\<lambda>_.
     andThen (lowerBlock thenBody) (\<lambda>_.
     andThen (if elseBody = [] then yields ()
              else andThen (effect Jump (-1) (-1) 0 endLabel) (\<lambda>_.
                   andThen (effect Label (-1) (-1) 0 elseLabel) (\<lambda>_. lowerBlock elseBody))) (\<lambda>_.
     effect Label (-1) (-1) 0 endLabel))))))"
| "lowerBlock [] = yields ()"
| "lowerBlock (st # sts) = andThen (lowerStatement st) (\<lambda>_. lowerBlock sts)"

fun lower_params :: "nat \<Rightarrow> Param list \<Rightarrow> unit lowering" where
  "lower_params i [] = yields ()"
| "lower_params i (p # ps) =
     andThen (produce ParamI32 (-1) (-1) (int i) [] []) (\<lambda>v.
     andThen (modifies (\<lambda>s. s\<lparr>variables := (variables s)(param_name p \<mapsto> v)\<rparr>)) (\<lambda>_.
     lower_params (i + 1) ps))"

definition lower_start :: "Function \<Rightarrow> (string \<rightharpoonup> string list) \<Rightarrow> (string \<rightharpoonup> (string \<rightharpoonup> int)) \<Rightarrow> IRLowerer" where
  "lower_start fn structLayouts enums =
     \<lparr>nextValue = 0, nextLabel = 0, variables = Map.empty, arrays = Map.empty,
      structFieldOrder = structLayouts, enumVariants = enums, structVars = Map.empty,
      structVarTypes = Map.empty,
      ir = \<lparr>ir_name = fn_name fn, paramCount = int (length (fn_params fn)), instructions = [],
            addressTakenValues = [], arrayGroups = []\<rparr>\<rparr>"

definition lower ::
  "Function \<Rightarrow> (string \<rightharpoonup> string list) \<Rightarrow> (string \<rightharpoonup> (string \<rightharpoonup> int)) \<Rightarrow> LowerError + IRFunction"
where
  "lower fn structLayouts enums =
     (case andThen (lower_params 0 (fn_params fn)) (\<lambda>_. lowerBlock (fn_body fn))
             (lower_start fn structLayouts enums) of
        Inl e \<Rightarrow> Inl e
      | Inr (_, s) \<Rightarrow> Inr (ir s))"

end
