(* ===== verification/OgCompile.thy ===== *)
theory OgCompile
  imports OgLower
begin

text \<open>
  Facts about lowering and the whole path from the syntax tree to allocated code: labels are fresh and
  every jump of a function without \<^verbatim>\<open>while\<close> goes forward, the elements of arrays and structures are
  distinct values, so such a function runs in its allocated places as it is meant to. A loop breaks
  this, because live ranges ignore the jump back.
\<close>

section \<open>Labels\<close>

definition digit :: "char \<Rightarrow> bool" where
  "digit c \<longleftrightarrow> 48 \<le> (of_char c :: nat) \<and> (of_char c :: nat) \<le> 57"

definition label_prefixes :: "string list" where
  "label_prefixes = [''.Lloop'', ''.Lloopend'', ''.Lelse'', ''.Lend'']"

lemma to_string_digits: "c \<in> set (to_string n) \<Longrightarrow> digit c"
proof (induction n rule: to_string.induct)
  case (1 n)
  have digits: "digit (char_of (48 + m :: nat))" if "m < 10" for m :: nat
    using that by (simp add: digit_def of_char_of)
  show ?case
  proof (cases "n < 10")
    case True
    then show ?thesis
      using 1(2) digits by (subst (asm) to_string.simps) simp
  next
    case False
    then have "c \<in> set (to_string (n div 10)) \<or> c = char_of (48 + n mod 10)"
      using 1(2) by (subst (asm) to_string.simps) auto
    then show ?thesis
      using 1(1) [OF False] digits [of "n mod 10"] by auto
  qed
qed

lemma prefix_not_digit: "p \<in> set label_prefixes \<Longrightarrow> p \<noteq> [] \<and> \<not> digit (last p)"
  by (auto simp: label_prefixes_def digit_def)

lemma label_digits:
  assumes "p \<in> set label_prefixes"
  shows "takeWhile digit (rev (p @ to_string m)) = rev (to_string m)"
proof -
  obtain q c where p: "p = q @ [c]" "\<not> digit c"
    using prefix_not_digit [OF assms] by (metis append_butlast_last_id)
  have "takeWhile digit (rev (to_string m) @ c # rev q) = rev (to_string m) @ takeWhile digit (c # rev q)"
    using to_string_digits by (intro takeWhile_append2) auto
  then show ?thesis
    using p by simp
qed

lemma label_number:
  assumes "p \<in> set label_prefixes" "p' \<in> set label_prefixes" "p @ to_string m = p' @ to_string m'"
  shows "m = m'"
proof -
  have "rev (to_string m) = rev (to_string m')"
    using label_digits [OF assms(1), of m] label_digits [OF assms(2), of m'] assms(3) by simp
  then show ?thesis
    by simp
qed

definition numbered :: "nat \<Rightarrow> nat \<Rightarrow> string \<Rightarrow> bool" where
  "numbered n n' l \<longleftrightarrow> (\<exists>m p. n \<le> m \<and> m < n' \<and> p \<in> set label_prefixes \<and> l = p @ to_string m)"

lemma numbered_mono: "numbered n n' l \<Longrightarrow> a \<le> n \<Longrightarrow> n' \<le> b \<Longrightarrow> numbered a b l"
  unfolding numbered_def by (metis le_trans less_le_trans)

lemma numbered_disjoint: "numbered a b l \<Longrightarrow> numbered c d l' \<Longrightarrow> b \<le> c \<Longrightarrow> l \<noteq> l'"
  unfolding numbered_def using label_number by (metis leD le_trans)

abbreviation is_label :: "IRInstruction \<Rightarrow> bool" where
  "is_label i \<equiv> opcode i = Label"

abbreviation is_jump :: "IRInstruction \<Rightarrow> bool" where
  "is_jump i \<equiv> opcode i \<in> {Jump, JumpIfZero}"

definition labels :: "IRInstruction list \<Rightarrow> string list" where
  "labels c = map label (filter is_label c)"

lemma labels_simps [simp]:
  "labels [] = []" "labels (i # c) = (if is_label i then label i # labels c else labels c)"
  "labels (a @ b) = labels a @ labels b"
  by (simp_all add: labels_def)

text \<open>\<open>resolved L c\<close>: every jump of \<open>c\<close> has its label later in \<open>c\<close> or in \<open>L\<close>.\<close>

fun resolved :: "string set \<Rightarrow> IRInstruction list \<Rightarrow> bool" where
  "resolved L [] \<longleftrightarrow> True"
| "resolved L (i # c) \<longleftrightarrow> (is_jump i \<longrightarrow> label i \<in> set (labels c) \<union> L) \<and> resolved L c"

lemma resolved_append [simp]: "resolved L (a @ b) \<longleftrightarrow> resolved (set (labels b) \<union> L) a \<and> resolved L b"
  by (induction a) auto

lemma resolved_mono: "resolved L c \<Longrightarrow> L \<subseteq> M \<Longrightarrow> resolved M c"
  by (induction c) auto

lemma labels_in: "l \<in> set (labels c) \<Longrightarrow> \<exists>t < length c. is_label (c ! t) \<and> label (c ! t) = l"
  by (force simp: labels_def in_set_conv_nth)

lemma label_position_unique:
  assumes d: "distinct (labels c)" and ij: "i < j" "j < length c"
    and l: "is_label (c ! i)" "is_label (c ! j)" "label (c ! i) = label (c ! j)"
  shows False
proof -
  have split: "labels c = labels (take j c) @ labels (drop j c)"
    using labels_simps(3) [of "take j c" "drop j c"] by simp
  have "c ! i \<in> set (take j c)"
    using ij by (auto simp: in_set_conv_nth intro!: exI [of _ i])
  then have "label (c ! i) \<in> set (labels (take j c))"
    using l(1) by (auto simp: labels_def)
  moreover have "c ! j \<in> set (drop j c)"
    using ij(2) by (metis Cons_nth_drop_Suc list.set_intros(1))
  then have "label (c ! j) \<in> set (labels (drop j c))"
    using l(2) by (auto simp: labels_def)
  ultimately show False
    using d l(3) unfolding split by auto
qed

lemma resolved_at: "resolved L c \<Longrightarrow> k < length c \<Longrightarrow> is_jump (c ! k) \<Longrightarrow> label (c ! k) \<in> set (labels (drop (Suc k) c)) \<union> L"
proof (induction c arbitrary: k)
  case (Cons i c)
  then show ?case
    by (cases k) auto
qed simp

lemma resolved_forward:
  assumes r: "resolved {} c" and d: "distinct (labels c)"
  shows "jumps_forward c"
  unfolding jumps_forward_def
proof (intro allI impI)
  fix k
  assume k: "k < length c" "is_jump (c ! k)"
  let ?l = "label (c ! k)"
  have "?l \<in> set (labels (drop (Suc k) c))"
    using resolved_at [OF r k] by simp
  then obtain t where t: "t < length (drop (Suc k) c)" "is_label (drop (Suc k) c ! t)" "label (drop (Suc k) c ! t) = ?l"
    using labels_in by blast
  let ?t = "Suc k + t"
  have t': "?t < length c" "is_label (c ! ?t)" "label (c ! ?t) = ?l"
    using t by (simp_all add: add.commute)
  show "case label_pos c ?l of None \<Rightarrow> True | Some t \<Rightarrow> k < t"
  proof (cases "label_pos c ?l")
    case (Some u)
    then have u: "u < length c" "is_label (c ! u)" "label (c ! u) = ?l"
      by (auto simp: label_pos_def find_Some_iff)
    have "u = ?t"
      using label_position_unique [OF d _ t'(1) u(2) t'(2)] label_position_unique [OF d _ u(1) t'(2) u(2)] u(3) t'(3)
      by (metis linorder_neqE_nat)
    then show ?thesis
      using Some by simp
  qed simp
qed

definition forward_code :: "nat \<Rightarrow> nat \<Rightarrow> IRInstruction list \<Rightarrow> bool" where
  "forward_code n n' c \<longleftrightarrow>
     n \<le> n' \<and> (\<forall>l \<in> set (labels c). numbered n n' l) \<and> distinct (labels c) \<and> resolved {} c"

lemma forward_code_append:
  assumes a: "forward_code n m a" and b: "forward_code m n' b"
  shows "forward_code n n' (a @ b)"
proof -
  have "l \<noteq> l'" if "l \<in> set (labels a)" "l' \<in> set (labels b)" for l l'
    using a b that numbered_disjoint [of n m l m n' l'] by (simp add: forward_code_def)
  then have "set (labels a) \<inter> set (labels b) = {}"
    by auto
  moreover have "resolved (set (labels b)) a"
    using a resolved_mono by (auto simp: forward_code_def)
  moreover have "numbered n n' l" if "l \<in> set (labels a) \<union> set (labels b)" for l
    using that a b numbered_mono unfolding forward_code_def by blast
  ultimately show ?thesis
    using a b by (simp add: forward_code_def)
qed

section \<open>What lowering adds\<close>

definition groups_ok :: "IRLowerer \<Rightarrow> bool" where
  "groups_ok s \<longleftrightarrow>
     distinct (concat (arrayGroups (ir s))) \<and> (\<forall>v \<in> set (concat (arrayGroups (ir s))). v < nextValue s)"

definition adds :: "IRLowerer \<Rightarrow> IRLowerer \<Rightarrow> IRInstruction list \<Rightarrow> bool" where
  "adds s s' c \<longleftrightarrow>
     instructions (ir s') = instructions (ir s) @ c \<and> nextValue s \<le> nextValue s' \<and>
     (groups_ok s \<longrightarrow> groups_ok s')"

lemma adds_trans: "adds s s1 a \<Longrightarrow> adds s1 s2 b \<Longrightarrow> adds s s2 (a @ b)"
  by (simp add: adds_def)

definition lowers :: "'a lowering \<Rightarrow> bool" where
  "lowers m \<longleftrightarrow>
     (\<forall>s x s'. m s = Inr (x, s') \<longrightarrow> (\<exists>c. adds s s' c \<and> forward_code (nextLabel s) (nextLabel s') c))"

named_theorems lowers_intros \<open>computations that only add resolved code\<close>

lemma lowersI:
  "(\<And>s x s'. m s = Inr (x, s') \<Longrightarrow> \<exists>c. adds s s' c \<and> forward_code (nextLabel s) (nextLabel s') c) \<Longrightarrow> lowers m"
  by (simp add: lowers_def)

lemma lowersD:
  "lowers m \<Longrightarrow> m s = Inr (x, s') \<Longrightarrow> \<exists>c. adds s s' c \<and> forward_code (nextLabel s) (nextLabel s') c"
  by (simp add: lowers_def)

lemma andThen_Inr: "andThen m k s = Inr r \<longleftrightarrow> (\<exists>x s1. m s = Inr (x, s1) \<and> k x s1 = Inr r)"
  by (auto simp: andThen_def split: sum.split)

lemma forward_code_Nil [simp]: "forward_code n n []"
  by (simp add: forward_code_def)

lemma lowers_andThen [lowers_intros]:
  assumes m: "lowers m" and k: "\<And>x. lowers (k x)"
  shows "lowers (andThen m k)"
proof (rule lowersI)
  fix s x s'
  assume "andThen m k s = Inr (x, s')"
  then obtain y s1 where run: "m s = Inr (y, s1)" "k y s1 = Inr (x, s')"
    unfolding andThen_Inr by blast
  obtain a where a: "adds s s1 a" "forward_code (nextLabel s) (nextLabel s1) a"
    using lowersD [OF m run(1)] by blast
  obtain b where b: "adds s1 s' b" "forward_code (nextLabel s1) (nextLabel s') b"
    using lowersD [OF k run(2)] by blast
  show "\<exists>c. adds s s' c \<and> forward_code (nextLabel s) (nextLabel s') c"
    using adds_trans [OF a(1) b(1)] forward_code_append [OF a(2) b(2)] by blast
qed

lemma lowers_plain [lowers_intros]:
  "lowers (yields x)" "lowers (throws e)" "lowers (reads g)"
  by (auto simp: lowers_def yields_def throws_def reads_def adds_def intro!: exI [of _ "[]"])

lemma lowers_fresh [lowers_intros]: "lowers fresh"
  by (fastforce simp: lowers_def fresh_def adds_def groups_ok_def intro!: exI [of _ "[]"])

lemma lowers_modifies:
  assumes "\<And>s. instructions (ir (f s)) = instructions (ir s) \<and> arrayGroups (ir (f s)) = arrayGroups (ir s) \<and>
     nextValue (f s) = nextValue s \<and> nextLabel (f s) = nextLabel s"
  shows "lowers (modifies f)"
  using assms by (auto simp: lowers_def modifies_def adds_def groups_ok_def intro!: exI [of _ "[]"])

lemma lowers_emit: "\<not> is_label i \<Longrightarrow> \<not> is_jump i \<Longrightarrow> lowers (emit i)"
  by (auto simp: lowers_def emit_def modifies_def adds_def groups_ok_def forward_code_def intro!: exI [of _ "[i]"])

lemma opcode_mk_inst [simp]:
  "opcode (mk_inst op d l r v as lab) = op" "label (mk_inst op d l r v as lab) = lab"
  by (simp_all add: mk_inst_def)

lemma lowers_find_or [lowers_intros]: "lowers (find_or e f)"
  unfolding find_or_def by (intro lowers_intros) (auto intro: lowers_intros split: option.split)

lemma lowers_first_of [lowers_intros]: "lowers (first_of vs)"
  by (cases vs) (simp_all add: first_of_def lowers_intros)

lemma lowers_produce: "op \<notin> {Label, Jump, JumpIfZero} \<Longrightarrow> lowers (produce op l r v as lab)"
  unfolding produce_def by (intro lowers_intros lowers_emit) auto

lemma lowers_effect: "op \<notin> {Label, Jump, JumpIfZero} \<Longrightarrow> lowers (effect op l r v lab)"
  unfolding effect_def by (intro lowers_emit) auto

lemma lowers_element_address: "lowers m \<Longrightarrow> lowers (lowerElementAddress name m)"
  unfolding lowerElementAddress_def by (intro lowers_intros lowers_produce lowers_effect) auto

lemma lowers_field_address [lowers_intros]: "lowers (lowerFieldAddress name field)"
  unfolding lowerFieldAddress_def Let_def
  by (intro lowers_intros) (auto intro!: lowers_intros lowers_produce)

lemma lowers_load [lowers_intros]: "lowers (load_from v)"
  unfolding load_from_def by (rule lowers_produce) simp

lemma lowers_field_access [lowers_intros]: "lowers (lowerFieldAccess name field)"
  unfolding lowerFieldAccess_def
  by (intro lowers_intros) (auto intro!: lowers_intros lowers_produce split: prod.split option.split)

lemma lowers_take_address [lowers_intros]: "lowers (take_address name)"
  unfolding take_address_def by (intro lowers_intros lowers_produce lowers_modifies) auto

lemma binary_opcode_plain: "binary_opcode op = Some opc \<Longrightarrow> opc \<notin> {Label, Jump, JumpIfZero}"
  by (auto simp: binary_opcode_def split: if_splits)

lemma lowers_expr: "lowers (lowerExpr e)" and lowers_args: "lowers (lowerArgs es)"
proof (induction e and es rule: lowerExpr_lowerArgs.induct)
  case (10 op l r)
  have "lowers (case binary_opcode op of None \<Rightarrow> throws (RuntimeError ''Unsupported binary operator'')
     | Some opc \<Rightarrow> andThen (emit (mk_inst opc d lv rv 0 [] [])) (\<lambda>_. yields d))" for d lv rv
    using binary_opcode_plain [of op]
    by (auto intro!: lowers_intros lowers_emit split: option.split)
  with 10 show ?case
    by (auto intro!: lowers_intros)
qed (auto intro!: lowers_intros lowers_produce lowers_element_address)

lemma zeroed_run:
  "zeroed n s = Inr (vs, s') \<Longrightarrow>
     distinct vs \<and> (\<forall>v \<in> set vs. nextValue s \<le> v \<and> v < nextValue s') \<and> nextValue s \<le> nextValue s' \<and>
     arrayGroups (ir s') = arrayGroups (ir s)"
proof (induction n arbitrary: s vs)
  case (Suc n)
  then obtain v s1 us where v: "produce ConstI32 (-1) (-1) 0 [] [] s = Inr (v, s1)"
    and us: "zeroed n s1 = Inr (us, s')" "vs = v # us"
    by (auto simp: andThen_Inr yields_def)
  have "v = nextValue s" "nextValue s1 = nextValue s + 1" "arrayGroups (ir s1) = arrayGroups (ir s)"
    using v by (auto simp: produce_def andThen_Inr fresh_def emit_def modifies_def yields_def)
  then show ?case
    using Suc.IH [OF us(1)] us(2) by fastforce
qed (simp add: yields_def)

lemma lowers_zeroed: "lowers (zeroed n)"
  by (induction n) (auto intro!: lowers_intros lowers_produce)

lemma lowers_group:
  assumes "\<And>vs. lowers (k vs)"
  shows "lowers (andThen (zeroed n) (\<lambda>vs. andThen (add_group vs) (\<lambda>_. k vs)))"
proof (rule lowersI)
  fix s x s'
  assume "andThen (zeroed n) (\<lambda>vs. andThen (add_group vs) (\<lambda>_. k vs)) s = Inr (x, s')"
  then obtain vs s1 s2 where z: "zeroed n s = Inr (vs, s1)" and g: "add_group vs s1 = Inr ((), s2)"
    and k: "k vs s2 = Inr (x, s')"
    unfolding andThen_Inr by fastforce
  obtain a where a: "adds s s1 a" "forward_code (nextLabel s) (nextLabel s1) a"
    using lowersD [OF lowers_zeroed z] by blast
  obtain b where b: "adds s2 s' b" "forward_code (nextLabel s2) (nextLabel s') b"
    using lowersD [OF assms k] by blast
  have s2: "nextLabel s2 = nextLabel s1" "instructions (ir s2) = instructions (ir s1)" "nextValue s2 = nextValue s1"
    "arrayGroups (ir s2) = arrayGroups (ir s1) @ [vs]"
    using g by (auto simp: add_group_def modifies_def)
  have "groups_ok s2" if ok: "groups_ok s"
  proof -
    have "set (concat (arrayGroups (ir s))) \<inter> set vs = {}"
      using ok zeroed_run [OF z] unfolding groups_ok_def by fastforce
    moreover have "v < nextValue s1" if "v \<in> set (concat (arrayGroups (ir s))) \<union> set vs" for v
      using that ok zeroed_run [OF z] unfolding groups_ok_def by fastforce
    ultimately show ?thesis
      using ok zeroed_run [OF z] s2 by (simp add: groups_ok_def)
  qed
  then have "adds s s2 a"
    using a(1) s2 by (simp add: adds_def)
  then show "\<exists>c. adds s s' c \<and> forward_code (nextLabel s) (nextLabel s') c"
    using adds_trans [OF _ b(1)] forward_code_append [OF a(2)] b(2) s2 by metis
qed

lemma lowers_declare [lowers_intros]:
  "lowers (declare_array name count)" "lowers (declare_struct name structType)"
  unfolding declare_array_def declare_struct_def
  by (auto intro!: lowers_intros lowers_group lowers_modifies)

fun loop_free :: "Statement \<Rightarrow> bool" and loop_free_block :: "Statement list \<Rightarrow> bool" where
  "loop_free (WhileStmt e body) \<longleftrightarrow> False"
| "loop_free (IfStmt e a b) \<longleftrightarrow> loop_free_block a \<and> loop_free_block b"
| "loop_free (LetStmt name type e) \<longleftrightarrow> True"
| "loop_free (ReturnStmt e) \<longleftrightarrow> True"
| "loop_free (AssignStmt name e) \<longleftrightarrow> True"
| "loop_free (StoreStmt p e) \<longleftrightarrow> True"
| "loop_free (ArrayDeclStmt name type count) \<longleftrightarrow> True"
| "loop_free (IndexStoreStmt name i e) \<longleftrightarrow> True"
| "loop_free (StructVarDeclStmt name type) \<longleftrightarrow> True"
| "loop_free (FieldStoreStmt name field e) \<longleftrightarrow> True"
| "loop_free_block [] \<longleftrightarrow> True"
| "loop_free_block (st # sts) \<longleftrightarrow> loop_free st \<and> loop_free_block sts"

text \<open>The two shapes of a branch, with the labels numbered \<open>n\<close> and \<open>n + 1\<close>.\<close>

lemma forward_if:
  assumes a: "forward_code (n + 2) n' a" and e: "e = ''.Lend'' @ to_string (n + 1)"
  shows "forward_code n n' (mk_inst JumpIfZero (-1) v (-1) 0 [] e # a @ [mk_inst Label (-1) (-1) (-1) 0 [] e])"
proof -
  have e': "numbered (n + 1) (n + 2) e"
    unfolding numbered_def e by (intro exI [of _ "n + 1"] exI [of _ "''.Lend''"]) (simp add: label_prefixes_def)
  have "l \<noteq> e" if "l \<in> set (labels a)" for l
    using a that numbered_disjoint [OF e', of "n + 2" n' l] by (auto simp: forward_code_def)
  moreover have "numbered n n' l" if "l \<in> insert e (set (labels a))" for l
    using that a numbered_mono [OF e', of n n'] numbered_mono [of "n + 2" n' l n n'] by (auto simp: forward_code_def)
  ultimately show ?thesis
    using a resolved_mono [of "{}" a "{e}"] by (auto simp: forward_code_def)
qed

lemma forward_if_else:
  assumes a: "forward_code (n + 2) m a" and b: "forward_code m n' b"
    and l: "l = ''.Lelse'' @ to_string n" and e: "e = ''.Lend'' @ to_string (n + 1)"
  shows "forward_code n n'
    (mk_inst JumpIfZero (-1) v (-1) 0 [] l # a @
     [mk_inst Jump (-1) (-1) (-1) 0 [] e, mk_inst Label (-1) (-1) (-1) 0 [] l] @ b @
     [mk_inst Label (-1) (-1) (-1) 0 [] e])"
proof -
  have l': "numbered n (n + 1) l"
    unfolding numbered_def l by (intro exI [of _ n] exI [of _ "''.Lelse''"]) (simp add: label_prefixes_def)
  have e': "numbered (n + 1) (n + 2) e"
    unfolding numbered_def e by (intro exI [of _ "n + 1"] exI [of _ "''.Lend''"]) (simp add: label_prefixes_def)
  have ab: "forward_code (n + 2) n' (a @ b)"
    using forward_code_append [OF a b] .
  have le: "l \<noteq> e"
    using numbered_disjoint [OF l' e'] by simp
  have fresh: "k \<noteq> e \<and> k \<noteq> l" if "k \<in> set (labels a) \<union> set (labels b)" for k
  proof -
    have k: "numbered (n + 2) n' k"
      using ab that by (auto simp: forward_code_def)
    show ?thesis
      using numbered_disjoint [OF e' k] numbered_disjoint [OF l' k] by auto
  qed
  moreover have "numbered n n' k" if "k \<in> insert l (insert e (set (labels a) \<union> set (labels b)))" for k
    using that ab numbered_mono [OF l', of n n'] numbered_mono [OF e', of n n']
      numbered_mono [of "n + 2" n' k n n'] by (auto simp: forward_code_def)
  ultimately show ?thesis
    using ab le resolved_mono [of "{}" b "{e}"] resolved_mono [of "set (labels b)" a "insert l (insert e (set (labels b)))"]
    by (auto simp: forward_code_def)
qed

lemma effect_run:
  "effect op l r v lab s = Inr (x, s') \<longleftrightarrow>
     s' = s\<lparr>ir := (ir s)\<lparr>instructions := instructions (ir s) @ [mk_inst op (-1) l r v [] lab]\<rparr>\<rparr>"
  by (auto simp: effect_def emit_def modifies_def)

lemma andThen_freshLabel:
  "andThen (freshLabel p) k s = k (p @ to_string (nextLabel s)) (s\<lparr>nextLabel := nextLabel s + 1\<rparr>)"
  by (simp add: andThen_def freshLabel_def)

lemma andThen_effect:
  "andThen (effect op l r v lab) k s =
     k () (s\<lparr>ir := (ir s)\<lparr>instructions := instructions (ir s) @ [mk_inst op (-1) l r v [] lab]\<rparr>\<rparr>)"
  by (simp add: andThen_def effect_def emit_def modifies_def)

lemma lowers_if:
  assumes a: "lowers thenM" and b: "lowers elseM"
  shows "lowers
    (andThen (freshLabel ''.Lelse'') (\<lambda>elseLabel.
     andThen (freshLabel ''.Lend'') (\<lambda>endLabel.
     andThen (effect JumpIfZero cond (-1) 0 (if short then endLabel else elseLabel)) (\<lambda>_.
     andThen thenM (\<lambda>_.
     andThen (if short then yields ()
              else andThen (effect Jump (-1) (-1) 0 endLabel) (\<lambda>_.
                   andThen (effect Label (-1) (-1) 0 elseLabel) (\<lambda>_. elseM))) (\<lambda>_.
     effect Label (-1) (-1) 0 endLabel))))))"
    (is "lowers ?m")
proof (rule lowersI)
  fix s x s'
  assume run: "?m s = Inr (x, s')"
  let ?n = "nextLabel s"
  let ?l = "''.Lelse'' @ to_string ?n" and ?e = "''.Lend'' @ to_string (?n + 1)"
  let ?put = "\<lambda>s i. s\<lparr>ir := (ir s)\<lparr>instructions := instructions (ir s) @ [i]\<rparr>\<rparr>"
  let ?s0 = "?put (s\<lparr>nextLabel := ?n + 2\<rparr>) (mk_inst JumpIfZero (-1) cond (-1) 0 [] (if short then ?e else ?l))"
  have put: "adds t (?put t i) [i]" "nextLabel (?put t i) = nextLabel t" for t i
    by (simp_all add: adds_def groups_ok_def)
  have start: "adds s ?s0 [mk_inst JumpIfZero (-1) cond (-1) 0 [] (if short then ?e else ?l)]" "nextLabel ?s0 = ?n + 2"
    by (simp_all add: adds_def groups_ok_def)
  obtain y s1 where s1: "thenM ?s0 = Inr (y, s1)"
    and rest: "andThen (if short then yields ()
              else andThen (effect Jump (-1) (-1) 0 ?e) (\<lambda>_.
                   andThen (effect Label (-1) (-1) 0 ?l) (\<lambda>_. elseM))) (\<lambda>_.
     effect Label (-1) (-1) 0 ?e) s1 = Inr (x, s')"
  proof -
    have "?m s = andThen thenM (\<lambda>_. andThen (if short then yields ()
              else andThen (effect Jump (-1) (-1) 0 ?e) (\<lambda>_.
                   andThen (effect Label (-1) (-1) 0 ?l) (\<lambda>_. elseM))) (\<lambda>_.
     effect Label (-1) (-1) 0 ?e)) ?s0"
      unfolding andThen_freshLabel andThen_effect by simp
    with run have "andThen thenM (\<lambda>_. andThen (if short then yields ()
              else andThen (effect Jump (-1) (-1) 0 ?e) (\<lambda>_.
                   andThen (effect Label (-1) (-1) 0 ?l) (\<lambda>_. elseM))) (\<lambda>_.
     effect Label (-1) (-1) 0 ?e)) ?s0 = Inr (x, s')"
      by (simp only:)
    then show ?thesis
      using that unfolding andThen_Inr [of thenM] by blast
  qed
  obtain c1 where c1: "adds ?s0 s1 c1" "forward_code (?n + 2) (nextLabel s1) c1"
    using lowersD [OF a s1] start(2) by auto
  note s1' = adds_trans [OF start(1) c1(1)]
  show "\<exists>c. adds s s' c \<and> forward_code (nextLabel s) (nextLabel s') c"
  proof (cases short)
    case True
    then have s': "s' = ?put s1 (mk_inst Label (-1) (-1) (-1) 0 [] ?e)"
      using rest by (simp add: andThen_Inr yields_def effect_run)
    show ?thesis
      using adds_trans [OF s1' put(1) [of s1 "mk_inst Label (-1) (-1) (-1) 0 [] ?e"]]
        forward_if [OF c1(2) refl, of cond] True unfolding s' put(2) by fastforce
  next
    case False
    let ?s2 = "?put (?put s1 (mk_inst Jump (-1) (-1) (-1) 0 [] ?e)) (mk_inst Label (-1) (-1) (-1) 0 [] ?l)"
    obtain z s3 where s3: "elseM ?s2 = Inr (z, s3)" and s': "s' = ?put s3 (mk_inst Label (-1) (-1) (-1) 0 [] ?e)"
      using rest False by (auto simp: andThen_Inr effect_run)
    obtain c2 where c2: "adds ?s2 s3 c2" "forward_code (nextLabel s1) (nextLabel s3) c2"
      using lowersD [OF b s3] by auto
    have "adds s1 ?s2 [mk_inst Jump (-1) (-1) (-1) 0 [] ?e, mk_inst Label (-1) (-1) (-1) 0 [] ?l]"
      by (simp add: adds_def groups_ok_def)
    from adds_trans [OF adds_trans [OF s1' this] adds_trans [OF c2(1) put(1)]]
    show ?thesis
      using forward_if_else [OF c1(2) c2(2) refl refl, of cond] False unfolding s' put(2) by fastforce
  qed
qed

lemma lowers_statement: "loop_free st \<Longrightarrow> lowers (lowerStatement st)"
  and lowers_block: "loop_free_block sts \<Longrightarrow> lowers (lowerBlock sts)"
proof (induction st and sts rule: loop_free_loop_free_block.induct)
  case (2 e a b)
  then have "lowers (lowerBlock a)" "lowers (lowerBlock b)"
    by simp_all
  then show ?case
    unfolding lowerStatement.simps by (intro lowers_andThen [OF lowers_expr] lowers_if)
qed (auto intro!: lowers_intros lowers_expr lowers_element_address lowers_effect lowers_modifies lowers_emit)

lemma lowers_params: "lowers (lower_params i ps)"
  by (induction i ps rule: lower_params.induct) (auto intro!: lowers_intros lowers_produce lowers_modifies)

text \<open>A lowered function without loops: forward jumps, and distinct array elements.\<close>

lemma lower_loop_free:
  assumes "lower fn layouts enums = Inr f" "loop_free_block (fn_body fn)"
  shows "jumps_forward (instructions f) \<and> distinct (concat (arrayGroups f))"
proof -
  let ?s = "lower_start fn layouts enums"
  obtain x s where run: "andThen (lower_params 0 (fn_params fn)) (\<lambda>_. lowerBlock (fn_body fn)) ?s = Inr (x, s)"
    and f: "f = ir s"
    using assms(1) by (auto simp: lower_def split: sum.splits)
  have "lowers (andThen (lower_params 0 (fn_params fn)) (\<lambda>_. lowerBlock (fn_body fn)))"
    using assms(2) by (intro lowers_andThen lowers_params lowers_block)
  from lowersD [OF this run] obtain c where c: "adds ?s s c" "forward_code (nextLabel ?s) (nextLabel s) c"
    by blast
  have "groups_ok ?s" "instructions (ir ?s) = []"
    by (simp_all add: groups_ok_def lower_start_def)
  then show ?thesis
    using c resolved_forward [of c] by (simp add: adds_def forward_code_def groups_ok_def f)
qed

section \<open>From the syntax tree to allocated code\<close>

text \<open>
  C39. A function without loops that lowers successfully, whatever its branches, arrays, structures,
  pointers and calls: its array elements and structure fields, if it has any, get the consecutive
  stack slots the address arithmetic relies on; and, with or without them, its run ends, and the code in its allocated places does what the
  intermediate representation means, for every iteration order of the unordered maps.
\<close>

theorem loop_free_functions_compile:
  assumes "lower fn layouts enums = Inr f" "loop_free_block (fn_body fn)"
    and "distinct (map fst rs)" "map_of rs = map_of (analyze f)"
    and "distinct (map fst w)" "set w = set (build rs)"
    and "a = allocate w (build rs) (addressTakenValues f) (arrayGroups f)"
    and "n = Suc (length (instructions f))"
  shows "(\<forall>j < length (concat (arrayGroups f)). spillSlots a (concat (arrayGroups f) ! j) = Some j) \<and>
    og_run ext params (instructions f) (home f a) n 0 Map.empty \<noteq> Out_of_fuel \<and>
    (og_run ext params (instructions f) (home f a) n 0 Map.empty = Wrong \<or>
     og_run ext params (instructions f) (place_of a) n 0 T =
       og_run ext params (instructions f) (home f a) n 0 Map.empty)"
proof -
  have f: "jumps_forward (instructions f)" "distinct (concat (arrayGroups f))"
    using lower_loop_free [OF assms(1,2)] by simp_all
  have "allocation_ok (build rs) (addressTakenValues f) (arrayGroups f) a"
    unfolding assms(7) by (rule allocate_ok) (use assms(5,6) in \<open>simp_all only:\<close>, rule adj_build_sym)
  then have "\<forall>j < length (concat (arrayGroups f)). spillSlots a (concat (arrayGroups f) ! j) = Some j"
    using f(2) by (simp add: allocation_ok_def)
  then show ?thesis
    using coloring.preserves_runs [OF f(1) assms(3-8)] by blast
qed

text \<open>The function \<open>f(k) { let arr: i32[2]; if (k > 0) { return k; } return 7; }\<close>.\<close>

definition array_function :: Function where
  "array_function =
     \<lparr>fn_name = ''f'', fn_params = [\<lparr>param_name = ''k'', param_type = ''i32''\<rparr>], fn_returnType = ''i32'',
      fn_body =
        [ArrayDeclStmt ''arr'' ''i32'' 2,
         IfStmt (BinaryExpr CHR ''>'' (VariableExpr ''k'') (IntegerExpr 0)) [ReturnStmt (VariableExpr ''k'')] [],
         ReturnStmt (IntegerExpr 7)]\<rparr>"

definition lowered :: "Function \<Rightarrow> IRFunction" where
  "lowered fn =
     (case lower fn Map.empty Map.empty of
        Inr f \<Rightarrow> f
      | Inl e \<Rightarrow> \<lparr>ir_name = [], paramCount = 0, instructions = [], addressTakenValues = [], arrayGroups = []\<rparr>)"

definition array_ir :: IRFunction where
  "array_ir = lowered array_function"

definition allocated :: "graph \<Rightarrow> IRFunction \<Rightarrow> RegisterAllocation" where
  "allocated w f = allocate w (build (analyze f)) (addressTakenValues f) (arrayGroups f)"

lemma lower_lowered: "\<not> isl (lower fn Map.empty Map.empty) \<Longrightarrow> lower fn Map.empty Map.empty = Inr (lowered fn)"
  by (auto simp: lowered_def isl_def split: sum.split)

lemma array_reference:
  "og_run (\<lambda>_ _. None) [IntV 1] (instructions array_ir)
     (home array_ir (allocated (build (analyze array_ir)) array_ir)) (Suc (length (instructions array_ir))) 0 Map.empty = Done (IntV 1)"
  by code_simp

theorem loop_free_functions_compile_witness:
  "spillSlots (allocated (build (analyze array_ir)) array_ir) (concat (arrayGroups array_ir) ! 1) = Some 1 \<and>
   og_run (\<lambda>_ _. None) [IntV 1] (instructions array_ir)
     (place_of (allocated (build (analyze array_ir)) array_ir)) (Suc (length (instructions array_ir))) 0
     (\<lambda>_. Some (IntV 99)) = Done (IntV 1)"
proof -
  have l: "lower array_function Map.empty Map.empty = Inr array_ir"
    unfolding array_ir_def by (rule lower_lowered) code_simp
  have "loop_free_block (fn_body array_function)" "1 < length (concat (arrayGroups array_ir))"
    "distinct (map fst (analyze array_ir))" "distinct (map fst (build (analyze array_ir)))"
    by code_simp+
  then show ?thesis
    using loop_free_functions_compile [OF l _ _ refl _ refl allocated_def refl,
        of "\<lambda>_ _. None" "[IntV 1]" "\<lambda>_. Some (IntV 99)"] array_reference
    by simp
qed

section \<open>Loops\<close>

text \<open>The function \<open>count_to(n) { let i: i32 = 0; while (i < n) { i = i + 1; } return i; }\<close>.\<close>

definition count_to :: Function where
  "count_to =
     \<lparr>fn_name = ''count_to'', fn_params = [\<lparr>param_name = ''n'', param_type = ''i32''\<rparr>], fn_returnType = ''i32'',
      fn_body =
        [LetStmt ''i'' ''i32'' (IntegerExpr 0),
         WhileStmt (BinaryExpr CHR ''<'' (VariableExpr ''i'') (VariableExpr ''n''))
           [AssignStmt ''i'' (BinaryExpr CHR ''+'' (VariableExpr ''i'') (IntegerExpr 1))],
         ReturnStmt (VariableExpr ''i'')]\<rparr>"

definition count_ir :: IRFunction where
  "count_ir = lowered count_to"

definition runs :: "IRFunction \<Rightarrow> (ValueId \<Rightarrow> place) \<Rightarrow> rt list \<Rightarrow> outcome" where
  "runs f loc params = og_run (\<lambda>_ _. None) params (instructions f) loc 60 0 Map.empty"

fun arrangements :: "nat \<Rightarrow> 'a list \<Rightarrow> 'a list list" where
  "arrangements 0 xs = [[]]"
| "arrangements (Suc n) xs = concat (map (\<lambda>x. map ((#) x) (arrangements n (removeAll x xs))) xs)"

lemma arrangements_complete:
  "distinct ys \<Longrightarrow> set ys = set xs \<Longrightarrow> ys \<in> set (arrangements (length ys) xs)"
proof (induction ys arbitrary: xs)
  case (Cons y ys)
  have "ys \<in> set (arrangements (length ys) (removeAll y xs))"
    using Cons.prems by (intro Cons.IH) auto
  moreover have "y \<in> set xs"
    using Cons.prems by auto
  ultimately show ?case
    by auto
qed simp

lemma count_graph_keys: "distinct (map fst (build (analyze count_ir)))" "length (build (analyze count_ir)) = 5"
  by code_simp+

text \<open>All 120 iteration orders of the working graph, evaluated in blocks of 24.\<close>

definition count_orders :: "graph list" where
  "count_orders = arrangements 5 (build (analyze count_ir))"

definition counts_one :: "graph \<Rightarrow> bool" where
  "counts_one w \<longleftrightarrow> runs count_ir (place_of (allocated w count_ir)) [IntV 3] = Done (IntV 1)"

lemma count_block_1: "list_all counts_one (take 24 count_orders)"
  by code_simp

lemma count_block_2: "list_all counts_one (take 24 (drop 24 count_orders))"
  by code_simp

lemma count_block_3: "list_all counts_one (take 24 (drop 48 count_orders))"
  by code_simp

lemma count_block_4: "list_all counts_one (take 24 (drop 72 count_orders))"
  by code_simp

lemma count_block_5: "list_all counts_one (drop 96 count_orders)"
  by code_simp

lemma list_all_split: "list_all P (take n xs) \<Longrightarrow> list_all P (drop n xs) \<Longrightarrow> list_all P xs"
  by (metis append_take_drop_id list_all_append)

lemma count_all_orders: "list_all counts_one count_orders"
proof -
  have "list_all counts_one (drop 72 count_orders)"
    by (rule list_all_split [OF count_block_4]) (simp add: count_block_5)
  then have "list_all counts_one (drop 48 count_orders)"
    by (intro list_all_split [OF count_block_3]) simp
  then have "list_all counts_one (drop 24 count_orders)"
    by (intro list_all_split [OF count_block_2]) simp
  then show ?thesis
    by (rule list_all_split [OF count_block_1])
qed

text \<open>
  C40. Live ranges run from the first to the last mention of a value and ignore the jump back of a
  loop. The bound \<open>n\<close> of \<open>count_to\<close> is mentioned last by the loop condition, so in every iteration order
  the allocator lets the loop body overwrite its register: \<open>count_to(3)\<close> means 3, the allocated code
  returns 1.
\<close>

theorem loop_bound_is_lost:
  assumes "distinct (map fst w)" "set w = set (build (analyze count_ir))"
  shows "lower count_to Map.empty Map.empty = Inr count_ir \<and>
    runs count_ir (home count_ir (allocated w count_ir)) [IntV 3] = Done (IntV 3) \<and>
    runs count_ir (place_of (allocated w count_ir)) [IntV 3] = Done (IntV 1)"
proof -
  have "distinct w"
    using assms(1) by (simp add: distinct_map)
  moreover have "length w = 5"
    using assms count_graph_keys by (metis distinct_card distinct_map)
  ultimately have "w \<in> set (arrangements 5 (build (analyze count_ir)))"
    using arrangements_complete [of w] assms(2) by metis
  then have "runs count_ir (place_of (allocated w count_ir)) [IntV 3] = Done (IntV 1)"
    using count_all_orders by (simp add: list_all_iff count_orders_def counts_one_def)
  moreover have "home count_ir b = home count_ir no_allocation" for b
  proof -
    have "memory_values count_ir = {}"
      by code_simp
    then show ?thesis
      by (simp add: home_def fun_eq_iff)
  qed
  moreover have "runs count_ir (home count_ir no_allocation) [IntV 3] = Done (IntV 3)"
    by code_simp
  moreover have "lower count_to Map.empty Map.empty = Inr count_ir"
    unfolding count_ir_def by (rule lower_lowered) code_simp
  ultimately show ?thesis
    by metis
qed

theorem loop_bound_is_lost_witness:
  "runs count_ir (place_of (allocated (rev (build (analyze count_ir))) count_ir)) [IntV 3] = Done (IntV 1)"
proof -
  have "distinct (map fst (rev (build (analyze count_ir))))"
    using count_graph_keys(1) by (simp flip: rev_map)
  then show ?thesis
    using loop_bound_is_lost [of "rev (build (analyze count_ir))"] by simp
qed

text \<open>
  A \<^verbatim>\<open>let\<close> whose initializer is a variable shares that variable's value: assigning to the new name
  changes the old one. \<open>f(a) { let b: i32 = a; b = 5; return a; }\<close> returns 5.
\<close>

definition alias_function :: Function where
  "alias_function =
     \<lparr>fn_name = ''f'', fn_params = [\<lparr>param_name = ''a'', param_type = ''i32''\<rparr>], fn_returnType = ''i32'',
      fn_body =
        [LetStmt ''b'' ''i32'' (VariableExpr ''a''), AssignStmt ''b'' (IntegerExpr 5), ReturnStmt (VariableExpr ''a'')]\<rparr>"

lemma let_shares_the_value:
  "runs (lowered alias_function) (home (lowered alias_function) no_allocation) [IntV 1] = Done (IntV 5)"
  by code_simp

end
