(* ===== verification/Spec2Isabelle.thy ===== *)
theory Spec2Isabelle
  imports Sha256 Hmac Wal KvStore Rpc Raft RaftSafety Chain Protocols Frames Heap Elf Paging TaskCreate OgCompile
begin

text \<open>
  Verification of the C++ core of the repository: cryptography, durable storage, remote procedure
  calls and Raft election, a single-node ledger chain, network protocol codecs, the memory and
  task management of a small operating-system kernel, and the lowering and register allocation of the
  oglang compiler. This root imports every theory; the paths
  below are under \<^verbatim>\<open>src/\<close>.

  \<^bold>\<open>Parts of the program and how they interact.\<close>
  The hash of \<^verbatim>\<open>10-cryptography\<close> is called by the HMAC, by the L1 types (addresses, hashes, roots)
  and by the version control's object ids. The codec \<^verbatim>\<open>07-distributed-systems/rpc/serialization\<close> is
  called by RPC and by the L1 transactions and blocks. The write-ahead log \<^verbatim>\<open>08-storage/wal\<close>
  carries the key-value store \<^verbatim>\<open>08-storage/kv\<close>, which carries the chain \<^verbatim>\<open>23-blockchain/l1\<close>. Raft
  runs on the simulated network of RPC. In \<^verbatim>\<open>22-os\<close> the scheduler creates tasks from the page
  allocator, the paging code and the plan of the ELF validation, and the interrupt handler calls
  the scheduler's tick, yield and termination; the kernel heap carves the allocator's pages. In
  \<^verbatim>\<open>03-compiler/oglang\<close> the lowering turns a checked syntax tree into instructions on value numbers,
  from which live ranges, interference and the register allocation are computed.

  \<^bold>\<open>Theories.\<close>
  \<^item> \<open>Prelude\<close>: machine words, big-endian byte layouts, strings as bytes, decimal text, shared facts.
  \<^item> \<open>Serialization\<close> (\<^verbatim>\<open>07-distributed-systems/rpc/serialization.cpp\<close>): encoder and decoder, one
    function per method. Locale \<open>wire_codec\<close> (a writer and a reader that invert each other at the front
    of a buffer) interpreted on the 8-, 32- and 64-bit integers, byte blobs and strings.
  \<^item> \<open>Sha256\<close>, \<open>Hmac\<close> (\<^verbatim>\<open>10-cryptography/hashing\<close>, \<^verbatim>\<open>mac\<close>): the streaming state machine against the
    standard's padding and block folding; locale \<open>stream_hash\<close> interpreted on it; RFC 2104 and
    message authentication.
  \<^item> \<open>Wal\<close>, \<open>KvStore\<close> (\<^verbatim>\<open>08-storage/wal\<close>, \<^verbatim>\<open>kv\<close>): CRC-32, append and recovery over the bytes of the
    file, the store replayed from the log; locales \<open>durable_log\<close> and \<open>durable_map\<close>. An append is given
    the outcome of its write: complete, refused, or cut off after some bytes.
  \<^item> \<open>Rpc\<close> (\<^verbatim>\<open>07-distributed-systems/rpc/rpc.cpp\<close>): the messages, the simulated network with its
    generator, losses, delays and partitions, server and client; liveness on a quiet network.
  \<^item> \<open>Raft\<close>, \<open>RaftSafety\<close> (\<^verbatim>\<open>07-distributed-systems/raft/raft.cpp\<close>): one node, the cluster's tick, and
    election safety over every run. Locale \<open>node_turn\<close> (what a turn of one node owes to the ghost
    history of votes and wins) interpreted on the three phases of a tick.
  \<^item> \<open>OrderedMap\<close>: \<^verbatim>\<open>std::map\<close> as a sorted association list; locale \<open>ordered_map\<close>.
  \<^item> \<open>L1Types\<close>, \<open>Ledger\<close>, \<open>Chain\<close> (\<^verbatim>\<open>23-blockchain/l1\<close>): hexadecimal text, transactions and blocks
    with their codecs, the transfer rule against an abstract balance map, supply conservation, and
    block production on the durable store.
  \<^item> \<open>Protocols\<close> (\<^verbatim>\<open>06-networking/protocols/protocols.cpp\<close>): checksum, Ethernet, ARP, IPv4, ICMP and
    UDP; locale \<open>header_codec\<close> interpreted on the three fixed headers.
  \<^item> \<open>Frames\<close> (\<^verbatim>\<open>22-os/memory/memory.cpp\<close>): the physical page bitmap; locale \<open>page_allocator\<close>.
  \<^item> \<open>Heap\<close> (\<^verbatim>\<open>22-os/heap/heap.cpp\<close>): the first-fit heap. Its headers are a typed store of blocks and
    segments; each operation on pointers is shown to be an operation on the list of blocks of one page,
    and the locale \<open>page_allocator\<close> gives what the heap needs of \<open>Frames\<close>.
  \<^item> \<open>Elf\<close> (\<^verbatim>\<open>22-os/elf/elf.cpp\<close>): validation of an image into a load plan, with every read of the image
    checked.
  \<^item> \<open>Paging\<close> (\<^verbatim>\<open>22-os/paging/paging.cpp\<close>): directories and tables in physical memory, refined to one
    page map per address space.
  \<^item> \<open>Scheduler\<close>, \<open>TaskSwitch\<close>, \<open>TaskCreate\<close> (\<^verbatim>\<open>22-os/scheduler/scheduler.cpp\<close>): the operations; round
    robin and the tick; creation and roll-back, and the step relation of a running kernel with its
    invariant.
  \<^item> \<open>OgIr\<close>, \<open>OgAlloc\<close>, \<open>OgMachine\<close> (\<^verbatim>\<open>03-compiler/oglang\<close>: \<^verbatim>\<open>ir/ir.hpp\<close>, \<^verbatim>\<open>analysis\<close>,
    \<^verbatim>\<open>codegen/register_allocator.cpp\<close>): live ranges, interference graph and graph colouring; the places of
    two values that live together differ; a machine on places simulates the one with a private cell per
    value. Locale \<open>register_allocator\<close> (what code generation needs of an allocation) interpreted on the
    colouring allocator. The iteration orders of the unordered maps are arguments.
  \<^item> \<open>OgLower\<close>, \<open>OgCompile\<close> (\<^verbatim>\<open>ast/ast.hpp\<close>, \<^verbatim>\<open>ir/lower.cpp\<close>): the lowering of expressions and
    statements, and the composition with the allocator: loop-free functions compile correctly; a loop up
    to a parameter does not.

  \<^bold>\<open>Correspondence.\<close>
  A definition has the name of the C++ function it models; a loop body or a phase of a long function
  has its own definition, named in the text above it. A class is a \<open>record\<close> with the class's
  fields, an \<open>enum class\<close> a \<open>datatype\<close>, a \<^verbatim>\<open>std::map\<close> a sorted association list, an output parameter a
  component of the result. An operation that changes state returns the new state; one that can fail
  returns an option, a sum with the source's error, or the source's boolean.

  \<^bold>\<open>Bounds and fuel.\<close>
  The machine \<open>og_run\<close> of \<open>OgMachine\<close> runs on fuel, since a program with a loop may not end. The
  properties of loop-free code show that it ends: with forward jumps one step more than there are
  instructions is enough; the loop example ends within 60 steps. What a call or inline assembly does is
  an argument of the machine, a function of its text and argument values. No other property runs on fuel: the search loops of \<open>Heap\<close> are partial
  functions proved to return in every reached state, and the loops that are not structural (hash update and padding, carry folding,
  log recovery) are functions with a termination proof. Machine integers are words of their
  width and wrap; a \<^verbatim>\<open>size_t\<close> that counts bytes of an object in memory is a natural number. Where a
  length is stored in 32 bits its narrowing is written out, and a round trip assumes the length below
  \<open>2^32\<close> (\<open>blob_wf\<close> and the well-formedness predicates). \<open>Protocols\<close> bounds the one's-complement sum by
  the 131074 bytes at which the 32-bit accumulator could overflow. \<open>Frames\<close> and \<open>Paging\<close> have the
  code's 4096 pages, 16 MiB. \<open>TaskCreate\<close> bounds the run by \<open>2^32 - 4\<close> events, the number of process
  identifiers.

  \<^bold>\<open>Not modelled.\<close>
  Of the compiler \<^verbatim>\<open>03-compiler/oglang\<close> the lexer, parser and type checker, which end where the modelled
  lowering starts, the x86-64 text generator, whose contract is the machine on places, and the driver.
  The version control and build tool \<^verbatim>\<open>13-developer-ecosystem\<close> and the network laboratory
  \<^verbatim>\<open>24-network-simulator\<close>: file-system and scenario code around the modelled hash and parsers.
  The floating-point parts (\<^verbatim>\<open>14-ai\<close>, \<^verbatim>\<open>15-quantum\<close>, \<^verbatim>\<open>16-robotics\<close>, \<^verbatim>\<open>17-graphics\<close>,
  \<^verbatim>\<open>18-scientific-computing\<close>, \<^verbatim>\<open>20-space-systems\<close>): their results are rounding, which the library
  theories do not describe. In \<^verbatim>\<open>22-os\<close>: descriptor tables, drivers, assembly entry code, the
  boot sequence and the system-call switch.
  Of the modelled parts: the disk is the byte sequence of a file and never reorders; the runs of \<open>KvStore\<close>
  and \<open>Chain\<close> (\<open>kv_run\<close>, \<open>fresh_run\<close>) are those whose writes succeed, up to the one failing write a property
  names; allocating the buffer for a length or count read from the input never fails; the scheduler's operations are
  atomic, so a timer tick inside one, task creation in particular, is not represented; a called function or inline assembly in
  \<open>OgMachine\<close> does not write through its pointer arguments; time is the tick count of the simulation; the look-aside buffer of the processor, the contents of a kernel stack below
  its saved frame, and the text on the serial line are left out.
\<close>

end
